(* ===== verification/Bafs_Prelude.thy ===== *)
theory Bafs_Prelude
  imports Main "HOL-Library.Word"
begin

text \<open>
  The vocabulary every component shares.

  \<^item> The machine integers of the Rust sources (\<open>u8\<close>, \<open>u16\<close>, \<open>u32\<close>, \<open>u64\<close>) are words of
    their width; \<open>usize\<close> is 64 bits wide on every supported target and is a \<open>nat\<close> wherever the
    code cannot leave the 64-bit range.
  \<^item> \<open>result\<close> is the outcome of a fallible function: \<open>Ok\<close> and \<open>Err\<close> are Rust's; \<open>Panic\<close> is an
    unwinding panic (checked arithmetic, an index or a slice out of range, a failed
    \<open>debug_assert\<close>), as the dev profile compiles it; \<open>OutOfFuel\<close> is the value of a recursion
    that was cut off, and stands for a call that has not returned.
  \<^item> \<open>sop\<close> is a computation over a mutable state: Rust's \<open>&mut\<close> arguments keep what was written
    to them before an error, so the final state is returned on every outcome.
  \<^item> Slices of byte buffers, and the little-endian encodings \<open>to_le_bytes\<close> and
    \<open>from_le_bytes\<close> of the standard library.
\<close>

named_theorems codec_simps \<open>lengths and round trips of encoders\<close>
named_theorems slice_simps \<open>reading a slice of a buffer after writes to it\<close>

section \<open>Machine integers and bytes\<close>

type_synonym u8 = "8 word"
type_synonym u16 = "16 word"
type_synonym u32 = "32 word"
type_synonym u64 = "64 word"
type_synonym bytes = "u8 list"

section \<open>Errors and results\<close>

text \<open>\<open>BafsError\<close> of \<open>error.rs\<close>, one constructor for each variant.\<close>

datatype bafs_error =
    InputOutputError
  | InvalidChecksum u64
  | InvalidMagicNumber
  | UnsupportedVersion u32
  | OutOfSpace
  | NotFound
  | NotADirectory
  | NotARegularFile
  | AlreadyExists
  | InvalidArgument
  | CorruptedStructure
  | NotSupported

datatype 'a result = Ok 'a | Err bafs_error | Panic | OutOfFuel

primrec bindR :: "'a result \<Rightarrow> ('a \<Rightarrow> 'b result) \<Rightarrow> 'b result" where
  "bindR (Ok x) f = f x"
| "bindR (Err e) f = Err e"
| "bindR Panic f = Panic"
| "bindR OutOfFuel f = OutOfFuel"

text \<open>\<open>assertR b\<close> is \<open>assert!(b)\<close>: it panics when \<open>b\<close> fails.\<close>

definition assertR :: "bool \<Rightarrow> unit result" where
  "assertR b = (if b then Ok () else Panic)"

text \<open>\<open>ok_or opt e\<close> is \<open>Option::ok_or\<close>.\<close>

definition ok_or :: "'a option \<Rightarrow> bafs_error \<Rightarrow> 'a result" where
  "ok_or opt e = (case opt of None \<Rightarrow> Err e | Some x \<Rightarrow> Ok x)"

lemma bindR_eq_Ok [simp]: "bindR m f = Ok y \<longleftrightarrow> (\<exists>x. m = Ok x \<and> f x = Ok y)"
  by (cases m) auto

lemma bindR_assoc [simp]: "bindR (bindR m f) g = bindR m (\<lambda>x. bindR (f x) g)"
  by (cases m) auto

lemma assertR_Ok [simp]: "assertR b = Ok u \<longleftrightarrow> b"
  by (simp add: assertR_def)

lemma bindR_assert [simp]: "b \<Longrightarrow> bindR (assertR b) f = f ()"
  by (simp add: assertR_def)

lemma unat_bound: "unat (w :: 'a::len word) < 2 ^ LENGTH('a)"
  by (rule unsigned_less)

text \<open>Checked arithmetic: an overflow panics.\<close>

definition add_u :: "'a::len word \<Rightarrow> 'a word \<Rightarrow> 'a word result" where
  "add_u a b = (if unat a + unat b < 2 ^ LENGTH('a) then Ok (a + b) else Panic)"

definition sub_u :: "'a::len word \<Rightarrow> 'a word \<Rightarrow> 'a word result" where
  "sub_u a b = (if b \<le> a then Ok (a - b) else Panic)"

definition mul_u :: "'a::len word \<Rightarrow> 'a word \<Rightarrow> 'a word result" where
  "mul_u a b = (if unat a * unat b < 2 ^ LENGTH('a) then Ok (a * b) else Panic)"

definition saturating_sub :: "'a::len word \<Rightarrow> 'a word \<Rightarrow> 'a word" where
  "saturating_sub a b = (if b \<le> a then a - b else 0)"

definition saturating_add :: "'a::len word \<Rightarrow> 'a word \<Rightarrow> 'a word" where
  "saturating_add a b = (if unat a + unat b < 2 ^ LENGTH('a) then a + b else - 1)"

lemma add_u_OkD: "add_u a b = Ok c \<Longrightarrow> c = a + b \<and> unat c = unat a + unat b"
  by (auto simp: add_u_def unat_word_ariths split: if_splits)

lemma sub_u_OkD: "sub_u a b = Ok c \<Longrightarrow> c = a - b \<and> b \<le> a \<and> unat c = unat a - unat b"
  by (auto simp: sub_u_def unat_sub split: if_splits)

lemma mul_u_OkD: "mul_u a b = Ok c \<Longrightarrow> c = a * b \<and> unat c = unat a * unat b"
  by (auto simp: mul_u_def unat_word_ariths split: if_splits)

lemma add_u_Ok [simp]: "unat a + unat b < 2 ^ LENGTH('a) \<Longrightarrow> add_u a b = Ok (a + b)"
  for a b :: "'a::len word"
  by (simp add: add_u_def)

lemma unat_plus_1: "unat (a + 1) = unat a + 1" if "unat a + 1 < 2 ^ LENGTH('a)"
  for a :: "'a::len word"
  using that by (simp add: unat_word_ariths)

section \<open>Computations over a mutable state\<close>

type_synonym ('s, 'a) sop = "'s \<Rightarrow> 'a result \<times> 's"

definition retS :: "'a \<Rightarrow> ('s, 'a) sop" where
  "retS x = (\<lambda>s. (Ok x, s))"

definition liftS :: "'a result \<Rightarrow> ('s, 'a) sop" where
  "liftS r = (\<lambda>s. (r, s))"

definition failS :: "bafs_error \<Rightarrow> ('s, 'a) sop" where
  "failS e = (\<lambda>s. (Err e, s))"

definition getS :: "('s \<Rightarrow> 'a) \<Rightarrow> ('s, 'a) sop" where
  "getS f = (\<lambda>s. (Ok (f s), s))"

definition modifyS :: "('s \<Rightarrow> 's) \<Rightarrow> ('s, unit) sop" where
  "modifyS f = (\<lambda>s. (Ok (), f s))"

definition bindS :: "('s, 'a) sop \<Rightarrow> ('a \<Rightarrow> ('s, 'b) sop) \<Rightarrow> ('s, 'b) sop" where
  "bindS m f = (\<lambda>s. case m s of
      (Ok x, s') \<Rightarrow> f x s'
    | (Err e, s') \<Rightarrow> (Err e, s')
    | (Panic, s') \<Rightarrow> (Panic, s')
    | (OutOfFuel, s') \<Rightarrow> (OutOfFuel, s'))"

lemma sop_simps [simp]:
  "retS x s = (Ok x, s)"
  "liftS r s = (r, s)"
  "failS e s = (Err e, s)"
  "getS g s = (Ok (g s), s)"
  "modifyS h s = (Ok (), h s)"
  by (simp_all add: retS_def liftS_def failS_def getS_def modifyS_def)

lemma bindS_Ok [simp]: "m s = (Ok x, s') \<Longrightarrow> bindS m f s = f x s'"
  by (simp add: bindS_def)

lemma bindS_Err: "m s = (Err e, s') \<Longrightarrow> bindS m f s = (Err e, s')"
  by (simp add: bindS_def)

lemma bindS_lift [simp]:
  "bindS (retS x) f s = f x s"
  "bindS (liftS (Ok x)) f s = f x s"
  "bindS (getS g) f s = f (g s) s"
  "bindS (modifyS h) k s = k () (h s)"
  by (simp_all add: bindS_def)

lemma bindS_eq_Ok:
  "bindS m f s = (Ok y, t) \<longleftrightarrow> (\<exists>x s'. m s = (Ok x, s') \<and> f x s' = (Ok y, t))"
  by (auto simp: bindS_def split: prod.splits result.splits)

lemma bindS_assoc: "bindS (bindS m f) g s = bindS m (\<lambda>x. bindS (f x) g) s"
  by (auto simp: bindS_def split: prod.splits result.splits)

section \<open>Slices\<close>

text \<open>\<open>slice a b xs\<close> is \<open>xs[a..b]\<close>; \<open>write_slice xs off src\<close> is
  \<open>xs[off..off + src.len()].copy_from_slice(src)\<close>. Where the source may go out of range the
  models test the bounds first and panic.\<close>

definition slice :: "nat \<Rightarrow> nat \<Rightarrow> 'a list \<Rightarrow> 'a list" where
  "slice a b xs = take (b - a) (drop a xs)"

definition write_slice :: "'a list \<Rightarrow> nat \<Rightarrow> 'a list \<Rightarrow> 'a list" where
  "write_slice xs off src = take off xs @ src @ drop (off + length src) xs"

lemma length_slice [simp]: "length (slice a b xs) = min (b - a) (length xs - a)"
  by (simp add: slice_def min.commute)

lemma length_write_slice [simp]:
  "off + length src \<le> length xs \<Longrightarrow> length (write_slice xs off src) = length xs"
  by (simp add: write_slice_def)

lemma nth_slice: "i < b - a \<Longrightarrow> a + i < length xs \<Longrightarrow> slice a b xs ! i = xs ! (a + i)"
  by (simp add: slice_def)

lemma nth_write_slice:
  "off + length src \<le> length xs \<Longrightarrow> i < length xs \<Longrightarrow>
   write_slice xs off src ! i =
     (if off \<le> i \<and> i < off + length src then src ! (i - off) else xs ! i)"
  by (auto simp: write_slice_def nth_append min_def)

lemma slice_write_same [slice_simps]:
  "off + length src \<le> length xs \<Longrightarrow> b = off + length src \<Longrightarrow>
   slice off b (write_slice xs off src) = src"
  by (simp add: slice_def write_slice_def)

lemma slice_write_sub [slice_simps]:
  assumes "off + length src \<le> length xs" "off \<le> a" "b \<le> off + length src" "a \<le> b"
  shows "slice a b (write_slice xs off src) = slice (a - off) (b - off) src"
  by (rule nth_equalityI) (use assms in \<open>auto simp: nth_slice nth_write_slice\<close>)

lemma slice_write_other [slice_simps]:
  assumes "off + length src \<le> length xs" "b \<le> off \<or> off + length src \<le> a"
  shows "slice a b (write_slice xs off src) = slice a b xs"
  by (rule nth_equalityI) (use assms in \<open>auto simp: nth_slice nth_write_slice\<close>)

lemma nth_write_other [slice_simps]:
  assumes "off + length src \<le> length xs" "i < off \<or> off + length src \<le> i" "i < length xs"
  shows "write_slice xs off src ! i = xs ! i"
  using assms by (auto simp: nth_write_slice)

lemma slice_append_left [slice_simps]: "b \<le> length xs \<Longrightarrow> slice a b (xs @ ys) = slice a b xs"
  by (cases "a \<le> length xs") (auto simp: slice_def)

lemma slice_append_right [slice_simps]:
  "length xs \<le> a \<Longrightarrow> slice a b (xs @ ys) = slice (a - length xs) (b - length xs) ys"
  by (simp add: slice_def)

lemma slice_Cons [slice_simps]: "slice (Suc a) b (x # xs) = slice a (b - 1) xs"
  by (simp add: slice_def)

lemma slice_all [slice_simps]: "length xs \<le> b \<Longrightarrow> slice 0 b xs = xs"
  by (simp add: slice_def)

lemma slice_eq_drop: "length xs \<le> b \<Longrightarrow> slice a b xs = drop a xs"
  by (simp add: slice_def)

lemma slice_join:
  assumes "a \<le> b" "b \<le> c"
  shows "slice a b xs @ slice b c xs = slice a c xs"
    and "slice a b xs @ slice b c xs @ ys = slice a c xs @ ys"
proof -
  have "slice a c xs = take (b - a) (drop a xs) @ take (c - b) (drop b xs)"
    using assms take_add [of "b - a" "c - b" "drop a xs"] by (simp add: slice_def)
  then show "slice a b xs @ slice b c xs = slice a c xs"
    and "slice a b xs @ slice b c xs @ ys = slice a c xs @ ys"
    by (simp_all add: slice_def)
qed

section \<open>Little-endian encodings\<close>

primrec le_bytes :: "nat \<Rightarrow> nat \<Rightarrow> bytes" where
  "le_bytes 0 n = []"
| "le_bytes (Suc k) n = word_of_nat (n mod 256) # le_bytes k (n div 256)"

primrec le_nat :: "bytes \<Rightarrow> nat" where
  "le_nat [] = 0"
| "le_nat (b # bs) = unat b + 256 * le_nat bs"

text \<open>\<open>to_le_bytes\<close> of a word of \<open>k\<close> bytes, and \<open>from_le_bytes\<close>.\<close>

definition to_le :: "'a::len word \<Rightarrow> bytes" where
  "to_le w = le_bytes (LENGTH('a) div 8) (unat w)"

definition from_le :: "bytes \<Rightarrow> 'a::len word" where
  "from_le bs = word_of_nat (le_nat bs)"

lemma length_le_bytes [simp]: "length (le_bytes k n) = k"
  by (induction k arbitrary: n) auto

lemma length_to_le [simp]: "length (to_le (w :: 'a::len word)) = LENGTH('a) div 8"
  by (simp add: to_le_def)

lemma le_nat_le_bytes [codec_simps]: "le_nat (le_bytes k n) = n mod 256 ^ k"
proof (induction k arbitrary: n)
  case (Suc k)
  have "unat (word_of_nat (n mod 256) :: u8) = n mod 256"
    by (simp add: unat_of_nat)
  then show ?case
    using Suc by (simp add: mod_mult2_eq)
qed simp

lemma le_nat_bound: "le_nat bs < 256 ^ length bs"
proof (induction bs)
  case (Cons b bs)
  have "unat b < 256" using unat_bound [of b] by simp
  then show ?case using Cons by simp
qed simp

lemma le_bytes_le_nat [codec_simps]: "le_bytes (length bs) (le_nat bs) = bs"
proof (induction bs)
  case (Cons b bs)
  have b: "unat b < 256" using unat_bound [of b] by simp
  then have "(unat b + 256 * le_nat bs) mod 256 = unat b" by simp
  moreover from b have "(unat b + 256 * le_nat bs) div 256 = le_nat bs" by simp
  ultimately show ?case using Cons by simp
qed simp

lemma byte_power: "(256::nat) ^ (n div 8) = 2 ^ n" if "8 dvd n"
proof -
  from that obtain k where "n = 8 * k" ..
  then show ?thesis by (simp add: power_mult)
qed

lemma from_le_to_le: "8 dvd LENGTH('a) \<Longrightarrow> from_le (to_le (w :: 'a::len word)) = w"
proof -
  assume "8 dvd LENGTH('a)"
  then have "(256::nat) ^ (LENGTH('a) div 8) = 2 ^ LENGTH('a)"
    by (rule byte_power)
  then show ?thesis
    using unat_bound [of w] by (simp add: from_le_def to_le_def codec_simps)
qed

lemma from_le_to_le_sized [codec_simps, simp]:
  "from_le (to_le (a :: u16)) = a"
  "from_le (to_le (b :: u32)) = b"
  "from_le (to_le (c :: u64)) = c"
  by (simp_all add: from_le_to_le)

lemma to_le_from_le:
  assumes "length bs = LENGTH('a) div 8" "8 dvd LENGTH('a)"
  shows "to_le (from_le bs :: 'a::len word) = bs"
proof -
  have "(256::nat) ^ (LENGTH('a) div 8) = 2 ^ LENGTH('a)"
    using assms(2) by (rule byte_power)
  then have "le_nat bs < 2 ^ LENGTH('a)"
    using le_nat_bound [of bs] assms(1) by simp
  then have "unat (word_of_nat (le_nat bs) :: 'a word) = le_nat bs"
    by (simp add: unat_of_nat)
  then show ?thesis
    using le_bytes_le_nat [of bs] assms(1) by (simp add: to_le_def from_le_def)
qed

lemma to_le_from_le_sized [codec_simps]:
  "length bs = 2 \<Longrightarrow> to_le (from_le bs :: u16) = bs"
  "length bs = 4 \<Longrightarrow> to_le (from_le bs :: u32) = bs"
  "length bs = 8 \<Longrightarrow> to_le (from_le bs :: u64) = bs"
  by (simp_all add: to_le_from_le)

end
