(* ===== verification/Block_Device.thy ===== *)
theory Block_Device
  imports Bafs_Prelude
begin

text \<open>
  \<open>block_device.rs\<close>: the \<open>BlockDevice\<close> trait, and the devices the repository implements it for:
  the file-backed device of \<open>bafs-tools\<close> and the two in-memory disks of the integration tests.

  A trait object is a record of its methods over the device's own state; the methods take the
  state explicitly because the implementations mutate it behind \<open>&self\<close>. The locale
  \<open>block_store\<close> states the contract of the trait over an abstract disk image, and
  \<open>reliable_store\<close> adds that writes inside the device succeed. Every implementation is shown
  to meet the contract.
\<close>

section \<open>The trait\<close>

text \<open>\<open>read_sectors\<close> gets the destination buffer and returns it, as the method fills a slice of
  the caller; \<open>write_sectors\<close> returns the changed device.\<close>

record 'd block_device =
  read_sectors :: "'d \<Rightarrow> u64 \<Rightarrow> u32 \<Rightarrow> bytes \<Rightarrow> bool result \<times> bytes"
  write_sectors :: "'d \<Rightarrow> u64 \<Rightarrow> u32 \<Rightarrow> bytes \<Rightarrow> bool result \<times> 'd"
  total_sector_count :: "'d \<Rightarrow> u64"

text \<open>The idiom of every caller: \<open>if !device.read_sectors(..) { return Err(InputOutputError) }\<close>.\<close>

definition device_read :: "'d block_device \<Rightarrow> 'd \<Rightarrow> u64 \<Rightarrow> u32 \<Rightarrow> bytes \<Rightarrow> bytes result" where
  "device_read D dev start_lba sector_count buffer =
     (case read_sectors D dev start_lba sector_count buffer of
        (done, filled) \<Rightarrow> bindR done (\<lambda>b. if b then Ok filled else Err InputOutputError))"

definition device_write :: "'d block_device \<Rightarrow> u64 \<Rightarrow> u32 \<Rightarrow> bytes \<Rightarrow> ('d, unit) sop" where
  "device_write D start_lba sector_count source =
     (\<lambda>dev. case write_sectors D dev start_lba sector_count source of
        (done, dev') \<Rightarrow> (bindR done (\<lambda>b. if b then Ok () else Err InputOutputError), dev'))"

section \<open>Blocks\<close>

definition BAFS_DEFAULT_BLOCK_SIZE_BYTES :: u32 where
  "BAFS_DEFAULT_BLOCK_SIZE_BYTES = 4096"

definition BAFS_SECTOR_SIZE_BYTES :: u32 where
  "BAFS_SECTOR_SIZE_BYTES = 512"

definition BAFS_SECTORS_PER_BLOCK :: u32 where
  "BAFS_SECTORS_PER_BLOCK = BAFS_DEFAULT_BLOCK_SIZE_BYTES div BAFS_SECTOR_SIZE_BYTES"

definition block_size :: nat where
  "block_size = unat BAFS_DEFAULT_BLOCK_SIZE_BYTES"

lemma block_size [simp]: "block_size = 4096"
  by (simp add: block_size_def BAFS_DEFAULT_BLOCK_SIZE_BYTES_def)

lemma sectors_per_block [simp]: "BAFS_SECTORS_PER_BLOCK = 8"
  by (simp add: BAFS_SECTORS_PER_BLOCK_def BAFS_DEFAULT_BLOCK_SIZE_BYTES_def
      BAFS_SECTOR_SIZE_BYTES_def)

text \<open>Reading or writing the eight sectors of one block; \<open>block_address * 8\<close> is checked.\<close>

definition read_device_block :: "'d block_device \<Rightarrow> 'd \<Rightarrow> u64 \<Rightarrow> bytes result" where
  "read_device_block D dev block_address =
     bindR (mul_u block_address (ucast BAFS_SECTORS_PER_BLOCK)) (\<lambda>start_lba.
     device_read D dev start_lba BAFS_SECTORS_PER_BLOCK (replicate block_size 0))"

definition write_device_block :: "'d block_device \<Rightarrow> u64 \<Rightarrow> bytes \<Rightarrow> ('d, unit) sop" where
  "write_device_block D block_address block_data =
     bindS (liftS (mul_u block_address (ucast BAFS_SECTORS_PER_BLOCK))) (\<lambda>start_lba.
     device_write D start_lba BAFS_SECTORS_PER_BLOCK block_data)"

text \<open>The block at an address of a disk image, and the image after a block write.\<close>

definition image_block :: "bytes \<Rightarrow> u64 \<Rightarrow> bytes" where
  "image_block img a = slice (4096 * unat a) (4096 * unat a + 4096) img"

definition set_image_block :: "bytes \<Rightarrow> u64 \<Rightarrow> bytes \<Rightarrow> bytes" where
  "set_image_block img a data = write_slice img (4096 * unat a) data"

definition block_in_image :: "bytes \<Rightarrow> u64 \<Rightarrow> bool" where
  "block_in_image img a \<longleftrightarrow> 4096 * unat a + 4096 \<le> length img"

lemma length_set_image_block [simp]:
  "block_in_image img a \<Longrightarrow> length data = 4096 \<Longrightarrow> length (set_image_block img a data) = length img"
  by (simp add: set_image_block_def block_in_image_def)

lemma block_in_set_image_block [simp]:
  "block_in_image img a \<Longrightarrow> length data = 4096 \<Longrightarrow>
   block_in_image (set_image_block img a data) b = block_in_image img b"
  by (simp add: block_in_image_def set_image_block_def)

lemma image_block_set [simp]:
  assumes "block_in_image img a" "length data = 4096"
  shows "image_block (set_image_block img a data) b = (if b = a then data else image_block img b)"
proof (cases "b = a")
  case True
  with assms show ?thesis
    by (simp add: image_block_def set_image_block_def block_in_image_def slice_simps)
next
  case False
  then have "unat b \<noteq> unat a" by (simp add: word_unat_eq_iff)
  then have "4096 * unat b + 4096 \<le> 4096 * unat a \<or> 4096 * unat a + 4096 \<le> 4096 * unat b"
    by linarith
  with assms False show ?thesis
    by (simp add: image_block_def set_image_block_def block_in_image_def slice_simps)
qed

lemma length_image_block [simp]: "block_in_image img a \<Longrightarrow> length (image_block img a) = 4096"
  by (simp add: image_block_def block_in_image_def)

section \<open>The contract\<close>

text \<open>A device in a \<open>valid\<close> state shows an image of its bytes. A read inside the image returns
  the image's bytes; a write inside the image either happens completely or, when the method
  reports an error, not at all. What a device does outside its image is not promised.\<close>

locale block_store =
  fixes D :: "'d block_device"
    and valid :: "'d \<Rightarrow> bool"
    and image :: "'d \<Rightarrow> bytes"
  assumes read_in_range:
    "valid d \<Longrightarrow> 512 * unat lba + 512 * unat n \<le> length (image d) \<Longrightarrow> length buf = 512 * unat n \<Longrightarrow>
     read_sectors D d lba n buf
       = (Ok True, slice (512 * unat lba) (512 * unat lba + 512 * unat n) (image d))"
    and write_in_range:
    "valid d \<Longrightarrow> 512 * unat lba + 512 * unat n \<le> length (image d) \<Longrightarrow> length src = 512 * unat n \<Longrightarrow>
     \<exists>ok d'. write_sectors D d lba n src = (Ok ok, d') \<and> valid d' \<and>
       image d' = (if ok then write_slice (image d) (512 * unat lba) src else image d) \<and>
       total_sector_count D d' = total_sector_count D d"
    and image_size: "valid d \<Longrightarrow> length (image d) = 512 * unat (total_sector_count D d)"
begin

lemma block_in_image_lba:
  assumes "valid d" "block_in_image (image d) a"
  shows "mul_u a 8 = Ok (a * 8)" "unat (a * 8) = 8 * unat a"
proof -
  have "unat (total_sector_count D d) < 2 ^ 64"
    using unat_bound [of "total_sector_count D d"] by simp
  with assms have "unat a * 8 < 2 ^ 64"
    using image_size [of d] by (simp add: block_in_image_def)
  then show "mul_u a 8 = Ok (a * 8)" "unat (a * 8) = 8 * unat a"
    by (simp_all add: mul_u_def unat_word_ariths)
qed

lemma read_device_block_image:
  assumes "valid d" "block_in_image (image d) a"
  shows "read_device_block D d a = Ok (image_block (image d) a)"
  using assms block_in_image_lba [OF assms] read_in_range [of d "a * 8" 8 "replicate 4096 0"]
  by (simp add: read_device_block_def device_read_def image_block_def block_in_image_def)

lemma write_device_block_image:
  assumes "valid d" "block_in_image (image d) a" "length data = 4096"
  shows "\<exists>r d'. write_device_block D a data d = (r, d') \<and> valid d' \<and>
    (r = Ok () \<and> image d' = set_image_block (image d) a data \<or>
     r = Err InputOutputError \<and> image d' = image d) \<and>
    total_sector_count D d' = total_sector_count D d"
  using assms block_in_image_lba [OF assms(1,2)] write_in_range [of d "a * 8" 8 data]
  by (auto simp: write_device_block_def device_write_def set_image_block_def block_in_image_def)

end

locale reliable_store = block_store +
  assumes write_succeeds:
    "valid d \<Longrightarrow> 512 * unat lba + 512 * unat n \<le> length (image d) \<Longrightarrow> length src = 512 * unat n \<Longrightarrow>
     fst (write_sectors D d lba n src) = Ok True"
begin

lemma write_device_block_done:
  assumes "valid d" "block_in_image (image d) a" "length data = 4096"
  shows "\<exists>d'. write_device_block D a data d = (Ok (), d') \<and> valid d' \<and>
    image d' = set_image_block (image d) a data \<and>
    total_sector_count D d' = total_sector_count D d"
  using assms block_in_image_lba [OF assms(1,2)] write_in_range [of d "a * 8" 8 data]
    write_succeeds [of d "a * 8" 8 data]
  by (auto simp: write_device_block_def device_write_def set_image_block_def block_in_image_def)

end

section \<open>The devices of the repository\<close>

subsection \<open>The file-backed device of bafs-tools\<close>

text \<open>The open file is its bytes; \<open>read_at\<close> and \<open>write_at\<close> are the positioned reads and writes
  of a regular file: a read stops at the end of the file, a write past the end extends the file
  with zeros. The host's storage is a parameter: for a transfer of some bytes at some offset it
  says how many of them at most it carries out, and \<open>None\<close> is an \<open>io::Error\<close> that leaves
  the file and the buffer alone. A host whose transfers are all complete is \<open>sound_host\<close>.\<close>

record host_io =
  io_read_at :: "nat \<Rightarrow> nat \<Rightarrow> nat option"
  io_write_at :: "nat \<Rightarrow> nat \<Rightarrow> nat option"

definition sound_host :: host_io where
  "sound_host = \<lparr>io_read_at = (\<lambda>off len. Some len), io_write_at = (\<lambda>off len. Some len)\<rparr>"

record file_block_device =
  fbd_file :: bytes
  fbd_total_sector_count :: u64
  fbd_io :: host_io

definition SECTOR_SIZE_BYTES :: nat where
  "SECTOR_SIZE_BYTES = 512"

definition file_read_at :: "bytes \<Rightarrow> nat \<Rightarrow> nat \<Rightarrow> bytes" where
  "file_read_at file len off = slice off (off + len) file"

definition file_write_at :: "bytes \<Rightarrow> bytes \<Rightarrow> nat \<Rightarrow> bytes" where
  "file_write_at file data off =
     (if data = [] then file
      else take off file @ replicate (off - length file) 0 @ data @ drop (off + length data) file)"

text \<open>\<open>FileBlockDevice::open\<close> on the bytes of the file, if there is one; \<open>None\<close> is an
  \<open>io::Error\<close>.\<close>

definition fbd_open :: "host_io \<Rightarrow> bytes option \<Rightarrow> file_block_device option" where
  "fbd_open io contents =
     (case contents of
        None \<Rightarrow> None
      | Some file \<Rightarrow>
          let file_size_in_bytes = length file in
          if file_size_in_bytes mod SECTOR_SIZE_BYTES \<noteq> 0 then None
          else Some \<lparr>fbd_file = file,
                 fbd_total_sector_count = word_of_nat (file_size_in_bytes div SECTOR_SIZE_BYTES),
                 fbd_io = io\<rparr>)"

definition fbd_read_sectors ::
  "file_block_device \<Rightarrow> u64 \<Rightarrow> u32 \<Rightarrow> bytes \<Rightarrow> bool result \<times> bytes" where
  "fbd_read_sectors dev start_lba sector_count destination_buffer =
     (case mul_u start_lba (word_of_nat SECTOR_SIZE_BYTES) of
        Ok byte_offset \<Rightarrow>
          let byte_count = unat sector_count * SECTOR_SIZE_BYTES in
          if length destination_buffer < byte_count then (Panic, destination_buffer)
          else
            (case io_read_at (fbd_io dev) (unat byte_offset) byte_count of
               None \<Rightarrow> (Ok False, destination_buffer)
             | Some n \<Rightarrow>
                 let data = file_read_at (fbd_file dev) (min n byte_count) (unat byte_offset) in
                 (Ok (length data = byte_count), data @ drop (length data) destination_buffer))
      | _ \<Rightarrow> (Panic, destination_buffer))"

definition fbd_write_sectors ::
  "file_block_device \<Rightarrow> u64 \<Rightarrow> u32 \<Rightarrow> bytes \<Rightarrow> bool result \<times> file_block_device" where
  "fbd_write_sectors dev start_lba sector_count source_buffer =
     (case mul_u start_lba (word_of_nat SECTOR_SIZE_BYTES) of
        Ok byte_offset \<Rightarrow>
          let byte_count = unat sector_count * SECTOR_SIZE_BYTES in
          if length source_buffer < byte_count then (Panic, dev)
          else
            (case io_write_at (fbd_io dev) (unat byte_offset) byte_count of
               None \<Rightarrow> (Ok False, dev)
             | Some n \<Rightarrow>
                 let data = take (min n byte_count) source_buffer in
                 (Ok (length data = byte_count),
                  dev\<lparr>fbd_file := file_write_at (fbd_file dev) data (unat byte_offset)\<rparr>))
      | _ \<Rightarrow> (Panic, dev))"

definition file_device :: "file_block_device block_device" where
  "file_device = \<lparr>read_sectors = fbd_read_sectors, write_sectors = fbd_write_sectors,
     total_sector_count = fbd_total_sector_count\<rparr>"

definition fbd_valid :: "file_block_device \<Rightarrow> bool" where
  "fbd_valid d \<longleftrightarrow> length (fbd_file d) = 512 * unat (fbd_total_sector_count d) \<and>
     length (fbd_file d) < 2 ^ 64 \<and> fbd_io d = sound_host"

subsection \<open>The in-memory disks of the tests\<close>

record memory_disk =
  disk_data :: bytes
  disk_total_sectors :: u64

definition memory_disk_new :: "nat \<Rightarrow> memory_disk" where
  "memory_disk_new size_bytes =
     \<lparr>disk_data = replicate size_bytes 0,
      disk_total_sectors = word_of_nat size_bytes div word_of_nat SECTOR_SIZE_BYTES\<rparr>"

definition memory_disk_new_blocks :: "nat \<Rightarrow> memory_disk" where
  "memory_disk_new_blocks block_count = memory_disk_new (block_count * 4096)"

definition md_read_sectors :: "memory_disk \<Rightarrow> u64 \<Rightarrow> u32 \<Rightarrow> bytes \<Rightarrow> bool result \<times> bytes" where
  "md_read_sectors d start_lba sector_count dest =
     (case mul_u start_lba (word_of_nat SECTOR_SIZE_BYTES) of
        Ok start_byte \<Rightarrow>
          let byte_count = unat sector_count * SECTOR_SIZE_BYTES in
          if 2 ^ 64 \<le> unat start_byte + byte_count then (Panic, dest)
          else if length (disk_data d) < unat start_byte + byte_count then (Ok False, dest)
          else if length dest < byte_count then (Panic, dest)
          else (Ok True, write_slice dest 0
                  (slice (unat start_byte) (unat start_byte + byte_count) (disk_data d)))
      | _ \<Rightarrow> (Panic, dest))"

definition md_write_sectors :: "memory_disk \<Rightarrow> u64 \<Rightarrow> u32 \<Rightarrow> bytes \<Rightarrow> bool result \<times> memory_disk" where
  "md_write_sectors d start_lba sector_count src =
     (case mul_u start_lba (word_of_nat SECTOR_SIZE_BYTES) of
        Ok start_byte \<Rightarrow>
          let byte_count = unat sector_count * SECTOR_SIZE_BYTES in
          if 2 ^ 64 \<le> unat start_byte + byte_count then (Panic, d)
          else if length (disk_data d) < unat start_byte + byte_count then (Ok False, d)
          else if length src < byte_count then (Panic, d)
          else (Ok True, d\<lparr>disk_data :=
                  write_slice (disk_data d) (unat start_byte) (take byte_count src)\<rparr>)
      | _ \<Rightarrow> (Panic, d))"

definition memory_device :: "memory_disk block_device" where
  "memory_device = \<lparr>read_sectors = md_read_sectors, write_sectors = md_write_sectors,
     total_sector_count = disk_total_sectors\<rparr>"

definition md_valid :: "memory_disk \<Rightarrow> bool" where
  "md_valid d \<longleftrightarrow> length (disk_data d) = 512 * unat (disk_total_sectors d) \<and>
     length (disk_data d) < 2 ^ 64"

record fault_injection_disk =
  fid_inner :: memory_disk
  fid_countdown :: "u32 option"

definition fault_injection_disk_new :: "memory_disk \<Rightarrow> u32 \<Rightarrow> fault_injection_disk" where
  "fault_injection_disk_new inner fail_after =
     \<lparr>fid_inner = inner, fid_countdown = Some (saturating_sub fail_after 1)\<rparr>"

definition fid_read_sectors ::
  "fault_injection_disk \<Rightarrow> u64 \<Rightarrow> u32 \<Rightarrow> bytes \<Rightarrow> bool result \<times> bytes" where
  "fid_read_sectors d start_lba sector_count dest =
     md_read_sectors (fid_inner d) start_lba sector_count dest"

definition fid_write_sectors ::
  "fault_injection_disk \<Rightarrow> u64 \<Rightarrow> u32 \<Rightarrow> bytes \<Rightarrow> bool result \<times> fault_injection_disk" where
  "fid_write_sectors d start_lba sector_count src =
     (case fid_countdown d of
        None \<Rightarrow>
          (case md_write_sectors (fid_inner d) start_lba sector_count src of
             (r, inner) \<Rightarrow> (r, d\<lparr>fid_inner := inner\<rparr>))
      | Some n \<Rightarrow>
          if n = 0 then (Ok False, d)
          else
            (case md_write_sectors (fid_inner d) start_lba sector_count src of
               (r, inner) \<Rightarrow> (r, d\<lparr>fid_inner := inner, fid_countdown := Some (n - 1)\<rparr>)))"

definition fault_device :: "fault_injection_disk block_device" where
  "fault_device = \<lparr>read_sectors = fid_read_sectors, write_sectors = fid_write_sectors,
     total_sector_count = (\<lambda>d. disk_total_sectors (fid_inner d))\<rparr>"

subsection \<open>They meet the contract\<close>

lemma lba_byte_offset:
  fixes lba :: u64
  assumes "512 * unat lba \<le> n" "n < 2 ^ 64"
  shows "mul_u lba (word_of_nat SECTOR_SIZE_BYTES) = Ok (lba * 512)" "unat (lba * 512) = 512 * unat lba"
  using assms by (simp_all add: mul_u_def SECTOR_SIZE_BYTES_def unat_word_ariths)

lemma file_write_at_inside:
  "off + length data \<le> length file \<Longrightarrow> file_write_at file data off = write_slice file off data"
  by (simp add: file_write_at_def write_slice_def)

lemma fbd_read_in_range:
  assumes "fbd_valid d" "512 * unat lba + 512 * unat n \<le> length (fbd_file d)"
    "length buf = 512 * unat n"
  shows "fbd_read_sectors d lba n buf
    = (Ok True, slice (512 * unat lba) (512 * unat lba + 512 * unat n) (fbd_file d))"
  using assms lba_byte_offset [of lba "length (fbd_file d)"]
  by (simp add: fbd_valid_def fbd_read_sectors_def file_read_at_def SECTOR_SIZE_BYTES_def
      sound_host_def mult.commute)

lemma fbd_write_in_range:
  assumes "fbd_valid d" "512 * unat lba + 512 * unat n \<le> length (fbd_file d)"
    "length src = 512 * unat n"
  shows "fbd_write_sectors d lba n src
    = (Ok True, d\<lparr>fbd_file := write_slice (fbd_file d) (512 * unat lba) src\<rparr>)"
  using assms lba_byte_offset [of lba "length (fbd_file d)"]
  by (simp add: fbd_valid_def fbd_write_sectors_def file_write_at_inside SECTOR_SIZE_BYTES_def
      sound_host_def mult.commute)

lemma fbd_valid_write:
  "fbd_valid d \<Longrightarrow> off + length src \<le> length (fbd_file d) \<Longrightarrow>
   fbd_valid (d\<lparr>fbd_file := write_slice (fbd_file d) off src\<rparr>)"
  by (simp add: fbd_valid_def)

lemma fbd_size: "fbd_valid d \<Longrightarrow> length (fbd_file d) = 512 * unat (fbd_total_sector_count d)"
  by (simp add: fbd_valid_def)

interpretation file_store: reliable_store file_device fbd_valid fbd_file
  by (unfold_locales, simp_all add: file_device_def fbd_read_in_range fbd_write_in_range
      fbd_valid_write fbd_size) blast

lemma md_read_in_range:
  assumes "md_valid d" "512 * unat lba + 512 * unat n \<le> length (disk_data d)"
    "length buf = 512 * unat n"
  shows "md_read_sectors d lba n buf
    = (Ok True, slice (512 * unat lba) (512 * unat lba + 512 * unat n) (disk_data d))"
  using assms lba_byte_offset [of lba "length (disk_data d)"]
  by (simp add: md_valid_def md_read_sectors_def SECTOR_SIZE_BYTES_def mult.commute
      write_slice_def)

lemma md_write_in_range:
  assumes "md_valid d" "512 * unat lba + 512 * unat n \<le> length (disk_data d)"
    "length src = 512 * unat n"
  shows "md_write_sectors d lba n src
    = (Ok True, d\<lparr>disk_data := write_slice (disk_data d) (512 * unat lba) src\<rparr>)"
  using assms lba_byte_offset [of lba "length (disk_data d)"]
  by (simp add: md_valid_def md_write_sectors_def SECTOR_SIZE_BYTES_def mult.commute)

lemma md_valid_write:
  "md_valid d \<Longrightarrow> off + length src \<le> length (disk_data d) \<Longrightarrow>
   md_valid (d\<lparr>disk_data := write_slice (disk_data d) off src\<rparr>)"
  by (simp add: md_valid_def)

lemma md_size: "md_valid d \<Longrightarrow> length (disk_data d) = 512 * unat (disk_total_sectors d)"
  by (simp add: md_valid_def)

interpretation memory_store: reliable_store memory_device md_valid disk_data
  by (unfold_locales, simp_all add: memory_device_def md_read_in_range md_write_in_range
      md_valid_write md_size) blast

lemma fid_write_in_range:
  assumes "md_valid (fid_inner d)" "512 * unat lba + 512 * unat n \<le> length (disk_data (fid_inner d))"
    "length src = 512 * unat n"
  shows "\<exists>ok d'. fid_write_sectors d lba n src = (Ok ok, d') \<and> md_valid (fid_inner d') \<and>
    disk_data (fid_inner d') =
      (if ok then write_slice (disk_data (fid_inner d)) (512 * unat lba) src
       else disk_data (fid_inner d)) \<and>
    disk_total_sectors (fid_inner d') = disk_total_sectors (fid_inner d)"
  using assms md_write_in_range [OF assms]
  by (cases "fid_countdown d") (auto simp: fid_write_sectors_def md_valid_write)

interpretation fault_store: block_store fault_device "\<lambda>d. md_valid (fid_inner d)"
    "\<lambda>d. disk_data (fid_inner d)"
proof unfold_locales
  fix d :: fault_injection_disk and lba :: u64 and n :: u32 and buf :: bytes
  assume "md_valid (fid_inner d)" "512 * unat lba + 512 * unat n \<le> length (disk_data (fid_inner d))"
    "length buf = 512 * unat n"
  then show "read_sectors fault_device d lba n buf = (Ok True,
      slice (512 * unat lba) (512 * unat lba + 512 * unat n) (disk_data (fid_inner d)))"
    by (simp add: fault_device_def fid_read_sectors_def md_read_in_range)
qed (simp_all add: fault_device_def fid_write_in_range md_size)

text \<open>A read-back law of the file-backed device. On a host that completes its transfers and an
  image file whose size is a multiple of the sector size, a block written inside the file is read back unchanged, and every other block
  reads as before.\<close>

theorem file_device_read_after_write:
  assumes "fbd_open sound_host (Some file) = Some d" "length file < 2 ^ 64"
    and "block_in_image file a" "block_in_image file b" "length data = 4096"
  shows "\<exists>d'. write_device_block file_device a data d = (Ok (), d') \<and>
    read_device_block file_device d' b
      = (if b = a then Ok data else read_device_block file_device d b)"
proof -
  have "unat (word_of_nat (length file div 512) :: u64) = length file div 512"
    using assms(2) by (simp add: unat_of_nat)
  with assms(1,2) have d: "fbd_valid d" "fbd_file d = file"
    by (auto simp: fbd_open_def fbd_valid_def SECTOR_SIZE_BYTES_def Let_def split: if_splits)
  then obtain d' where w: "write_device_block file_device a data d = (Ok (), d')" "fbd_valid d'"
    "fbd_file d' = set_image_block file a data"
    using file_store.write_device_block_done [of d a data] assms by auto
  then have "read_device_block file_device d' b = Ok (image_block (fbd_file d') b)"
    using file_store.read_device_block_image [of d' b] assms by simp
  then show ?thesis
    using w d assms file_store.read_device_block_image [of d b] by auto
qed

theorem file_device_read_after_write_witness:
  "\<exists>d'. write_device_block file_device 1 (replicate 4096 7)
      \<lparr>fbd_file = replicate 8192 0, fbd_total_sector_count = 16,
        fbd_io = sound_host\<rparr> = (Ok (), d') \<and>
    read_device_block file_device d' 1 = Ok (replicate 4096 7)"
proof -
  have "fbd_open sound_host (Some (replicate 8192 0))
      = Some \<lparr>fbd_file = replicate 8192 0, fbd_total_sector_count = 16,
        fbd_io = sound_host\<rparr>"
    by (simp add: fbd_open_def SECTOR_SIZE_BYTES_def)
  from file_device_read_after_write [OF this, of 1 1 "replicate 4096 7"] show ?thesis
    by (simp add: block_in_image_def)
qed

end
