(* ===== verification/Checksum.thy ===== *)
theory Checksum
  imports Bafs_Prelude
begin

unbundle bit_operations_syntax

text \<open>
  \<open>checksum.rs\<close>: the table-driven CRC32C.

  The operations are the source's: the table built at compile time, the byte loop, and the two
  wrappers. The lemmas show that the byte loop computes the bit-serial CRC of the reversed
  Castagnoli polynomial, and what the filesystem relies on it for: a change confined to four
  adjacent bytes of a buffer of any length always changes the checksum.
\<close>

section \<open>The code\<close>

definition CASTAGNOLI_POLYNOMIAL_REVERSED :: u32 where
  "CASTAGNOLI_POLYNOMIAL_REVERSED = 0x82F63B78"

text \<open>The body of the inner loop of \<open>build_crc32c_lookup_table\<close>: one bit.\<close>

definition crc32c_bit_step :: "u32 \<Rightarrow> u32" where
  "crc32c_bit_step remainder =
     (if remainder AND 1 \<noteq> 0
      then drop_bit 1 remainder XOR CASTAGNOLI_POLYNOMIAL_REVERSED
      else drop_bit 1 remainder)"

function crc32c_bit_loop :: "nat \<Rightarrow> u32 \<Rightarrow> u32" where
  "crc32c_bit_loop bits remainder =
     (if bits < 8 then crc32c_bit_loop (bits + 1) (crc32c_bit_step remainder) else remainder)"
  by pat_completeness auto
termination
  by (relation "measure (\<lambda>(bits, remainder). 8 - bits)") auto

declare crc32c_bit_loop.simps [simp del]

definition build_crc32c_lookup_table :: "u32 list" where
  "build_crc32c_lookup_table = map (\<lambda>index. crc32c_bit_loop 0 (word_of_nat index)) [0..<256]"

definition CRC32C_LOOKUP_TABLE :: "u32 list" where
  "CRC32C_LOOKUP_TABLE = build_crc32c_lookup_table"

text \<open>One iteration of the byte loop of \<open>compute_crc32c\<close>; the table index is masked with
  \<open>0xFF\<close>, so the access is always in range.\<close>

definition crc32c_byte_step :: "u32 \<Rightarrow> u8 \<Rightarrow> u32" where
  "crc32c_byte_step accumulator byte =
     drop_bit 8 accumulator XOR
     CRC32C_LOOKUP_TABLE ! unat ((accumulator XOR ucast byte) AND 0xFF)"

definition compute_crc32c :: "bytes \<Rightarrow> u32" where
  "compute_crc32c data = foldl crc32c_byte_step 0xFFFFFFFF data XOR 0xFFFFFFFF"

definition verify_crc32c :: "bytes \<Rightarrow> u32 \<Rightarrow> bool" where
  "verify_crc32c data expected_checksum \<longleftrightarrow> compute_crc32c data = expected_checksum"

definition write_checksum_into_buffer_header :: "bytes \<Rightarrow> bytes \<Rightarrow> bytes result" where
  "write_checksum_into_buffer_header data_after_header destination_buffer =
     bindR (assertR (4 \<le> length destination_buffer)) (\<lambda>_.
     let checksum = compute_crc32c data_after_header in
     Ok (write_slice destination_buffer 0 (to_le checksum)))"

section \<open>The bit-serial reference\<close>

text \<open>The CRC as a shift register: a byte is added to the low end, then eight single-bit steps.\<close>

definition crc32c_serial_step :: "u32 \<Rightarrow> u8 \<Rightarrow> u32" where
  "crc32c_serial_step accumulator byte = (crc32c_bit_step ^^ 8) (accumulator XOR ucast byte)"

definition crc32c_serial :: "bytes \<Rightarrow> u32" where
  "crc32c_serial data = foldl crc32c_serial_step 0xFFFFFFFF data XOR 0xFFFFFFFF"

lemma xor_right_cancel: "a XOR c = b XOR c \<longleftrightarrow> a = b" for a b c :: u32
proof
  assume "a XOR c = b XOR c"
  then have "(a XOR c) XOR c = (b XOR c) XOR c" by simp
  then show "a = b" by (simp add: xor.assoc)
qed simp

lemma xor_left_cancel: "c XOR a = c XOR b \<longleftrightarrow> a = b" for a b c :: u32
  using xor_right_cancel [of a c b] unfolding xor.commute [of _ c] .

lemma bit_step_alt:
  "crc32c_bit_step x =
     drop_bit 1 x XOR (if bit x 0 then CASTAGNOLI_POLYNOMIAL_REVERSED else 0)"
  by (auto simp: crc32c_bit_step_def and_one_eq bit_0 odd_iff_mod_2_eq_one)

lemma bit_step_xor: "crc32c_bit_step (x XOR y) = crc32c_bit_step x XOR crc32c_bit_step y"
  by (rule bit_eqI) (auto simp: bit_step_alt bit_simps)

lemma bit_step_funpow_xor:
  "(crc32c_bit_step ^^ n) (x XOR y) = (crc32c_bit_step ^^ n) x XOR (crc32c_bit_step ^^ n) y"
  by (induction n) (simp_all add: bit_step_xor)

lemma bit_step_top: "bit (crc32c_bit_step x) 31 \<longleftrightarrow> bit x 0"
proof -
  have "bit CASTAGNOLI_POLYNOMIAL_REVERSED 31"
    by (simp add: CASTAGNOLI_POLYNOMIAL_REVERSED_def)
  then show ?thesis
    by (auto simp: bit_step_alt bit_simps dest: bit_imp_le_length)
qed

lemma bit_step_inj: "crc32c_bit_step x = crc32c_bit_step y \<Longrightarrow> x = y"
proof -
  assume eq: "crc32c_bit_step x = crc32c_bit_step y"
  then have low: "bit x 0 \<longleftrightarrow> bit y 0"
    using bit_step_top [of x] bit_step_top [of y] by simp
  with eq have "drop_bit 1 x = drop_bit 1 y"
    by (auto simp: bit_step_alt xor_right_cancel)
  then have "bit (drop_bit 1 x) n = bit (drop_bit 1 y) n" for n
    by simp
  then have "bit x (Suc n) = bit y (Suc n)" for n
    unfolding bit_drop_bit_eq by simp
  with low have "bit x n = bit y n" for n
    by (cases n) auto
  then show "x = y" by (simp add: bit_eq_iff)
qed

lemma bit_step_funpow_inj: "(crc32c_bit_step ^^ n) x = (crc32c_bit_step ^^ n) y \<Longrightarrow> x = y"
  by (induction n) (auto dest: bit_step_inj)

lemma bit_step_push: "crc32c_bit_step (push_bit 1 x) = x" if "\<not> bit x 31"
proof -
  have low: "\<not> bit (push_bit 1 x) 0"
    unfolding bit_push_bit_iff by simp
  have "bit (drop_bit 1 (push_bit 1 x)) n \<longleftrightarrow> bit x n" if "n < 32" for n
    using that \<open>\<not> bit x 31\<close> unfolding bit_drop_bit_eq bit_push_bit_iff o_def
    by (cases "n = 31") auto
  then have "drop_bit 1 (push_bit 1 x) = x"
    by (auto intro: bit_eqI)
  with low show ?thesis
    unfolding bit_step_alt by simp
qed

lemma bit_step_funpow_push:
  "(\<And>i. 32 - n \<le> i \<Longrightarrow> i < 32 \<Longrightarrow> \<not> bit x i) \<Longrightarrow> n \<le> 32 \<Longrightarrow>
   (crc32c_bit_step ^^ n) (push_bit n x) = x"
proof (induction n)
  case (Suc n)
  have "(crc32c_bit_step ^^ Suc n) (push_bit (Suc n) x)
      = (crc32c_bit_step ^^ n) (crc32c_bit_step (push_bit 1 (push_bit n x)))"
    by (simp add: funpow_swap1)
  also have "\<dots> = (crc32c_bit_step ^^ n) (push_bit n x)"
    using Suc.prems by (subst bit_step_push) (auto simp: bit_simps)
  also have "\<dots> = x"
    using Suc by auto
  finally show ?case .
qed simp

text \<open>The low byte and the rest of the register pass through eight steps separately.\<close>

lemma bit_steps_split:
  "(crc32c_bit_step ^^ 8) x = drop_bit 8 x XOR (crc32c_bit_step ^^ 8) (x AND 0xFF)"
proof -
  have mask: "(0xFF :: u32) = mask 8" by (simp add: mask_eq_exp_minus_1)
  have "x = push_bit 8 (drop_bit 8 x) XOR (x AND 0xFF)"
    unfolding mask by (rule bit_eqI) (auto simp: bit_simps)
  then have "(crc32c_bit_step ^^ 8) x
      = (crc32c_bit_step ^^ 8) (push_bit 8 (drop_bit 8 x)) XOR (crc32c_bit_step ^^ 8) (x AND 0xFF)"
    by (metis bit_step_funpow_xor)
  also have "(crc32c_bit_step ^^ 8) (push_bit 8 (drop_bit 8 x)) = drop_bit 8 x"
    by (rule bit_step_funpow_push) (auto simp: bit_simps dest: bit_imp_le_length)
  finally show ?thesis .
qed

lemma bit_loop_funpow: "n \<le> 8 \<Longrightarrow> crc32c_bit_loop (8 - n) x = (crc32c_bit_step ^^ n) x"
proof (induction n arbitrary: x)
  case (Suc n)
  then have "8 - Suc n < 8" "8 - Suc n + 1 = 8 - n" by auto
  then show ?case
    using Suc by (subst crc32c_bit_loop.simps) (simp add: funpow_swap1)
qed (simp add: crc32c_bit_loop.simps)

lemma table_nth: "i < 256 \<Longrightarrow> CRC32C_LOOKUP_TABLE ! i = (crc32c_bit_step ^^ 8) (word_of_nat i)"
  using bit_loop_funpow [of 8] by (simp add: CRC32C_LOOKUP_TABLE_def build_crc32c_lookup_table_def)

lemma byte_index_bound: "unat ((x :: u32) AND 0xFF) < 256"
proof -
  have "x AND 0xFF \<le> 0xFF" by (rule word_and_le1)
  then show ?thesis by (simp add: word_le_nat_alt)
qed

lemma byte_step_serial: "crc32c_byte_step accumulator byte = crc32c_serial_step accumulator byte"
proof -
  have "drop_bit 8 (accumulator XOR ucast byte) = drop_bit 8 accumulator"
    by (rule bit_eqI) (auto simp: bit_simps dest: bit_imp_le_length)
  moreover have "CRC32C_LOOKUP_TABLE ! unat ((accumulator XOR ucast byte) AND 0xFF)
      = (crc32c_bit_step ^^ 8) ((accumulator XOR ucast byte) AND 0xFF)"
    using byte_index_bound by (simp add: table_nth)
  ultimately show ?thesis
    using bit_steps_split [of "accumulator XOR ucast byte"]
    by (simp add: crc32c_byte_step_def crc32c_serial_step_def)
qed

lemma crc32c_table_serial: "compute_crc32c data = crc32c_serial data"
proof -
  have "crc32c_byte_step = crc32c_serial_step"
    by (intro ext byte_step_serial)
  then show ?thesis
    by (simp add: compute_crc32c_def crc32c_serial_def)
qed

text \<open>C24: the table-driven loop of \<open>compute_crc32c\<close> computes, for every input, the CRC of the
  bit-serial shift register over the reversed Castagnoli polynomial.\<close>

theorem compute_crc32c_serial: "compute_crc32c data = crc32c_serial data"
  by (rule crc32c_table_serial)

section \<open>Error detection\<close>

lemma serial_step_inj: "crc32c_serial_step a b = crc32c_serial_step a' b \<Longrightarrow> a = a'"
  unfolding crc32c_serial_step_def
  by (drule bit_step_funpow_inj) (simp add: xor_right_cancel)

lemma serial_fold_inj:
  "foldl crc32c_serial_step a ys = foldl crc32c_serial_step b ys \<Longrightarrow> a = b"
  by (induction ys arbitrary: a b) (auto dest: serial_step_inj)

lemma le_word_Cons:
  "(word_of_nat (le_nat (b # bs)) :: u32) = ucast b XOR push_bit 8 (word_of_nat (le_nat bs))"
proof -
  have "(ucast b :: u32) AND push_bit 8 (word_of_nat (le_nat bs)) = 0"
    by (rule bit_eqI) (auto simp: bit_simps dest: bit_imp_le_length)
  then have "ucast b XOR push_bit 8 (word_of_nat (le_nat bs))
      = (ucast b :: u32) + push_bit 8 (word_of_nat (le_nat bs))"
    by (simp add: disjunctive_add_eq_xor)
  also have "\<dots> = word_of_nat (unat b + 256 * le_nat bs)"
    by (simp add: push_bit_eq_mult)
  finally show ?thesis by simp
qed

lemma le_word_low: "length bs \<le> 3 \<Longrightarrow> 24 \<le> i \<Longrightarrow> \<not> bit (word_of_nat (le_nat bs) :: u32) i"
proof
  assume len: "length bs \<le> 3" and i: "24 \<le> i" and bit: "bit (word_of_nat (le_nat bs) :: u32) i"
  have "le_nat bs < 256 ^ length bs" by (rule le_nat_bound)
  also have "\<dots> \<le> (256::nat) ^ 3" using len by (intro power_increasing) auto
  also have "\<dots> = 2 ^ 24" by simp
  also have "\<dots> \<le> 2 ^ i" using i by (intro power_increasing) auto
  finally have "\<not> bit (le_nat bs) i"
    by (simp add: bit_iff_odd)
  with bit show False
    by (simp add: bit_simps)
qed

text \<open>Up to four bytes enter the register like one little-endian word.\<close>

lemma serial_fold_word:
  "length bs \<le> 4 \<Longrightarrow>
   foldl crc32c_serial_step a bs
     = (crc32c_bit_step ^^ (8 * length bs)) (a XOR word_of_nat (le_nat bs))"
proof (induction bs arbitrary: a)
  case (Cons b bs)
  let ?w = "word_of_nat (le_nat bs) :: u32"
  have split_len: "8 * length (b # bs) = 8 * length bs + 8" by simp
  from Cons.prems have "length bs \<le> 3" by simp
  then have push: "(crc32c_bit_step ^^ 8) (push_bit 8 ?w) = ?w"
    by (intro bit_step_funpow_push) (auto simp: le_word_low)
  have "foldl crc32c_serial_step a (b # bs)
      = (crc32c_bit_step ^^ (8 * length bs)) ((crc32c_bit_step ^^ 8) (a XOR ucast b) XOR ?w)"
    using Cons.IH [of "crc32c_serial_step a b"] \<open>length bs \<le> 3\<close>
    by (simp add: crc32c_serial_step_def [of a])
  also have "(crc32c_bit_step ^^ 8) (a XOR ucast b) XOR ?w
      = (crc32c_bit_step ^^ 8) ((a XOR ucast b) XOR push_bit 8 ?w)"
    unfolding bit_step_funpow_xor push ..
  also have "(a XOR ucast b) XOR push_bit 8 ?w = a XOR word_of_nat (le_nat (b # bs))"
    unfolding le_word_Cons by (simp add: xor.assoc)
  also have "(crc32c_bit_step ^^ (8 * length bs)) ((crc32c_bit_step ^^ 8) (a XOR word_of_nat (le_nat (b # bs))))
      = (crc32c_bit_step ^^ (8 * length (b # bs))) (a XOR word_of_nat (le_nat (b # bs)))"
    unfolding split_len funpow_add o_apply ..
  finally show ?case .
qed simp

lemma le_word_inj:
  assumes "length xs = length ys" "length xs \<le> 4"
    and "(word_of_nat (le_nat xs) :: u32) = word_of_nat (le_nat ys)"
  shows "xs = ys"
proof -
  have small: "le_nat zs < 2 ^ 32" if "length zs \<le> 4" for zs
  proof -
    have "le_nat zs < 256 ^ length zs" by (rule le_nat_bound)
    also have "\<dots> \<le> (256::nat) ^ 4" using that by (intro power_increasing) auto
    finally show ?thesis by simp
  qed
  have "unat (word_of_nat (le_nat xs) :: u32) = unat (word_of_nat (le_nat ys) :: u32)"
    using assms(3) by simp
  then have "le_nat xs = le_nat ys"
    using small [of xs] small [of ys] assms(1,2) by (simp add: unat_of_nat)
  then show ?thesis
    using assms(1) by (metis le_bytes_le_nat)
qed

lemma crc32c_burst:
  assumes "verify_crc32c (pre @ burst @ post) c"
    and "length burst' = length burst" "length burst \<le> 4" "burst' \<noteq> burst"
  shows "\<not> verify_crc32c (pre @ burst' @ post) c"
proof
  assume "verify_crc32c (pre @ burst' @ post) c"
  with assms(1) have "crc32c_serial (pre @ burst @ post) = crc32c_serial (pre @ burst' @ post)"
    unfolding verify_crc32c_def crc32c_table_serial by simp
  then have "foldl crc32c_serial_step (foldl crc32c_serial_step 0xFFFFFFFF pre) burst
      = foldl crc32c_serial_step (foldl crc32c_serial_step 0xFFFFFFFF pre) burst'"
    unfolding crc32c_serial_def xor_right_cancel foldl_append by (rule serial_fold_inj)
  then have "(word_of_nat (le_nat burst) :: u32) = word_of_nat (le_nat burst')"
    using assms(2,3) by (auto simp: serial_fold_word xor_left_cancel dest!: bit_step_funpow_inj)
  with assms(2-4) show False
    using le_word_inj [of burst burst'] by simp
qed

text \<open>C25: corruption that stays within four adjacent bytes is always detected. If a buffer
  passes \<open>verify_crc32c\<close> and up to four adjacent bytes of it are replaced by other values, the
  result does not pass, whatever the length of the buffer and the place of the damage. A single
  flipped bit is the special case of one byte.\<close>

theorem verify_crc32c_detects_burst:
  assumes "verify_crc32c (pre @ burst @ post) c"
    and "length burst' = length burst" "length burst \<le> 4" "burst' \<noteq> burst"
  shows "\<not> verify_crc32c (pre @ burst' @ post) c"
  using assms by (rule crc32c_burst)

theorem verify_crc32c_detects_burst_witness:
  "\<not> verify_crc32c ([0x68, 0x65] @ [0x6D] @ [0x6C, 0x6F])
      (compute_crc32c ([0x68, 0x65] @ [0x6C] @ [0x6C, 0x6F]))"
  by (rule verify_crc32c_detects_burst [where burst = "[0x6C]"]) (simp_all add: verify_crc32c_def)

text \<open>The published check value: the CRC32C of the ASCII string \<open>123456789\<close>.\<close>

lemma bit_steps_8:
  "(crc32c_bit_step ^^ 8) x =
     crc32c_bit_step (crc32c_bit_step (crc32c_bit_step (crc32c_bit_step
       (crc32c_bit_step (crc32c_bit_step (crc32c_bit_step (crc32c_bit_step x)))))))"
  by (simp add: eval_nat_numeral)

lemma crc32c_check_value:
  "compute_crc32c [0x31, 0x32, 0x33, 0x34, 0x35, 0x36, 0x37, 0x38, 0x39] = 0xE3069283"
  unfolding crc32c_table_serial crc32c_serial_def
  by (simp add: crc32c_serial_step_def bit_steps_8 crc32c_bit_step_def
      CASTAGNOLI_POLYNOMIAL_REVERSED_def)

lemma crc32c_empty: "compute_crc32c [] = 0"
  by (simp add: compute_crc32c_def)

lemma verify_compute [simp]: "verify_crc32c data (compute_crc32c data)"
  by (simp add: verify_crc32c_def)

end
