(* ===== verification/Superblock.thy ===== *)
theory Superblock
  imports Block_Device Checksum
begin

text \<open>
  \<open>superblock.rs\<close>: the layout constants, the 512-byte superblock with its checksum, and its
  reads and writes. The struct is \<open>repr(C)\<close> without padding, so its bytes are the concatenation
  of its fields; multi-byte fields are little-endian, as on every supported target.

  The lemmas show that serialisation and parsing are inverse to each other, that a written
  superblock is read back from both copies, that the order of the two writes leaves a valid copy
  at every crash point, and that damage to a stored superblock is reported.
\<close>

section \<open>Constants and layout\<close>

definition BAFS_MAGIC_NUMBER :: bytes where
  "BAFS_MAGIC_NUMBER = [0x42, 0x41, 0x46, 0x53, 0x1B, 0, 0, 0]"

definition BAFS_SUPPORTED_VERSION :: u32 where
  "BAFS_SUPPORTED_VERSION = 1"

definition BAFS_PRIMARY_SUPERBLOCK_BLOCK_ADDRESS :: u64 where
  "BAFS_PRIMARY_SUPERBLOCK_BLOCK_ADDRESS = 1"

definition BAFS_BACKUP_SUPERBLOCK_BLOCK_ADDRESS :: u64 where
  "BAFS_BACKUP_SUPERBLOCK_BLOCK_ADDRESS = 2"

definition BAFS_JOURNAL_START_BLOCK_ADDRESS :: u64 where
  "BAFS_JOURNAL_START_BLOCK_ADDRESS = 3"

definition BAFS_JOURNAL_SIZE_MIN_BLOCKS :: u64 where
  "BAFS_JOURNAL_SIZE_MIN_BLOCKS = 256"

definition BAFS_JOURNAL_SIZE_MAX_BLOCKS :: u64 where
  "BAFS_JOURNAL_SIZE_MAX_BLOCKS = 16384"

definition BAFS_CHECKSUM_ALGORITHM_CRC32C :: u32 where
  "BAFS_CHECKSUM_ALGORITHM_CRC32C = 0"

definition BAFS_ROOT_INODE_NUMBER :: u64 where
  "BAFS_ROOT_INODE_NUMBER = 1"

definition BAFS_FREE_EXTENT_OBJECT_ID :: u64 where
  "BAFS_FREE_EXTENT_OBJECT_ID = 0xFFFFFFFFFFFFFFFE"

definition BAFS_CHECKSUM_OBJECT_ID :: u64 where
  "BAFS_CHECKSUM_OBJECT_ID = 0xFFFFFFFFFFFFFFFD"

definition compute_journal_size_in_blocks :: "u64 \<Rightarrow> u64" where
  "compute_journal_size_in_blocks total_block_count =
     (let one_percent_of_total = total_block_count div 100 in
      min (max one_percent_of_total BAFS_JOURNAL_SIZE_MIN_BLOCKS) BAFS_JOURNAL_SIZE_MAX_BLOCKS)"

text \<open>The sum below cannot overflow: the journal has at most 16384 blocks.\<close>

definition compute_data_area_start_block :: "u64 \<Rightarrow> u64" where
  "compute_data_area_start_block total_block_count =
     BAFS_JOURNAL_START_BLOCK_ADDRESS + compute_journal_size_in_blocks total_block_count"

section \<open>The superblock\<close>

record bafs_superblock =
  magic_number :: bytes
  version :: u32
  block_size_in_bytes :: u32
  total_block_count :: u64
  free_block_count :: u64
  allocated_inode_count :: u64
  last_committed_transaction_id :: u64
  root_inode_number :: u64
  inode_tree_root_block :: u64
  free_extent_tree_root_block :: u64
  checksum_tree_root_block :: u64
  journal_start_block :: u64
  journal_size_in_blocks :: u64
  volume_uuid :: "u64 \<times> u64"
  volume_label :: "u64 \<times> u64 \<times> u64 \<times> u64"
  feature_flags :: u32
  checksum_algorithm :: u32
  next_cow_block_address :: u64
  sb_reserved :: bytes
  superblock_checksum :: u32

text \<open>The array types of the struct: \<open>[u8; 8]\<close> and \<open>[u8; 348]\<close>.\<close>

definition wf_superblock :: "bafs_superblock \<Rightarrow> bool" where
  "wf_superblock sb \<longleftrightarrow> length (magic_number sb) = 8 \<and> length (sb_reserved sb) = 348"

text \<open>The raw bytes of the struct, without and with the final checksum field.\<close>

definition superblock_body_bytes :: "bafs_superblock \<Rightarrow> bytes" where
  "superblock_body_bytes sb =
     magic_number sb @ to_le (version sb) @ to_le (block_size_in_bytes sb)
     @ to_le (total_block_count sb) @ to_le (free_block_count sb)
     @ to_le (allocated_inode_count sb) @ to_le (last_committed_transaction_id sb)
     @ to_le (root_inode_number sb) @ to_le (inode_tree_root_block sb)
     @ to_le (free_extent_tree_root_block sb) @ to_le (checksum_tree_root_block sb)
     @ to_le (journal_start_block sb) @ to_le (journal_size_in_blocks sb)
     @ (case volume_uuid sb of (u0, u1) \<Rightarrow> to_le u0 @ to_le u1)
     @ (case volume_label sb of (l0, l1, l2, l3) \<Rightarrow> to_le l0 @ to_le l1 @ to_le l2 @ to_le l3)
     @ to_le (feature_flags sb) @ to_le (checksum_algorithm sb)
     @ to_le (next_cow_block_address sb) @ sb_reserved sb"

definition serialise_superblock_to_bytes :: "bafs_superblock \<Rightarrow> bytes" where
  "serialise_superblock_to_bytes sb = superblock_body_bytes sb @ to_le (superblock_checksum sb)"

definition deserialise_superblock_from_bytes :: "bytes \<Rightarrow> bafs_superblock" where
  "deserialise_superblock_from_bytes bs =
     \<lparr>magic_number = slice 0 8 bs,
      version = from_le (slice 8 12 bs),
      block_size_in_bytes = from_le (slice 12 16 bs),
      total_block_count = from_le (slice 16 24 bs),
      free_block_count = from_le (slice 24 32 bs),
      allocated_inode_count = from_le (slice 32 40 bs),
      last_committed_transaction_id = from_le (slice 40 48 bs),
      root_inode_number = from_le (slice 48 56 bs),
      inode_tree_root_block = from_le (slice 56 64 bs),
      free_extent_tree_root_block = from_le (slice 64 72 bs),
      checksum_tree_root_block = from_le (slice 72 80 bs),
      journal_start_block = from_le (slice 80 88 bs),
      journal_size_in_blocks = from_le (slice 88 96 bs),
      volume_uuid = (from_le (slice 96 104 bs), from_le (slice 104 112 bs)),
      volume_label = (from_le (slice 112 120 bs), from_le (slice 120 128 bs),
                      from_le (slice 128 136 bs), from_le (slice 136 144 bs)),
      feature_flags = from_le (slice 144 148 bs),
      checksum_algorithm = from_le (slice 148 152 bs),
      next_cow_block_address = from_le (slice 152 160 bs),
      sb_reserved = slice 160 508 bs,
      superblock_checksum = from_le (slice 508 512 bs)\<rparr>"

definition compute_checksum :: "bafs_superblock \<Rightarrow> u32" where
  "compute_checksum sb = compute_crc32c (take 508 (serialise_superblock_to_bytes sb))"

definition seal_with_checksum :: "bafs_superblock \<Rightarrow> bafs_superblock" where
  "seal_with_checksum sb = sb\<lparr>superblock_checksum := compute_checksum sb\<rparr>"

definition verify_checksum :: "bafs_superblock \<Rightarrow> bool" where
  "verify_checksum sb =
     verify_crc32c (take 508 (serialise_superblock_to_bytes sb)) (superblock_checksum sb)"

section \<open>Block device I/O\<close>

definition read_superblock_from_device :: "'d block_device \<Rightarrow> 'd \<Rightarrow> u64 \<Rightarrow> bafs_superblock result" where
  "read_superblock_from_device D dev block_address =
     bindR (read_device_block D dev block_address) (\<lambda>block_buffer.
     let superblock = deserialise_superblock_from_bytes (take 512 block_buffer) in
     if magic_number superblock \<noteq> BAFS_MAGIC_NUMBER then Err InvalidMagicNumber
     else if version superblock \<noteq> BAFS_SUPPORTED_VERSION
       then Err (UnsupportedVersion (version superblock))
     else if \<not> verify_checksum superblock then Err (InvalidChecksum block_address)
     else Ok superblock)"

text \<open>The closure \<open>write_at_block\<close>: the superblock, zero-filled to a block.\<close>

definition superblock_block :: "bytes \<Rightarrow> bytes" where
  "superblock_block serialised = write_slice (replicate block_size 0) 0 serialised"

text \<open>The state is the device and the superblock, both of which the function mutates.\<close>

definition on_device :: "('d, 'a) sop \<Rightarrow> ('d \<times> 'x, 'a) sop" where
  "on_device m = (\<lambda>(dev, x). case m dev of (r, dev') \<Rightarrow> (r, (dev', x)))"

definition write_superblock_to_device :: "'d block_device \<Rightarrow> ('d \<times> bafs_superblock, unit) sop" where
  "write_superblock_to_device D =
     bindS (modifyS (\<lambda>(dev, sb). (dev, seal_with_checksum sb))) (\<lambda>_.
     bindS (getS (\<lambda>(dev, sb). superblock_block (serialise_superblock_to_bytes sb))) (\<lambda>block_buffer.
     bindS (on_device (write_device_block D BAFS_BACKUP_SUPERBLOCK_BLOCK_ADDRESS block_buffer)) (\<lambda>_.
     on_device (write_device_block D BAFS_PRIMARY_SUPERBLOCK_BLOCK_ADDRESS block_buffer))))"

section \<open>Layout bounds\<close>

lemma journal_size_bounds:
  "256 \<le> compute_journal_size_in_blocks n" "compute_journal_size_in_blocks n \<le> 16384"
  by (simp_all add: compute_journal_size_in_blocks_def BAFS_JOURNAL_SIZE_MIN_BLOCKS_def
      BAFS_JOURNAL_SIZE_MAX_BLOCKS_def Let_def)

lemma unat_data_area_start:
  "unat (compute_data_area_start_block n) = 3 + unat (compute_journal_size_in_blocks n)"
  using journal_size_bounds [of n]
  by (simp add: compute_data_area_start_block_def BAFS_JOURNAL_START_BLOCK_ADDRESS_def
      unat_word_ariths word_le_nat_alt)

text \<open>On every device size the journal has between 256 and 16384 blocks, the data area
  starts right after it with no overflow, and the superblock copies, the journal and the data
  area do not overlap.\<close>

theorem layout_bounds:
  "256 \<le> unat (compute_journal_size_in_blocks n) \<and> unat (compute_journal_size_in_blocks n) \<le> 16384 \<and>
   unat (compute_data_area_start_block n)
     = unat BAFS_JOURNAL_START_BLOCK_ADDRESS + unat (compute_journal_size_in_blocks n) \<and>
   BAFS_PRIMARY_SUPERBLOCK_BLOCK_ADDRESS < BAFS_BACKUP_SUPERBLOCK_BLOCK_ADDRESS \<and>
   BAFS_BACKUP_SUPERBLOCK_BLOCK_ADDRESS < BAFS_JOURNAL_START_BLOCK_ADDRESS \<and>
   BAFS_JOURNAL_START_BLOCK_ADDRESS < compute_data_area_start_block n"
proof -
  have "BAFS_JOURNAL_START_BLOCK_ADDRESS < compute_data_area_start_block n"
    using journal_size_bounds(1) [of n] unat_data_area_start [of n]
    by (simp add: BAFS_JOURNAL_START_BLOCK_ADDRESS_def word_less_nat_alt word_le_nat_alt)
  then show ?thesis
    using journal_size_bounds [of n] unat_data_area_start [of n]
    by (simp add: BAFS_PRIMARY_SUPERBLOCK_BLOCK_ADDRESS_def BAFS_BACKUP_SUPERBLOCK_BLOCK_ADDRESS_def
        BAFS_JOURNAL_START_BLOCK_ADDRESS_def word_le_nat_alt)
qed

section \<open>Round trips\<close>

lemma length_superblock_body [simp]: "wf_superblock sb \<Longrightarrow> length (superblock_body_bytes sb) = 508"
  by (simp add: superblock_body_bytes_def wf_superblock_def split: prod.splits)

lemma length_serialise_superblock [simp]:
  "wf_superblock sb \<Longrightarrow> length (serialise_superblock_to_bytes sb) = 512"
  by (simp add: serialise_superblock_to_bytes_def)

lemma superblock_checksum_bytes:
  "wf_superblock sb \<Longrightarrow> take 508 (serialise_superblock_to_bytes sb) = superblock_body_bytes sb"
  by (simp add: serialise_superblock_to_bytes_def)

lemma superblock_body_checksum [simp]:
  "superblock_body_bytes (sb\<lparr>superblock_checksum := c\<rparr>) = superblock_body_bytes sb"
  by (simp add: superblock_body_bytes_def)

lemma wf_seal [simp]: "wf_superblock (seal_with_checksum sb) = wf_superblock sb"
  by (simp add: wf_superblock_def seal_with_checksum_def)

lemma verify_checksum_seal: "wf_superblock sb \<Longrightarrow> verify_checksum (seal_with_checksum sb)"
proof -
  assume wf: "wf_superblock sb"
  then have "wf_superblock (sb\<lparr>superblock_checksum := c\<rparr>)" for c
    by (simp add: wf_superblock_def)
  with wf show ?thesis
    by (simp add: verify_checksum_def superblock_checksum_bytes seal_with_checksum_def
        compute_checksum_def)
qed

lemma deserialise_serialise_superblock:
  assumes "wf_superblock sb"
  shows "deserialise_superblock_from_bytes (serialise_superblock_to_bytes sb) = sb"
  using assms
  by (cases sb)
    (auto simp: wf_superblock_def deserialise_superblock_from_bytes_def
      serialise_superblock_to_bytes_def superblock_body_bytes_def slice_simps)

lemma wf_deserialise_superblock:
  "512 \<le> length bs \<Longrightarrow> wf_superblock (deserialise_superblock_from_bytes bs)"
  by (simp add: wf_superblock_def deserialise_superblock_from_bytes_def)

lemma superblock_body_deserialise:
  assumes "512 \<le> length bs"
  shows "superblock_body_bytes (deserialise_superblock_from_bytes bs) = slice 0 508 bs"
  using assms
  by (simp add: superblock_body_bytes_def deserialise_superblock_from_bytes_def
      to_le_from_le_sized slice_join)

lemma serialise_deserialise_superblock:
  assumes "length bs = 512"
  shows "serialise_superblock_to_bytes (deserialise_superblock_from_bytes bs) = bs"
  using assms
  by (simp add: serialise_superblock_to_bytes_def superblock_body_deserialise)
    (simp add: deserialise_superblock_from_bytes_def to_le_from_le_sized slice_join slice_all)

text \<open>C23: serialising a superblock and parsing the 512 bytes gives the superblock back, and parsing
  512 bytes and serialising gives the same bytes: no field is lost, moved or overlapped.\<close>

theorem superblock_roundtrip:
  "(wf_superblock sb \<longrightarrow>
      length (serialise_superblock_to_bytes sb) = 512 \<and>
      deserialise_superblock_from_bytes (serialise_superblock_to_bytes sb) = sb) \<and>
   (length bs = 512 \<longrightarrow>
      wf_superblock (deserialise_superblock_from_bytes bs) \<and>
      serialise_superblock_to_bytes (deserialise_superblock_from_bytes bs) = bs)"
  by (simp add: deserialise_serialise_superblock serialise_deserialise_superblock
      wf_deserialise_superblock)

theorem superblock_roundtrip_witness:
  "length (replicate 512 0 :: bytes) = 512 \<and>
   wf_superblock (deserialise_superblock_from_bytes (replicate 512 0)) \<and>
   serialise_superblock_to_bytes (deserialise_superblock_from_bytes (replicate 512 0))
     = replicate 512 0"
  using superblock_roundtrip [of "deserialise_superblock_from_bytes (replicate 512 0)"
      "replicate 512 0"] by simp

section \<open>Reading, writing and damage\<close>

lemma length_superblock_block [simp]:
  "wf_superblock sb \<Longrightarrow> length (superblock_block (serialise_superblock_to_bytes sb)) = 4096"
  by (simp add: superblock_block_def)

lemma take_superblock_block:
  "wf_superblock sb \<Longrightarrow>
   take 512 (superblock_block (serialise_superblock_to_bytes sb)) = serialise_superblock_to_bytes sb"
  by (simp add: superblock_block_def write_slice_def)

text \<open>What a mount accepts.\<close>

definition acceptable_superblock :: "bafs_superblock \<Rightarrow> bool" where
  "acceptable_superblock sb \<longleftrightarrow> wf_superblock sb \<and>
     magic_number sb = BAFS_MAGIC_NUMBER \<and> version sb = BAFS_SUPPORTED_VERSION"

lemma acceptable_seal [simp]: "acceptable_superblock (seal_with_checksum sb) = acceptable_superblock sb"
  by (simp add: acceptable_superblock_def) (simp add: seal_with_checksum_def)

lemma verify_checksum_deserialise:
  assumes "length bs = 512"
  shows "verify_checksum (deserialise_superblock_from_bytes bs) \<longleftrightarrow>
    verify_crc32c (take 508 bs) (from_le (slice 508 512 bs))"
  using assms by (simp add: verify_checksum_def serialise_deserialise_superblock)
    (simp add: deserialise_superblock_from_bytes_def)

context block_store
begin

lemma read_superblock_block:
  assumes "valid d" "block_in_image (image d) a"
    and "image_block (image d) a = superblock_block (serialise_superblock_to_bytes sb)"
    and "acceptable_superblock sb" "verify_checksum sb"
  shows "read_superblock_from_device D d a = Ok sb"
  using assms
  by (simp add: read_superblock_from_device_def read_device_block_image take_superblock_block
      acceptable_superblock_def deserialise_serialise_superblock Let_def)

lemma write_superblock_cases:
  assumes "valid d" "block_in_image (image d) 1" "block_in_image (image d) 2" "wf_superblock sb"
  defines "blk \<equiv> superblock_block (serialise_superblock_to_bytes (seal_with_checksum sb))"
  shows "\<exists>r d'. write_superblock_to_device D (d, sb) = (r, (d', seal_with_checksum sb)) \<and> valid d' \<and>
    total_sector_count D d' = total_sector_count D d \<and>
    (r = Ok () \<and> image d' = set_image_block (set_image_block (image d) 2 blk) 1 blk \<or>
     r = Err InputOutputError \<and> (image d' = image d \<or> image d' = set_image_block (image d) 2 blk))"
proof -
  have len: "length blk = 4096"
    using assms(4) by (simp add: blk_def)
  obtain r1 d1 where 1: "write_device_block D 2 blk d = (r1, d1)" "valid d1"
      "r1 = Ok () \<and> image d1 = set_image_block (image d) 2 blk \<or>
       r1 = Err InputOutputError \<and> image d1 = image d"
      "total_sector_count D d1 = total_sector_count D d"
    using write_device_block_image [OF assms(1,3) len] by blast
  have "block_in_image (image d1) 1"
    using 1(3) assms(2,3) len by auto
  from write_device_block_image [OF 1(2) this len] 1 show ?thesis
    by (auto simp: write_superblock_to_device_def on_device_def bindS_def len
        BAFS_BACKUP_SUPERBLOCK_BLOCK_ADDRESS_def BAFS_PRIMARY_SUPERBLOCK_BLOCK_ADDRESS_def
        simp flip: blk_def)
qed

lemma read_superblock_cong:
  assumes "valid d" "valid d'" "block_in_image (image d) a" "block_in_image (image d') a"
    and "image_block (image d') a = image_block (image d) a"
  shows "read_superblock_from_device D d' a = read_superblock_from_device D d a"
  using assms by (simp add: read_superblock_from_device_def read_device_block_image)

end

text \<open>C21: writing the superblock keeps a valid copy at every point of failure. On a device that
  meets the block-store contract, the backup is written first: if the call succeeds both copies
  read back as the sealed superblock; if it fails the primary still reads as before, and the
  backup reads either as before or as the new superblock. Other blocks never change.\<close>

theorem write_superblock_crash_safe:
  fixes img :: "'d \<Rightarrow> bytes"
  assumes "block_store D valid img" "valid d" "block_in_image (img d) 1"
    and "block_in_image (img d) 2" "acceptable_superblock sb"
  shows "\<exists>r d'. write_superblock_to_device D (d, sb) = (r, (d', seal_with_checksum sb)) \<and>
    (\<forall>a. a \<noteq> 1 \<and> a \<noteq> 2 \<longrightarrow> image_block (img d') a = image_block (img d) a) \<and>
    (r = Ok () \<and>
       read_superblock_from_device D d' BAFS_PRIMARY_SUPERBLOCK_BLOCK_ADDRESS = Ok (seal_with_checksum sb) \<and>
       read_superblock_from_device D d' BAFS_BACKUP_SUPERBLOCK_BLOCK_ADDRESS = Ok (seal_with_checksum sb) \<or>
     r = Err InputOutputError \<and>
       read_superblock_from_device D d' BAFS_PRIMARY_SUPERBLOCK_BLOCK_ADDRESS
         = read_superblock_from_device D d BAFS_PRIMARY_SUPERBLOCK_BLOCK_ADDRESS \<and>
       read_superblock_from_device D d' BAFS_BACKUP_SUPERBLOCK_BLOCK_ADDRESS
         \<in> {read_superblock_from_device D d BAFS_BACKUP_SUPERBLOCK_BLOCK_ADDRESS,
            Ok (seal_with_checksum sb)})"
proof -
  have wf: "wf_superblock sb" and ok: "acceptable_superblock (seal_with_checksum sb)"
    and ver: "verify_checksum (seal_with_checksum sb)"
    using assms(5) by (simp_all, simp_all add: acceptable_superblock_def verify_checksum_seal)
  let ?b = "superblock_block (serialise_superblock_to_bytes (seal_with_checksum sb))"
  obtain r d' where w: "write_superblock_to_device D (d, sb) = (r, (d', seal_with_checksum sb))"
      "valid d'" and cases: "r = Ok () \<and> img d' = set_image_block (set_image_block (img d) 2 ?b) 1 ?b \<or>
        r = Err InputOutputError \<and> (img d' = img d \<or> img d' = set_image_block (img d) 2 ?b)"
    using block_store.write_superblock_cases [OF assms(1-4) wf] by blast
  note read = block_store.read_superblock_block [OF assms(1) w(2) _ _ ok ver]
  note cong = block_store.read_superblock_cong [OF assms(1,2) w(2)]
  have "length ?b = 4096" using wf by simp
  with cases w(1) assms(3,4) show ?thesis
    unfolding BAFS_PRIMARY_SUPERBLOCK_BLOCK_ADDRESS_def BAFS_BACKUP_SUPERBLOCK_BLOCK_ADDRESS_def
    by (elim disjE conjE; intro exI [of _ r] exI [of _ d'])
      (auto intro!: read cong)
qed

lemma length_magic [simp]: "length BAFS_MAGIC_NUMBER = 8"
  by (simp add: BAFS_MAGIC_NUMBER_def)

definition sample_superblock :: bafs_superblock where
  "sample_superblock = deserialise_superblock_from_bytes
     (BAFS_MAGIC_NUMBER @ to_le BAFS_SUPPORTED_VERSION @ replicate 500 0)"

lemma acceptable_sample: "acceptable_superblock sample_superblock"
  unfolding acceptable_superblock_def sample_superblock_def
  by (intro conjI wf_deserialise_superblock)
    (simp_all add: deserialise_superblock_from_bytes_def slice_simps)

lemma small_disk:
  "md_valid (memory_disk_new_blocks 3)"
  "block_in_image (disk_data (memory_disk_new_blocks 3)) 1"
  "block_in_image (disk_data (memory_disk_new_blocks 3)) 2"
  by (simp_all add: md_valid_def memory_disk_new_blocks_def memory_disk_new_def
      SECTOR_SIZE_BYTES_def block_in_image_def)

theorem write_superblock_crash_safe_witness:
  "block_store memory_device md_valid disk_data \<and> acceptable_superblock sample_superblock \<and>
   (\<exists>r d'. write_superblock_to_device memory_device (memory_disk_new_blocks 3, sample_superblock)
       = (r, (d', seal_with_checksum sample_superblock)) \<and>
     (r = Ok () \<longrightarrow>
        read_superblock_from_device memory_device d' 1 = Ok (seal_with_checksum sample_superblock)))"
  using write_superblock_crash_safe [OF memory_store.block_store_axioms small_disk acceptable_sample]
    memory_store.block_store_axioms acceptable_sample
  unfolding BAFS_PRIMARY_SUPERBLOCK_BLOCK_ADDRESS_def by auto

subsection \<open>Damage\<close>

lemma read_superblock_OkD:
  assumes "read_device_block D d a = Ok blk" "length blk = 4096"
    and "read_superblock_from_device D d a = Ok sb"
  shows "verify_crc32c (take 508 blk) (from_le (slice 508 512 blk))"
  using assms
  by (auto simp: read_superblock_from_device_def Let_def verify_checksum_deserialise slice_def
      drop_take min_def split: if_splits)

lemma read_superblock_rejects:
  assumes "read_device_block D d a = Ok blk" "length blk = 4096"
    and "\<not> verify_crc32c (take 508 blk) (from_le (slice 508 512 blk))"
  shows "\<exists>e. read_superblock_from_device D d a = Err e"
  using assms
  by (auto simp: read_superblock_from_device_def Let_def verify_checksum_deserialise slice_def
      drop_take min_def)

text \<open>C22: a damaged superblock is never accepted. If a block reads as a valid superblock, the block
  with up to four consecutive bytes changed, lying wholly inside the 508 checksummed bytes or wholly
  inside the checksum field, is rejected with an error (for any device contents). A change across
  the boundary of the two, and one in the unused rest of the block, is not covered.\<close>

theorem superblock_damage_detected:
  assumes "read_device_block D d a = Ok (pre @ burst @ post)"
    and "read_superblock_from_device D d a = Ok sb"
    and "read_device_block D d' a = Ok (pre @ burst' @ post)"
    and "length (pre @ burst @ post) = 4096" "length burst' = length burst" "length burst \<le> 4"
    and "burst' \<noteq> burst"
    and "length pre + length burst \<le> 508 \<or> 508 \<le> length pre \<and> length pre + length burst \<le> 512"
  shows "\<exists>e. read_superblock_from_device D d' a = Err e"
proof -
  let ?x = "pre @ burst @ post" and ?y = "pre @ burst' @ post"
  have x: "verify_crc32c (take 508 ?x) (from_le (slice 508 512 ?x))"
    using read_superblock_OkD [OF assms(1,4,2)] .
  have "\<not> verify_crc32c (take 508 ?y) (from_le (slice 508 512 ?y))"
  proof (cases "length pre + length burst \<le> 508")
    case True
    let ?r = "take (508 - length pre - length burst) post"
    have "take 508 ?x = pre @ burst @ ?r" "take 508 ?y = pre @ burst' @ ?r"
      "slice 508 512 ?x = slice 508 512 ?y"
      using True assms(5) by (simp_all add: slice_def)
    with x show ?thesis
      using crc32c_burst [of pre burst ?r _ burst'] assms(5-7) by metis
  next
    case False
    with assms(8) have pre: "508 \<le> length pre" "length pre + length burst \<le> 512" by auto
    let ?c = "\<lambda>b. slice 508 512 (pre @ b @ post)"
    have "take 508 ?x = take 508 ?y" "?c burst \<noteq> ?c burst'"
      using pre assms(5,7) by (auto simp: slice_def)
    moreover have "length (?c burst) = 4" "length (?c burst') = 4"
      using assms(4,5) by auto
    ultimately have "take 508 ?x = take 508 ?y"
        "(from_le (?c burst) :: u32) \<noteq> from_le (?c burst')"
      using to_le_from_le_sized(2) by metis+
    with x show ?thesis
      by (simp add: verify_crc32c_def)
  qed
  then show ?thesis
    using read_superblock_rejects [OF assms(3)] assms(4,5) by simp
qed

definition sample_disk :: "bytes \<Rightarrow> memory_disk" where
  "sample_disk blk = \<lparr>disk_data = replicate 4096 0 @ blk, disk_total_sectors = 16\<rparr>"

lemma sample_disk:
  assumes "length blk = 4096"
  shows "md_valid (sample_disk blk)" "block_in_image (disk_data (sample_disk blk)) 1"
    and "image_block (disk_data (sample_disk blk)) 1 = blk"
    and "read_device_block memory_device (sample_disk blk) 1 = Ok blk"
proof -
  show *: "md_valid (sample_disk blk)" "block_in_image (disk_data (sample_disk blk)) 1"
    "image_block (disk_data (sample_disk blk)) 1 = blk"
    using assms
    by (simp_all add: md_valid_def sample_disk_def block_in_image_def image_block_def slice_simps)
  then show "read_device_block memory_device (sample_disk blk) 1 = Ok blk"
    by (simp add: memory_store.read_device_block_image)
qed

theorem superblock_damage_detected_witness:
  "let blk = superblock_block (serialise_superblock_to_bytes (seal_with_checksum sample_superblock));
       damaged = (hd blk + 1) # tl blk in
   read_superblock_from_device memory_device (sample_disk blk) 1
     = Ok (seal_with_checksum sample_superblock) \<and>
   (\<exists>e. read_superblock_from_device memory_device (sample_disk damaged) 1 = Err e)"
proof -
  let ?sb = "seal_with_checksum sample_superblock"
  let ?b = "superblock_block (serialise_superblock_to_bytes ?sb)"
  have acc: "acceptable_superblock ?sb" and ver: "verify_checksum ?sb"
    using acceptable_sample by (simp, simp add: acceptable_superblock_def verify_checksum_seal)
  then have len: "length ?b = 4096"
    by (simp add: acceptable_superblock_def)
  then have b: "?b = [] @ [hd ?b] @ tl ?b"
    by (cases ?b) auto
  have ok: "read_superblock_from_device memory_device (sample_disk ?b) 1 = Ok ?sb"
    using memory_store.read_superblock_block [OF sample_disk(1,2) _ acc ver] sample_disk(3) len
    by blast
  have "\<exists>e. read_superblock_from_device memory_device
      (sample_disk ([] @ [hd ?b + 1] @ tl ?b)) 1 = Err e"
    using superblock_damage_detected [of memory_device "sample_disk ?b" 1 "[]" "[hd ?b]" "tl ?b"
        ?sb "sample_disk ([] @ [hd ?b + 1] @ tl ?b)" "[hd ?b + 1]"] len ok b
    by (simp add: sample_disk(4))
  with ok show ?thesis
    by (simp add: Let_def)
qed

end
