(* ===== verification/Btree_Node.thy ===== *)
theory Btree_Node
  imports Superblock
begin

text \<open>
  The node layer of \<open>btree.rs\<close>: keys, items and nodes, their 4 KiB on-disk form, the dirty-block
  cache (a \<open>BTreeMap\<close> from block addresses to block contents) and the reads and writes of nodes
  through it.

  The lemmas show that the cache is a map kept in key order, that a node which fits a block is
  serialised without a panic and parsed back unchanged, and that a damaged node is rejected.
\<close>

section \<open>Keys\<close>

definition ITEM_TYPE_INODE :: u8 where "ITEM_TYPE_INODE = 0x01"

definition ITEM_TYPE_DIRECTORY_ENTRY :: u8 where "ITEM_TYPE_DIRECTORY_ENTRY = 0x02"

definition ITEM_TYPE_EXTENT_DATA :: u8 where "ITEM_TYPE_EXTENT_DATA = 0x03"

definition ITEM_TYPE_CHECKSUM_ENTRY :: u8 where "ITEM_TYPE_CHECKSUM_ENTRY = 0x05"

datatype bafs_key = BafsKey (object_id: u64) (item_type: u8) (key_offset: u64)

text \<open>The derived \<open>Ord\<close>: lexicographic in the order of the fields.\<close>

instantiation bafs_key :: linorder
begin

definition less_bafs_key :: "bafs_key \<Rightarrow> bafs_key \<Rightarrow> bool" where
  "less_bafs_key a b \<longleftrightarrow>
     object_id a < object_id b \<or>
     object_id a = object_id b \<and>
       (item_type a < item_type b \<or>
        item_type a = item_type b \<and> key_offset a < key_offset b)"

definition less_eq_bafs_key :: "bafs_key \<Rightarrow> bafs_key \<Rightarrow> bool" where
  "less_eq_bafs_key a b \<longleftrightarrow> a < b \<or> a = b"

instance
proof
  fix x y z :: bafs_key
  show "(x < y) = (x \<le> y \<and> \<not> y \<le> x)" "x \<le> x" "x \<le> y \<Longrightarrow> y \<le> z \<Longrightarrow> x \<le> z"
    "x \<le> y \<Longrightarrow> y \<le> x \<Longrightarrow> x = y" "x \<le> y \<or> y \<le> x"
    by (cases x; cases y; cases z; auto simp: less_eq_bafs_key_def less_bafs_key_def)+
qed

end

lemma less_BafsKey [simp]:
  "BafsKey a b c < BafsKey a' b' c' \<longleftrightarrow> a < a' \<or> a = a' \<and> (b < b' \<or> b = b' \<and> c < c')"
  by (simp add: less_bafs_key_def)

lemma le_BafsKey [simp]:
  "BafsKey a b c \<le> BafsKey a' b' c' \<longleftrightarrow> a < a' \<or> a = a' \<and> (b < b' \<or> b = b' \<and> c \<le> c')"
  by (auto simp: less_eq_bafs_key_def)

definition MAX_KEY :: bafs_key where
  "MAX_KEY = BafsKey (-1) (-1) (-1)"

lemma le_MAX_KEY [simp]: "k \<le> MAX_KEY"
  by (cases k) (auto simp: MAX_KEY_def less_le)

section \<open>Nodes\<close>

record bafs_leaf_item =
  item_key :: bafs_key
  item_value :: bytes

record bafs_internal_item =
  sep_key :: bafs_key
  child_block :: u64
  child_generation :: u64

record bafs_tree_node =
  node_checksum :: u32
  level :: u8
  node_flags :: u8
  item_count :: u16
  self_block_address :: u64
  node_generation :: u64
  leaf_items :: "bafs_leaf_item list"
  internal_items :: "bafs_internal_item list"

definition NODE_HEADER_SIZE_BYTES :: nat where "NODE_HEADER_SIZE_BYTES = 24"

definition LEAF_ITEM_HEADER_SIZE_BYTES :: nat where "LEAF_ITEM_HEADER_SIZE_BYTES = 25"

definition INTERNAL_MAX_ITEMS :: nat where "INTERNAL_MAX_ITEMS = 90"

definition leaf_serialised_size :: "bafs_leaf_item list \<Rightarrow> nat" where
  "leaf_serialised_size items =
     (let headers_end = NODE_HEADER_SIZE_BYTES + length items * LEAF_ITEM_HEADER_SIZE_BYTES;
          total_value_bytes = sum_list (map (\<lambda>item. length (item_value item)) items)
      in headers_end + total_value_bytes)"

definition leaf_node_would_overflow :: "bafs_leaf_item list \<Rightarrow> bool" where
  "leaf_node_would_overflow items \<longleftrightarrow> leaf_serialised_size items > block_size"

section \<open>Serialisation\<close>

text \<open>A checked slice assignment \<open>buffer[at..at + src.len()].copy_from_slice(src)\<close>.\<close>

definition put_slice :: "bytes \<Rightarrow> nat \<Rightarrow> bytes \<Rightarrow> bytes result" where
  "put_slice buffer at src =
     (if at + length src \<le> length buffer then Ok (write_slice buffer at src) else Panic)"

definition serialise_key :: "bafs_key \<Rightarrow> bytes" where
  "serialise_key key = to_le (object_id key) @ [item_type key] @ to_le (key_offset key)"

definition deserialise_key :: "bytes \<Rightarrow> bafs_key" where
  "deserialise_key source =
     BafsKey (from_le (slice 0 8 source)) (source ! 8) (from_le (slice 9 17 source))"

fun serialise_internal_items :: "bytes \<Rightarrow> nat \<Rightarrow> bafs_internal_item list \<Rightarrow> bytes result" where
  "serialise_internal_items buffer write_cursor [] = Ok buffer"
| "serialise_internal_items buffer write_cursor (item # items) =
     bindR (put_slice buffer write_cursor (serialise_key (sep_key item))) (\<lambda>b1.
     bindR (put_slice b1 (write_cursor + 17) (to_le (child_block item))) (\<lambda>b2.
     bindR (put_slice b2 (write_cursor + 25) (to_le (child_generation item))) (\<lambda>b3.
     serialise_internal_items b3 (write_cursor + 33) items)))"

fun serialise_leaf_items :: "bytes \<Rightarrow> nat \<Rightarrow> nat \<Rightarrow> bafs_leaf_item list \<Rightarrow> bytes result" where
  "serialise_leaf_items buffer header_cursor value_cursor [] = Ok buffer"
| "serialise_leaf_items buffer header_cursor value_cursor (item # items) =
     (let value_size = length (item_value item) in
      if value_cursor < value_size then Panic
      else
        let data_offset = value_cursor - value_size in
        bindR (put_slice buffer data_offset (item_value item)) (\<lambda>b1.
        bindR (put_slice b1 header_cursor (serialise_key (item_key item))) (\<lambda>b2.
        bindR (put_slice b2 (header_cursor + 17) (to_le (word_of_nat data_offset :: u32))) (\<lambda>b3.
        bindR (put_slice b3 (header_cursor + 21) (to_le (word_of_nat value_size :: u32))) (\<lambda>b4.
        serialise_leaf_items b4 (header_cursor + 25) data_offset items)))))"

definition serialise_node_to_block :: "bafs_tree_node \<Rightarrow> bytes result" where
  "serialise_node_to_block node =
     (let buffer = replicate block_size 0;
          buffer = buffer[4 := level node];
          buffer = buffer[5 := node_flags node];
          buffer = write_slice buffer 6 (to_le (item_count node));
          buffer = write_slice buffer 8 (to_le (self_block_address node));
          buffer = write_slice buffer 16 (to_le (node_generation node))
      in bindR (if level node > 0
                then serialise_internal_items buffer NODE_HEADER_SIZE_BYTES (internal_items node)
                else serialise_leaf_items buffer NODE_HEADER_SIZE_BYTES block_size (leaf_items node))
          (\<lambda>buffer. Ok (write_slice buffer 0 (to_le (compute_crc32c (drop 4 buffer))))))"

primrec deserialise_internal_items :: "bytes \<Rightarrow> nat \<Rightarrow> nat \<Rightarrow> bafs_internal_item list" where
  "deserialise_internal_items block_data read_cursor 0 = []"
| "deserialise_internal_items block_data read_cursor (Suc n) =
     \<lparr>sep_key = deserialise_key (drop read_cursor block_data),
      child_block = from_le (slice (read_cursor + 17) (read_cursor + 25) block_data),
      child_generation = from_le (slice (read_cursor + 25) (read_cursor + 33) block_data)\<rparr>
     # deserialise_internal_items block_data (read_cursor + 33) n"

primrec deserialise_leaf_items :: "bytes \<Rightarrow> nat \<Rightarrow> nat \<Rightarrow> bafs_leaf_item list result" where
  "deserialise_leaf_items block_data header_cursor 0 = Ok []"
| "deserialise_leaf_items block_data header_cursor (Suc n) =
     (let key = deserialise_key (drop header_cursor block_data);
          data_offset = unat (from_le (slice (header_cursor + 17) (header_cursor + 21) block_data) :: u32);
          data_size = unat (from_le (slice (header_cursor + 21) (header_cursor + 25) block_data) :: u32)
      in if data_offset + data_size > block_size then Err CorruptedStructure
         else bindR (deserialise_leaf_items block_data (header_cursor + 25) n) (\<lambda>items.
           Ok (\<lparr>item_key = key,
                item_value = slice data_offset (data_offset + data_size) block_data\<rparr> # items)))"

definition deserialise_node_from_block :: "bytes \<Rightarrow> u64 \<Rightarrow> bafs_tree_node result" where
  "deserialise_node_from_block block_data block_address =
     (if length block_data \<noteq> block_size then Panic
      else
        let stored_checksum = from_le (slice 0 4 block_data) in
        if \<not> verify_crc32c (drop 4 block_data) stored_checksum
          then Err (InvalidChecksum block_address)
        else
          let item_count = from_le (slice 6 8 block_data) :: u16;
              node = \<lparr>node_checksum = stored_checksum,
                level = block_data ! 4,
                node_flags = block_data ! 5,
                item_count = item_count,
                self_block_address = from_le (slice 8 16 block_data),
                node_generation = from_le (slice 16 24 block_data),
                leaf_items = [],
                internal_items = []\<rparr>
          in if level node > 0
             then
               if NODE_HEADER_SIZE_BYTES + unat item_count * 33 > block_size
                 then Err CorruptedStructure
               else Ok (node\<lparr>internal_items :=
                 deserialise_internal_items block_data NODE_HEADER_SIZE_BYTES (unat item_count)\<rparr>)
             else
               if NODE_HEADER_SIZE_BYTES + unat item_count * 25 > block_size
                 then Err CorruptedStructure
               else bindR (deserialise_leaf_items block_data NODE_HEADER_SIZE_BYTES (unat item_count))
                 (\<lambda>items. Ok (node\<lparr>leaf_items := items\<rparr>)))"

section \<open>The dirty-block cache\<close>

text \<open>A \<open>BTreeMap\<close> as the association list of its entries in key order, the order in which it is
  iterated.\<close>

type_synonym dirty_cache = "(u64 \<times> bytes) list"

fun map_insert :: "'k::linorder \<Rightarrow> 'v \<Rightarrow> ('k \<times> 'v) list \<Rightarrow> ('k \<times> 'v) list" where
  "map_insert k v [] = [(k, v)]"
| "map_insert k v ((k', v') # entries) =
     (if k < k' then (k, v) # (k', v') # entries
      else if k = k' then (k, v) # entries
      else (k', v') # map_insert k v entries)"

text \<open>The part of the volume that tree operations mutate.\<close>

record cow_state =
  dirty_cache :: dirty_cache
  next_free_block :: u64
  freed_blocks :: "u64 list"

definition read_block :: "'d block_device \<Rightarrow> 'd \<Rightarrow> dirty_cache \<Rightarrow> u64 \<Rightarrow> bytes result" where
  "read_block D dev cache block_address =
     (case map_of cache block_address of
        Some cached_data \<Rightarrow> Ok cached_data
      | None \<Rightarrow> read_device_block D dev block_address)"

definition write_block_to_cache :: "u64 \<Rightarrow> bytes \<Rightarrow> (cow_state, unit) sop" where
  "write_block_to_cache block_address block_data =
     bindS (liftS (assertR (length block_data = block_size))) (\<lambda>_.
     modifyS (\<lambda>st. st\<lparr>dirty_cache := map_insert block_address block_data (dirty_cache st)\<rparr>))"

definition read_tree_node :: "'d block_device \<Rightarrow> 'd \<Rightarrow> dirty_cache \<Rightarrow> u64 \<Rightarrow> bafs_tree_node result" where
  "read_tree_node D dev cache block_address =
     bindR (read_block D dev cache block_address) (\<lambda>block_data.
     deserialise_node_from_block block_data block_address)"

definition write_tree_node_to_cache :: "bafs_tree_node \<Rightarrow> (cow_state, unit) sop" where
  "write_tree_node_to_cache node =
     bindS (liftS (serialise_node_to_block node)) (\<lambda>block_data.
     write_block_to_cache (self_block_address node) block_data)"

section \<open>The cache is an ordered map\<close>

text \<open>The contract of an ordered map: \<open>get\<close>, \<open>insert\<close> and the entries in key order.\<close>

locale ordered_map =
  fixes inv :: "'m \<Rightarrow> bool"
    and get :: "'m \<Rightarrow> 'k::linorder \<Rightarrow> 'v option"
    and ins :: "'k \<Rightarrow> 'v \<Rightarrow> 'm \<Rightarrow> 'm"
    and entries :: "'m \<Rightarrow> ('k \<times> 'v) list"
  assumes inv_ins: "inv m \<Longrightarrow> inv (ins k v m)"
    and get_ins: "inv m \<Longrightarrow> get (ins k v m) = (get m)(k \<mapsto> v)"
    and entries_sorted: "inv m \<Longrightarrow> sorted_wrt (<) (map fst (entries m))"
    and entries_get: "inv m \<Longrightarrow> map_of (entries m) = get m"
begin

lemma get_foldl_ins:
  "inv m \<Longrightarrow> get (fold (\<lambda>(k, v). ins k v) kvs m) = get m ++ map_of (rev kvs)"
proof (induction kvs arbitrary: m)
  case (Cons kv kvs)
  then show ?case
    by (cases kv) (simp add: inv_ins get_ins map_add_assoc [symmetric] map_add_def fun_eq_iff
        split: option.splits)
qed simp

lemma entries_distinct: "inv m \<Longrightarrow> distinct (map fst (entries m))"
  using entries_sorted strict_sorted_iff by blast

lemma entry_get: "inv m \<Longrightarrow> (k, v) \<in> set (entries m) \<longleftrightarrow> get m k = Some v"
  using entries_distinct entries_get by (metis map_of_eq_Some_iff)

end

lemma map_of_map_insert [simp]: "map_of (map_insert k v m) = (map_of m)(k \<mapsto> v)"
  by (induction k v m rule: map_insert.induct) auto

lemma set_map_insert:
  "set (map fst (map_insert k v m)) = insert k (fst ` set m)"
  by (induction k v m rule: map_insert.induct) auto

abbreviation cache_sorted :: "('k::linorder \<times> 'v) list \<Rightarrow> bool" where
  "cache_sorted m \<equiv> sorted_wrt (<) (map fst m)"

lemma cache_sorted_insert [simp]: "cache_sorted m \<Longrightarrow> cache_sorted (map_insert k v m)"
proof (induction k v m rule: map_insert.induct)
  case (2 k v k' v' es)
  then show ?case
    using set_map_insert [of k v es] by auto
qed simp

interpretation btree_map: ordered_map cache_sorted map_of map_insert "\<lambda>m. m"
  by unfold_locales auto

section \<open>The codec\<close>

lemma put_slice_Ok:
  "at + length src \<le> length buffer \<Longrightarrow> put_slice buffer at src = Ok (write_slice buffer at src)"
  by (simp add: put_slice_def)

lemma length_serialise_key [simp]: "length (serialise_key k) = 17"
  by (simp add: serialise_key_def)

lemma deserialise_serialise_key: "deserialise_key (serialise_key k @ rest) = k"
  by (cases k) (simp add: deserialise_key_def serialise_key_def slice_simps nth_append)

lemma write_slice_append:
  "off + length xs + length ys \<le> length b \<Longrightarrow>
   write_slice (write_slice b off xs) (off + length xs) ys = write_slice b off (xs @ ys)"
  by (simp add: write_slice_def ac_simps)

lemma write_slice_commute:
  assumes "i + length xs \<le> j" "j + length ys \<le> length b"
  shows "write_slice (write_slice b i xs) j ys = write_slice (write_slice b j ys) i xs"
  by (rule nth_equalityI) (use assms in \<open>auto simp: nth_write_slice\<close>)

lemma write_slice_Nil [simp]: "write_slice b i [] = b"
  by (simp add: write_slice_def)

definition internal_item_bytes :: "bafs_internal_item \<Rightarrow> bytes" where
  "internal_item_bytes item =
     serialise_key (sep_key item) @ to_le (child_block item) @ to_le (child_generation item)"

lemma length_internal_item_bytes [simp]: "length (internal_item_bytes item) = 33"
  by (simp add: internal_item_bytes_def)

lemma length_concat_internal [simp]:
  "length (concat (map internal_item_bytes items)) = 33 * length items"
  by (induction items) auto

lemma serialise_internal_items_Ok:
  "cur + 33 * length items \<le> length b \<Longrightarrow>
   serialise_internal_items b cur items
     = Ok (write_slice b cur (concat (map internal_item_bytes items)))"
proof (induction items arbitrary: b cur)
  case (Cons item items)
  let ?w = "write_slice b cur (internal_item_bytes item)"
  have "write_slice (write_slice (write_slice b cur (serialise_key (sep_key item))) (cur + 17)
      (to_le (child_block item))) (cur + 25) (to_le (child_generation item)) = ?w"
    using Cons.prems write_slice_append [of cur "serialise_key (sep_key item)" "to_le (child_block item)" b]
      write_slice_append [of cur "serialise_key (sep_key item) @ to_le (child_block item)"
        "to_le (child_generation item)" b]
    by (simp add: internal_item_bytes_def)
  then show ?case
    using Cons write_slice_append [of cur "internal_item_bytes item"
        "concat (map internal_item_bytes items)" b]
    by (simp add: put_slice_Ok)
qed simp

lemma slice_slice:
  "c \<le> d \<Longrightarrow> a + d \<le> b \<Longrightarrow> slice c d (slice a b xs) = slice (a + c) (a + d) xs"
  by (simp add: slice_def drop_take min_def add.commute)

lemma deserialise_internal_items_eq:
  assumes "slice cur (cur + 33 * length items) b = concat (map internal_item_bytes items)"
    and "cur + 33 * length items \<le> length b"
  shows "deserialise_internal_items b cur (length items) = items"
  using assms
proof (induction items arbitrary: cur)
  case (Cons item items)
  let ?e = "cur + 33 * length (item # items)"
  have hd: "slice cur (cur + 33) b = internal_item_bytes item"
    using Cons.prems slice_slice [of 0 33 cur ?e b] by (simp add: slice_simps)
  have tl: "slice (cur + 33) (cur + 33 + 33 * length items) b = concat (map internal_item_bytes items)"
    using Cons.prems slice_slice [of 33 "33 + 33 * length items" cur ?e b]
    by (simp add: slice_simps add.assoc)
  have "drop cur b = internal_item_bytes item @ drop (cur + 33) b"
    using hd append_take_drop_id [of 33 "drop cur b"] by (simp add: slice_def add.commute)
  moreover have "slice (cur + 17) (cur + 25) b = to_le (child_block item)"
    using arg_cong [OF hd, of "slice 17 25"] slice_slice [of 17 25 cur "cur + 33" b]
    by (simp add: internal_item_bytes_def slice_simps)
  moreover have "slice (cur + 25) (cur + 33) b = to_le (child_generation item)"
    using arg_cong [OF hd, of "slice 25 33"] slice_slice [of 25 33 cur "cur + 33" b]
    by (simp add: internal_item_bytes_def slice_simps)
  ultimately show ?case
    using Cons.IH [OF tl] Cons.prems(2)
    by (simp add: internal_item_bytes_def deserialise_serialise_key codec_simps)
qed simp

text \<open>The item headers and the packed values of a leaf, with \<open>vc\<close> the end of the value area.\<close>

fun leaf_headers :: "nat \<Rightarrow> bafs_leaf_item list \<Rightarrow> bytes" where
  "leaf_headers vc [] = []"
| "leaf_headers vc (item # items) =
     (let off = vc - length (item_value item) in
      serialise_key (item_key item) @ to_le (word_of_nat off :: u32)
        @ to_le (word_of_nat (length (item_value item)) :: u32) @ leaf_headers off items)"

definition leaf_values :: "bafs_leaf_item list \<Rightarrow> bytes" where
  "leaf_values items = concat (rev (map item_value items))"

lemma length_leaf_headers [simp]: "length (leaf_headers vc items) = 25 * length items"
  by (induction vc items rule: leaf_headers.induct) (auto simp: Let_def)

lemma leaf_values_Cons [simp]: "leaf_values (item # items) = leaf_values items @ item_value item"
  by (simp add: leaf_values_def)

lemma leaf_values_Nil [simp]: "leaf_values [] = []"
  by (simp add: leaf_values_def)

lemma leaf_size: "leaf_serialised_size items = 24 + 25 * length items + length (leaf_values items)"
proof -
  have "sum_list (map (\<lambda>item. length (item_value item)) items) = length (leaf_values items)"
    by (induction items) auto
  then show ?thesis
    by (simp add: leaf_serialised_size_def NODE_HEADER_SIZE_BYTES_def LEAF_ITEM_HEADER_SIZE_BYTES_def)
qed

lemma serialise_leaf_items_Ok:
  "hc + 25 * length items + length (leaf_values items) \<le> vc \<Longrightarrow> vc \<le> length b \<Longrightarrow>
   serialise_leaf_items b hc vc items
     = Ok (write_slice (write_slice b (vc - length (leaf_values items)) (leaf_values items))
             hc (leaf_headers vc items))"
proof (induction items arbitrary: b hc vc)
  case (Cons item items)
  let ?v = "item_value item"
  let ?off = "vc - length ?v"
  let ?h = "serialise_key (item_key item) @ to_le (word_of_nat ?off :: u32)
              @ to_le (word_of_nat (length ?v) :: u32)"
  let ?vs = "leaf_values items" and ?hs = "leaf_headers ?off items"
  let ?at = "?off - length ?vs"
  let ?b1 = "write_slice b ?off ?v"
  have bounds: "?at + length ?vs = ?off" "?off + length ?v = vc" "hc + 25 \<le> ?at"
      "hc + 25 + length ?hs \<le> ?at"
    using Cons.prems by auto
  have three: "write_slice (write_slice (write_slice ?b1 hc (serialise_key (item_key item)))
      (hc + 17) (to_le (word_of_nat ?off :: u32))) (hc + 21) (to_le (word_of_nat (length ?v) :: u32))
      = write_slice ?b1 hc ?h"
    using Cons.prems
      write_slice_append [of hc "serialise_key (item_key item)" "to_le (word_of_nat ?off :: u32)" ?b1]
      write_slice_append [of hc "serialise_key (item_key item) @ to_le (word_of_nat ?off :: u32)"
        "to_le (word_of_nat (length ?v) :: u32)" ?b1]
    by simp
  have "serialise_leaf_items b hc vc (item # items)
      = serialise_leaf_items (write_slice ?b1 hc ?h) (hc + 25) ?off items"
    using Cons.prems three by (simp add: Let_def put_slice_Ok)
  also have "\<dots> = Ok (write_slice (write_slice (write_slice ?b1 hc ?h) ?at ?vs) (hc + 25) ?hs)"
    using Cons.prems by (intro Cons.IH) auto
  also have "write_slice (write_slice ?b1 hc ?h) ?at ?vs = write_slice (write_slice ?b1 ?at ?vs) hc ?h"
    using Cons.prems bounds by (intro write_slice_commute) auto
  also have "write_slice (write_slice (write_slice ?b1 ?at ?vs) hc ?h) (hc + 25) ?hs
      = write_slice (write_slice ?b1 ?at ?vs) hc (?h @ ?hs)"
    using Cons.prems bounds write_slice_append [of hc ?h ?hs "write_slice ?b1 ?at ?vs"] by simp
  also have "write_slice ?b1 ?at ?vs = write_slice (write_slice b ?at ?vs) ?off ?v"
    using Cons.prems bounds by (intro write_slice_commute [symmetric]) auto
  also have "\<dots> = write_slice b ?at (?vs @ ?v)"
    using Cons.prems bounds write_slice_append [of ?at ?vs ?v b] by simp
  finally show ?case
    using bounds by (simp add: Let_def diff_diff_left add.commute del: serialise_leaf_items.simps)
qed simp

lemma deserialise_leaf_items_eq:
  assumes "slice hc (hc + 25 * length items) b = leaf_headers vc items"
    and "slice (vc - length (leaf_values items)) vc b = leaf_values items"
    and "hc + 25 * length items \<le> length b" "length (leaf_values items) \<le> vc"
    and "vc \<le> 4096" "length b = 4096"
  shows "deserialise_leaf_items b hc (length items) = Ok items"
  using assms
proof (induction items arbitrary: hc vc)
  case (Cons item items)
  let ?v = "item_value item"
  let ?off = "vc - length ?v"
  let ?e = "hc + 25 * length (item # items)"
  let ?k = "serialise_key (item_key item)" and ?o = "to_le (word_of_nat ?off :: u32)"
    and ?s = "to_le (word_of_nat (length ?v) :: u32)"
  have hd: "slice hc (hc + 25) b = ?k @ ?o @ ?s"
    using Cons.prems(1) slice_slice [of 0 25 hc ?e b] by (simp add: slice_def [of 0] Let_def)
  have tl: "slice (hc + 25) (hc + 25 + 25 * length items) b = leaf_headers ?off items"
    using Cons.prems(1) slice_slice [of 25 "25 + 25 * length items" hc ?e b]
    by (simp add: slice_simps add.assoc Let_def)
  have vals: "slice (?off - length (leaf_values items)) ?off b = leaf_values items"
      "slice ?off vc b = ?v"
    using Cons.prems(2,4) slice_slice [of 0 "length (leaf_values items)"
        "?off - length (leaf_values items)" vc b]
      slice_slice [of "length (leaf_values items)" "length (leaf_values items) + length ?v"
        "?off - length (leaf_values items)" vc b]
    by (simp_all add: slice_simps add.commute)
  have "drop hc b = (?k @ ?o @ ?s) @ drop (hc + 25) b"
    using hd append_take_drop_id [of 25 "drop hc b"] by (simp add: slice_def add.commute)
  moreover have "slice (hc + 17) (hc + 21) b = ?o" "slice (hc + 21) (hc + 25) b = ?s"
    using arg_cong [OF hd, of "slice 17 21"] slice_slice [of 17 21 hc "hc + 25" b]
      arg_cong [OF hd, of "slice 21 25"] slice_slice [of 21 25 hc "hc + 25" b]
    by (simp_all add: slice_simps)
  moreover have "unat (word_of_nat ?off :: u32) = ?off"
      "unat (word_of_nat (length ?v) :: u32) = length ?v"
    using Cons.prems(4,5) by (simp_all add: unat_of_nat del: of_nat_diff)
  ultimately show ?case
    using Cons.IH [OF tl vals(1)] Cons.prems vals(2)
    by (simp add: Let_def deserialise_serialise_key codec_simps del: of_nat_diff)
qed simp

text \<open>A node that fits its block: the items of the kind its level says, counted.\<close>

definition node_fits :: "bafs_tree_node \<Rightarrow> bool" where
  "node_fits n \<longleftrightarrow>
     (if level n > 0
      then leaf_items n = [] \<and> item_count n = word_of_nat (length (internal_items n)) \<and>
        24 + 33 * length (internal_items n) \<le> 4096
      else internal_items n = [] \<and> item_count n = word_of_nat (length (leaf_items n)) \<and>
        leaf_serialised_size (leaf_items n) \<le> 4096)"

definition node_header_bytes :: "bafs_tree_node \<Rightarrow> bytes" where
  "node_header_bytes n = [level n, node_flags n] @ to_le (item_count n)
     @ to_le (self_block_address n) @ to_le (node_generation n)"

lemma length_node_header_bytes [simp]: "length (node_header_bytes n) = 20"
  by (simp add: node_header_bytes_def)

lemma node_header_fields:
  "node_header_bytes n ! 0 = level n" "node_header_bytes n ! Suc 0 = node_flags n"
  "slice 2 4 (node_header_bytes n) = to_le (item_count n)"
  "slice 4 12 (node_header_bytes n) = to_le (self_block_address n)"
  "slice 12 20 (node_header_bytes n) = to_le (node_generation n)"
  by (simp_all add: node_header_bytes_def numeral_2_eq_2) (simp_all add: slice_def)

lemma list_update_write_slice: "i < length b \<Longrightarrow> b[i := x] = write_slice b i [x]"
  by (simp add: write_slice_def upd_conv_take_nth_drop)

lemma node_header_write:
  assumes "length b = 4096"
  shows "write_slice (write_slice (write_slice (b[4 := level n, 5 := node_flags n])
      6 (to_le (item_count n))) 8 (to_le (self_block_address n))) 16 (to_le (node_generation n))
    = write_slice b 4 (node_header_bytes n)"
proof -
  let ?l = "[level n]" and ?f = "[node_flags n]" and ?c = "to_le (item_count n)"
    and ?s = "to_le (self_block_address n)" and ?g = "to_le (node_generation n)"
  have "b[4 := level n, 5 := node_flags n] = write_slice b 4 (?l @ ?f)"
    using assms write_slice_append [of 4 ?l ?f b] by (simp add: list_update_write_slice)
  moreover have "write_slice (write_slice b 4 (?l @ ?f)) 6 ?c = write_slice b 4 (?l @ ?f @ ?c)"
    using assms write_slice_append [of 4 "?l @ ?f" ?c b] by simp
  moreover have "write_slice (write_slice b 4 (?l @ ?f @ ?c)) 8 ?s = write_slice b 4 (?l @ ?f @ ?c @ ?s)"
    using assms write_slice_append [of 4 "?l @ ?f @ ?c" ?s b] by simp
  moreover have "write_slice (write_slice b 4 (?l @ ?f @ ?c @ ?s)) 16 ?g
      = write_slice b 4 (?l @ ?f @ ?c @ ?s @ ?g)"
    using assms write_slice_append [of 4 "?l @ ?f @ ?c @ ?s" ?g b] by simp
  ultimately show ?thesis
    by (simp add: node_header_bytes_def)
qed

text \<open>What the serialised form of a fitting node looks like: header, item area, value area.\<close>

lemma serialise_node_cases:
  assumes "node_fits n"
  obtains body where
    "serialise_node_to_block n = Ok (write_slice body 0 (to_le (compute_crc32c (drop 4 body))))"
    "length body = 4096" "slice 4 24 body = node_header_bytes n"
    "level n > 0 \<Longrightarrow> slice 24 (24 + 33 * length (internal_items n)) body
        = concat (map internal_item_bytes (internal_items n))"
    "level n = 0 \<Longrightarrow> slice 24 (24 + 25 * length (leaf_items n)) body
        = leaf_headers 4096 (leaf_items n)"
    "level n = 0 \<Longrightarrow> slice (4096 - length (leaf_values (leaf_items n))) 4096 body
        = leaf_values (leaf_items n)"
proof -
  let ?h = "write_slice (replicate 4096 0) 4 (node_header_bytes n)"
  have ser: "serialise_node_to_block n =
      bindR (if level n > 0 then serialise_internal_items ?h 24 (internal_items n)
             else serialise_leaf_items ?h 24 4096 (leaf_items n))
        (\<lambda>b. Ok (write_slice b 0 (to_le (compute_crc32c (drop 4 b)))))"
    using node_header_write [of "replicate 4096 0" n]
    by (simp add: serialise_node_to_block_def Let_def NODE_HEADER_SIZE_BYTES_def)
  show thesis
  proof (cases "level n > 0")
    case True
    with assms show thesis
      using ser serialise_internal_items_Ok [of 24 "internal_items n" ?h]
      by (intro that [of "write_slice ?h 24 (concat (map internal_item_bytes (internal_items n)))"])
        (simp_all add: node_fits_def slice_simps)
  next
    case False
    let ?v = "leaf_values (leaf_items n)"
    have size: "24 + 25 * length (leaf_items n) + length ?v \<le> 4096"
      using False assms by (simp add: node_fits_def leaf_size)
    with False show thesis
      using ser serialise_leaf_items_Ok [of 24 "leaf_items n" 4096 ?h]
      by (intro that [of "write_slice (write_slice ?h (4096 - length ?v) ?v) 24
            (leaf_headers 4096 (leaf_items n))"])
        (simp_all add: slice_simps)
  qed
qed

lemma write_checksum_header:
  assumes "length b = 4096"
  shows "4 \<le> i \<Longrightarrow> slice i j (write_slice b 0 (to_le (c :: u32))) = slice i j b"
    and "drop 4 (write_slice b 0 (to_le (c :: u32))) = drop 4 b"
    and "slice 0 4 (write_slice b 0 (to_le (c :: u32))) = to_le c"
  using assms by (simp_all add: slice_simps) (simp add: write_slice_def)

lemma nth_slice_24:
  "length b = 4096 \<Longrightarrow> slice 4 24 b = xs \<Longrightarrow> b ! 4 = xs ! 0 \<and> b ! 5 = xs ! 1"
  by (auto simp: nth_slice)

lemma node_codec:
  assumes "node_fits n"
  shows "\<exists>blk c. serialise_node_to_block n = Ok blk \<and> length blk = 4096 \<and>
    deserialise_node_from_block blk a = Ok (n\<lparr>node_checksum := c\<rparr>)"
proof -
  obtain body where ser:
    "serialise_node_to_block n = Ok (write_slice body 0 (to_le (compute_crc32c (drop 4 body))))"
    and len: "length body = 4096" and hdr: "slice 4 24 body = node_header_bytes n"
    and int: "level n > 0 \<Longrightarrow> slice 24 (24 + 33 * length (internal_items n)) body
        = concat (map internal_item_bytes (internal_items n))"
    and leaf: "level n = 0 \<Longrightarrow> slice 24 (24 + 25 * length (leaf_items n)) body
        = leaf_headers 4096 (leaf_items n)"
      "level n = 0 \<Longrightarrow> slice (4096 - length (leaf_values (leaf_items n))) 4096 body
        = leaf_values (leaf_items n)"
    using serialise_node_cases [OF assms] by metis
  let ?c = "compute_crc32c (drop 4 body)"
  let ?blk = "write_slice body 0 (to_le ?c)"
  note same = write_checksum_header [OF len, where c = ?c]
  have blk: "length ?blk = 4096" using len by simp
  have h: "slice 4 24 ?blk = node_header_bytes n"
    using hdr same(1) by simp
  have fields: "?blk ! 4 = level n" "?blk ! 5 = node_flags n"
      "slice 6 8 ?blk = to_le (item_count n)" "slice 8 16 ?blk = to_le (self_block_address n)"
      "slice 16 24 ?blk = to_le (node_generation n)"
    using nth_slice_24 [OF blk h] slice_slice [of 2 4 4 24 ?blk] slice_slice [of 4 12 4 24 ?blk]
      slice_slice [of 12 20 4 24 ?blk] h
    by (simp_all add: node_header_fields)
  have ver: "verify_crc32c (drop 4 ?blk) (from_le (slice 0 4 ?blk))"
    using same(2,3) by (simp add: codec_simps)
  note parse = deserialise_node_from_block_def Let_def NODE_HEADER_SIZE_BYTES_def fields ver
    same(2,3) blk codec_simps
  show ?thesis
  proof (cases "level n > 0")
    case True
    then have "deserialise_internal_items ?blk 24 (length (internal_items n)) = internal_items n"
      using int same(1) blk assms
      by (intro deserialise_internal_items_eq) (auto simp: node_fits_def)
    moreover have "unat (item_count n) = length (internal_items n)"
      using True assms by (auto simp: node_fits_def unat_of_nat)
    ultimately have "deserialise_node_from_block ?blk a = Ok (n\<lparr>node_checksum := ?c\<rparr>)"
      using True assms by (cases n) (simp add: parse node_fits_def)
    with ser blk show ?thesis by blast
  next
    case False
    then have l: "level n = 0" by (simp add: word_neq_0_conv [symmetric])
    have size: "24 + 25 * length (leaf_items n) + length (leaf_values (leaf_items n)) \<le> 4096"
      using l assms by (simp add: node_fits_def leaf_size)
    then have "deserialise_leaf_items ?blk 24 (length (leaf_items n)) = Ok (leaf_items n)"
      using leaf [OF l] same(1) blk
      by (intro deserialise_leaf_items_eq [where vc = 4096]) auto
    moreover have "unat (item_count n) = length (leaf_items n)"
      using l assms size by (auto simp: node_fits_def unat_of_nat)
    ultimately have "deserialise_node_from_block ?blk a = Ok (n\<lparr>node_checksum := ?c\<rparr>)"
      using l assms size by (cases n) (simp add: parse node_fits_def)
    with ser blk show ?thesis by blast
  qed
qed

definition sample_node :: bafs_tree_node where
  "sample_node = \<lparr>node_checksum = 0, level = 0, node_flags = 0, item_count = 1,
     self_block_address = 9, node_generation = 4,
     leaf_items = [\<lparr>item_key = BafsKey 1 1 0, item_value = [7, 8]\<rparr>], internal_items = []\<rparr>"

lemma sample_node_fits: "node_fits sample_node"
  by (simp add: node_fits_def leaf_size sample_node_def)

text \<open>C18: a B-tree node that fits its block is serialised without a panic and parsed back with
  every field and item unchanged; only the checksum field is filled in.\<close>

theorem node_roundtrip:
  assumes "node_fits n"
  shows "\<exists>blk c. serialise_node_to_block n = Ok blk \<and> length blk = block_size \<and>
    deserialise_node_from_block blk a = Ok (n\<lparr>node_checksum := c\<rparr>)"
  using node_codec [OF assms] by simp

theorem node_roundtrip_witness:
  "node_fits sample_node \<and> (\<exists>blk c. serialise_node_to_block sample_node = Ok blk \<and>
     deserialise_node_from_block blk 9 = Ok (sample_node\<lparr>node_checksum := c\<rparr>))"
  using node_roundtrip [OF sample_node_fits, of 9] sample_node_fits by blast

lemma deserialise_node_verified:
  assumes "deserialise_node_from_block blk a = Ok n"
  shows "length blk = 4096" "verify_crc32c (drop 4 blk) (from_le (slice 0 4 blk))"
  using assms by (auto simp: deserialise_node_from_block_def Let_def split: if_splits)

lemma deserialise_node_unverified:
  "length blk = 4096 \<Longrightarrow> \<not> verify_crc32c (drop 4 blk) (from_le (slice 0 4 blk)) \<Longrightarrow>
   deserialise_node_from_block blk a = Err (InvalidChecksum a)"
  by (simp add: deserialise_node_from_block_def Let_def)

text \<open>C19: damage to a tree node is reported, never parsed. If a block parses as a node, the block
  with up to four consecutive bytes changed, lying wholly inside the 4092 checksummed bytes or
  wholly inside the checksum field, is refused with \<open>InvalidChecksum\<close> for that block. A change
  across the boundary of the two is not covered.\<close>

theorem node_damage_detected:
  assumes "deserialise_node_from_block (pre @ burst @ post) a = Ok n"
    and "length burst' = length burst" "length burst \<le> 4" "burst' \<noteq> burst"
    and "4 \<le> length pre \<or> length pre + length burst \<le> 4"
  shows "deserialise_node_from_block (pre @ burst' @ post) a = Err (InvalidChecksum a)"
proof (rule deserialise_node_unverified)
  let ?x = "pre @ burst @ post" and ?y = "pre @ burst' @ post"
  have len: "length ?x = 4096" and x: "verify_crc32c (drop 4 ?x) (from_le (slice 0 4 ?x))"
    using deserialise_node_verified [OF assms(1)] by auto
  show "length ?y = 4096"
    using len assms(2) by simp
  show "\<not> verify_crc32c (drop 4 ?y) (from_le (slice 0 4 ?y))"
  proof (cases "4 \<le> length pre")
    case True
    then have "drop 4 ?x = drop 4 pre @ burst @ post" "drop 4 ?y = drop 4 pre @ burst' @ post"
      "slice 0 4 ?x = slice 0 4 ?y"
      by (simp_all add: slice_def)
    with x show ?thesis
      using crc32c_burst [of "drop 4 pre" burst post _ burst'] assms(2-4) by metis
  next
    case False
    with assms(5) have pre: "length pre + length burst \<le> 4" by simp
    let ?c = "\<lambda>b. slice 0 4 (pre @ b @ post)"
    have "drop 4 ?x = drop 4 ?y" "?c burst \<noteq> ?c burst'"
      using pre assms(2,4) by (auto simp: slice_def)
    moreover have "length (?c burst) = 4" "length (?c burst') = 4"
      using len assms(2) by auto
    ultimately have "drop 4 ?x = drop 4 ?y" "(from_le (?c burst) :: u32) \<noteq> from_le (?c burst')"
      using to_le_from_le_sized(2) by metis+
    with x show ?thesis
      by (simp add: verify_crc32c_def)
  qed
qed

theorem node_damage_detected_witness:
  "\<exists>blk n. serialise_node_to_block sample_node = Ok blk \<and> deserialise_node_from_block blk 9 = Ok n \<and>
     deserialise_node_from_block ((hd blk + 1) # tl blk) 9 = Err (InvalidChecksum 9)"
proof -
  obtain blk c where b: "serialise_node_to_block sample_node = Ok blk" "length blk = 4096"
      "deserialise_node_from_block blk 9 = Ok (sample_node\<lparr>node_checksum := c\<rparr>)"
    using node_codec [OF sample_node_fits] by blast
  then have blk: "blk = [] @ [hd blk] @ tl blk"
    by (cases blk) auto
  have "deserialise_node_from_block ([] @ [hd blk + 1] @ tl blk) 9 = Err (InvalidChecksum 9)"
    using node_damage_detected [of "[]" "[hd blk]" "tl blk" 9 _ "[hd blk + 1]"] b(3) blk by simp
  with b show ?thesis by auto
qed

section \<open>Node reads after node writes\<close>

lemma read_block_insert:
  "read_block D dev (map_insert a b cache) = (read_block D dev cache)(a := Ok b)"
  by (auto simp: read_block_def)

lemma write_tree_node_Ok:
  assumes "node_fits n"
  shows "\<exists>blk c. write_tree_node_to_cache n st
      = (Ok (), st\<lparr>dirty_cache := map_insert (self_block_address n) blk (dirty_cache st)\<rparr>) \<and>
    length blk = 4096 \<and>
    deserialise_node_from_block blk (self_block_address n) = Ok (n\<lparr>node_checksum := c\<rparr>)"
  using node_codec [OF assms, of "self_block_address n"]
  by (auto simp: write_tree_node_to_cache_def write_block_to_cache_def assertR_def)

end
