(* ===== verification/Btree.thy ===== *)
theory Btree
  imports Btree_Node
begin

text \<open>
  The operations of \<open>btree.rs\<close>: search, lookup, range scan, copy-on-write insertion with node
  splits, deletion and the creation of an empty tree.

  The recursion of the source follows child pointers read from disk, and nothing in the code bounds
  it on a corrupted, cyclic tree. Every recursive operation therefore has a first argument that
  bounds the depth; running out is the outcome \<open>OutOfFuel\<close>. \<open>Btree_Correct\<close> shows that on a
  well-formed tree any bound above its height is enough.
\<close>

section \<open>Binary search\<close>

text \<open>The search loop of \<open>core::slice\<close> that \<open>binary_search_by_key\<close> and \<open>partition_point\<close> share.
  \<open>SearchOk\<close> and \<open>SearchErr\<close> are the two arms of \<open>Result<usize, usize>\<close>.\<close>

datatype ordering = Less | Equal | Greater

definition cmp :: "'a::linorder \<Rightarrow> 'a \<Rightarrow> ordering" where
  "cmp a b = (if a < b then Less else if a = b then Equal else Greater)"

datatype search_result = SearchOk nat | SearchErr nat

function search_loop :: "('a \<Rightarrow> ordering) \<Rightarrow> 'a list \<Rightarrow> nat \<Rightarrow> nat \<Rightarrow> nat" where
  "search_loop f xs base len =
     (if len > 1
      then let half = len div 2; mid = base + half in
        search_loop f xs (if f (xs ! mid) = Greater then base else mid) (len - half)
      else base)"
  by pat_completeness auto
termination
  by (relation "measure (\<lambda>(f, xs, base, len). len)") auto

declare search_loop.simps [simp del]

definition binary_search_by :: "('a \<Rightarrow> ordering) \<Rightarrow> 'a list \<Rightarrow> search_result" where
  "binary_search_by f xs =
     (if xs = [] then SearchErr 0
      else let base = search_loop f xs 0 (length xs) in
        (case f (xs ! base) of
           Equal \<Rightarrow> SearchOk base
         | Less \<Rightarrow> SearchErr (base + 1)
         | Greater \<Rightarrow> SearchErr base))"

definition binary_search_by_key :: "'k::linorder \<Rightarrow> ('a \<Rightarrow> 'k) \<Rightarrow> 'a list \<Rightarrow> search_result" where
  "binary_search_by_key key f = binary_search_by (\<lambda>x. cmp (f x) key)"

definition partition_point :: "('a \<Rightarrow> bool) \<Rightarrow> 'a list \<Rightarrow> nat" where
  "partition_point p xs =
     (case binary_search_by (\<lambda>x. if p x then Less else Greater) xs of
        SearchOk i \<Rightarrow> i | SearchErr i \<Rightarrow> i)"

section \<open>Lookup\<close>

definition find_child_index_for_key :: "bafs_internal_item list \<Rightarrow> bafs_key \<Rightarrow> nat" where
  "find_child_index_for_key items target_key =
     partition_point (\<lambda>item. sep_key item \<le> target_key) items - 1"

primrec lookup_in_tree ::
  "nat \<Rightarrow> 'd block_device \<Rightarrow> 'd \<Rightarrow> dirty_cache \<Rightarrow> u64 \<Rightarrow> bafs_key \<Rightarrow> bytes option result" where
  "lookup_in_tree 0 D dev cache block target_key = OutOfFuel"
| "lookup_in_tree (Suc fuel) D dev cache block target_key =
     bindR (read_tree_node D dev cache block) (\<lambda>node.
     if level node = 0
     then (case binary_search_by_key target_key item_key (leaf_items node) of
             SearchOk index \<Rightarrow> Ok (Some (item_value (leaf_items node ! index)))
           | SearchErr _ \<Rightarrow> Ok None)
     else let child_index = find_child_index_for_key (internal_items node) target_key in
       if child_index < length (internal_items node)
       then lookup_in_tree fuel D dev cache (child_block (internal_items node ! child_index)) target_key
       else Panic)"

section \<open>Range iteration\<close>

primrec for_each :: "('a \<Rightarrow> 's \<Rightarrow> 's result) \<Rightarrow> 'a list \<Rightarrow> 's \<Rightarrow> 's result" where
  "for_each f [] s = Ok s"
| "for_each f (x # xs) s = bindR (f x s) (\<lambda>s'. for_each f xs s')"

primrec collect_range ::
  "nat \<Rightarrow> 'd block_device \<Rightarrow> 'd \<Rightarrow> dirty_cache \<Rightarrow> u64 \<Rightarrow> bafs_key \<Rightarrow> bafs_key \<Rightarrow> bafs_leaf_item list
    \<Rightarrow> bafs_leaf_item list result" where
  "collect_range 0 D dev cache block min_key max_key output = OutOfFuel"
| "collect_range (Suc fuel) D dev cache block min_key max_key output =
     bindR (read_tree_node D dev cache block) (\<lambda>node.
     if level node = 0
     then Ok (output @ filter (\<lambda>item. item_key item \<ge> min_key \<and> item_key item \<le> max_key) (leaf_items node))
     else let items = internal_items node in
       for_each (\<lambda>index output.
         let child_min_key = sep_key (items ! index);
             child_max_key = (if index + 1 < length items then sep_key (items ! (index + 1)) else MAX_KEY)
         in if child_max_key < min_key \<or> child_min_key > max_key then Ok output
            else collect_range fuel D dev cache (child_block (items ! index)) min_key max_key output)
         [0..<length items] output)"

definition iterate_tree_range ::
  "nat \<Rightarrow> 'd block_device \<Rightarrow> 'd \<Rightarrow> dirty_cache \<Rightarrow> u64 \<Rightarrow> bafs_key \<Rightarrow> bafs_key
    \<Rightarrow> bafs_leaf_item list result" where
  "iterate_tree_range fuel D dev cache root min_key max_key =
     collect_range fuel D dev cache root min_key max_key []"

section \<open>Insertion\<close>

text \<open>The two idioms \<open>let b = *next_free_block; *next_free_block += 1\<close> and
  \<open>freed_blocks.push(b)\<close>.\<close>

definition take_free_block :: "(cow_state, u64) sop" where
  "take_free_block =
     bindS (getS next_free_block) (\<lambda>block.
     bindS (liftS (add_u block 1)) (\<lambda>next.
     bindS (modifyS (\<lambda>st. st\<lparr>next_free_block := next\<rparr>)) (\<lambda>_.
     retS block)))"

definition push_freed_block :: "u64 \<Rightarrow> (cow_state, unit) sop" where
  "push_freed_block block = modifyS (\<lambda>st. st\<lparr>freed_blocks := freed_blocks st @ [block]\<rparr>)"

record split_result =
  split_key :: bafs_key
  split_child_block :: u64

fun split_left_loop :: "bafs_leaf_item list \<Rightarrow> nat \<Rightarrow> nat" where
  "split_left_loop items split_index =
     (if split_index > 1 \<and> leaf_serialised_size (take split_index items) > block_size
      then split_left_loop items (split_index - 1) else split_index)"

function split_right_loop :: "bafs_leaf_item list \<Rightarrow> nat \<Rightarrow> nat" where
  "split_right_loop items split_index =
     (if split_index < length items - 1 \<and> leaf_serialised_size (drop split_index items) > block_size
      then split_right_loop items (split_index + 1) else split_index)"
  by pat_completeness auto
termination
  by (relation "measure (\<lambda>(items, i). length items - i)") auto

declare split_left_loop.simps [simp del] split_right_loop.simps [simp del]

definition split_leaf_node ::
  "bafs_tree_node \<Rightarrow> u64 \<Rightarrow> u64 \<Rightarrow> (cow_state, bafs_tree_node \<times> bafs_tree_node \<times> bafs_key) sop" where
  "split_leaf_node full_node generation old_block_address =
     bindS (push_freed_block old_block_address) (\<lambda>_.
     let items = leaf_items full_node;
         split_index = split_left_loop items (length items div 2) in
     bindS (liftS (assertR (items \<noteq> []))) (\<lambda>_.
     let split_index = split_right_loop items split_index;
         right_items = drop split_index items in
     bindS (liftS (assertR (right_items \<noteq> []))) (\<lambda>_.
     bindS take_free_block (\<lambda>right_block.
     bindS take_free_block (\<lambda>left_block.
     let left_items = take split_index items;
         right_node = \<lparr>node_checksum = 0, level = 0, node_flags = 0,
           item_count = word_of_nat (length right_items), self_block_address = right_block,
           node_generation = generation, leaf_items = right_items, internal_items = []\<rparr>;
         left_node = full_node\<lparr>leaf_items := left_items, item_count := word_of_nat (length left_items),
           self_block_address := left_block, node_generation := generation\<rparr>
     in retS (left_node, right_node, item_key (hd right_items)))))))"

definition split_internal_node ::
  "bafs_tree_node \<Rightarrow> u64 \<Rightarrow> u64 \<Rightarrow> (cow_state, bafs_tree_node \<times> bafs_tree_node \<times> bafs_key) sop" where
  "split_internal_node full_node generation old_block_address =
     bindS (push_freed_block old_block_address) (\<lambda>_.
     let items = internal_items full_node;
         split_index = length items div 2 in
     bindS (liftS (assertR (split_index < length items))) (\<lambda>_.
     let promoted_item = items ! split_index;
         right_items = drop (split_index + 1) items in
     bindS take_free_block (\<lambda>right_block.
     bindS take_free_block (\<lambda>left_block.
     let right_items_with_first = promoted_item # right_items;
         left_items = take split_index items;
         right_node = \<lparr>node_checksum = 0, level = level full_node, node_flags = 0,
           item_count = word_of_nat (length right_items_with_first), self_block_address = right_block,
           node_generation = generation, leaf_items = [], internal_items = right_items_with_first\<rparr>;
         left_node = full_node\<lparr>internal_items := left_items,
           item_count := word_of_nat (length left_items),
           self_block_address := left_block, node_generation := generation\<rparr>
     in retS (left_node, right_node, sep_key promoted_item)))))"

text \<open>The common end of an operation on a node that needs no split: the copy-on-write clone.\<close>

definition write_cow_clone :: "bafs_tree_node \<Rightarrow> u64 \<Rightarrow> u64 \<Rightarrow> (cow_state, u64) sop" where
  "write_cow_clone node generation block_address =
     bindS (push_freed_block block_address) (\<lambda>_.
     bindS take_free_block (\<lambda>new_block.
     bindS (write_tree_node_to_cache
       (node\<lparr>self_block_address := new_block, node_generation := generation\<rparr>)) (\<lambda>_.
     retS new_block)))"

text \<open>The common end of an operation that splits a node: both halves are written.\<close>

definition write_split_nodes ::
  "bafs_tree_node \<times> bafs_tree_node \<times> bafs_key \<Rightarrow> (cow_state, u64 \<times> split_result option) sop" where
  "write_split_nodes = (\<lambda>(left_node, right_node, key).
     bindS (write_tree_node_to_cache left_node) (\<lambda>_.
     bindS (write_tree_node_to_cache right_node) (\<lambda>_.
     retS (self_block_address left_node,
       Some \<lparr>split_key = key, split_child_block = self_block_address right_node\<rparr>))))"

definition insert_into_leaf :: "bafs_tree_node \<Rightarrow> bafs_key \<Rightarrow> bytes \<Rightarrow> bafs_tree_node result" where
  "insert_into_leaf node key v =
     (case binary_search_by_key key item_key (leaf_items node) of
        SearchOk existing_index \<Rightarrow>
          Ok (node\<lparr>leaf_items := (leaf_items node)
            [existing_index := (leaf_items node ! existing_index)\<lparr>item_value := v\<rparr>]\<rparr>)
      | SearchErr insertion_index \<Rightarrow>
          bindR (add_u (item_count node) 1) (\<lambda>count.
          Ok (node\<lparr>leaf_items := take insertion_index (leaf_items node)
                @ \<lparr>item_key = key, item_value = v\<rparr> # drop insertion_index (leaf_items node),
              item_count := count\<rparr>)))"

definition update_child ::
  "bafs_tree_node \<Rightarrow> nat \<Rightarrow> u64 \<Rightarrow> u64 \<Rightarrow> bafs_tree_node" where
  "update_child node child_index new_child_block generation =
     node\<lparr>internal_items := (internal_items node)[child_index :=
       (internal_items node ! child_index)\<lparr>child_block := new_child_block, child_generation := generation\<rparr>]\<rparr>"

definition insert_promoted ::
  "bafs_tree_node \<Rightarrow> nat \<Rightarrow> split_result option \<Rightarrow> u64 \<Rightarrow> bafs_tree_node result" where
  "insert_promoted node child_index split generation =
     (case split of
        None \<Rightarrow> Ok node
      | Some promoted \<Rightarrow>
          let insert_position = child_index + 1 in
          bindR (add_u (item_count node) 1) (\<lambda>count.
          Ok (node\<lparr>internal_items := take insert_position (internal_items node)
                @ \<lparr>sep_key = split_key promoted, child_block = split_child_block promoted,
                   child_generation = generation\<rparr>
                # drop insert_position (internal_items node),
              item_count := count\<rparr>)))"

primrec insert_recursive ::
  "nat \<Rightarrow> 'd block_device \<Rightarrow> 'd \<Rightarrow> u64 \<Rightarrow> bafs_key \<Rightarrow> bytes \<Rightarrow> u64
    \<Rightarrow> (cow_state, u64 \<times> split_result option) sop" where
  "insert_recursive 0 D dev block_address key v generation = liftS OutOfFuel"
| "insert_recursive (Suc fuel) D dev block_address key v generation =
     bindS (getS dirty_cache) (\<lambda>cache.
     bindS (liftS (read_tree_node D dev cache block_address)) (\<lambda>node.
     if level node = 0
     then
       bindS (liftS (insert_into_leaf node key v)) (\<lambda>node.
       if \<not> leaf_node_would_overflow (leaf_items node)
       then bindS (write_cow_clone node generation block_address) (\<lambda>new_block. retS (new_block, None))
       else bindS (split_leaf_node node generation block_address) write_split_nodes)
     else
       let child_index = find_child_index_for_key (internal_items node) key in
       bindS (liftS (assertR (child_index < length (internal_items node)))) (\<lambda>_.
       bindS (insert_recursive fuel D dev (child_block (internal_items node ! child_index)) key v generation)
         (\<lambda>(new_child_block, split).
       bindS (liftS (insert_promoted (update_child node child_index new_child_block generation)
           child_index split generation)) (\<lambda>node.
       if length (internal_items node) \<le> INTERNAL_MAX_ITEMS
       then bindS (write_cow_clone node generation block_address) (\<lambda>new_block. retS (new_block, None))
       else bindS (split_internal_node node generation block_address) write_split_nodes)))))"

definition insert_into_tree ::
  "nat \<Rightarrow> 'd block_device \<Rightarrow> 'd \<Rightarrow> u64 \<Rightarrow> bafs_key \<Rightarrow> bytes \<Rightarrow> u64 \<Rightarrow> (cow_state, u64) sop" where
  "insert_into_tree fuel D dev root_block_address key v generation =
     bindS (insert_recursive fuel D dev root_block_address key v generation) (\<lambda>(new_root_address, split).
     case split of
       None \<Rightarrow> retS new_root_address
     | Some promoted_item \<Rightarrow>
         bindS (push_freed_block root_block_address) (\<lambda>_.
         bindS take_free_block (\<lambda>new_root_block.
         bindS (getS dirty_cache) (\<lambda>cache.
         bindS (liftS (read_tree_node D dev cache new_root_address)) (\<lambda>old_root_node.
         bindS (liftS
           (if level old_root_node = 0
            then (case leaf_items old_root_node of [] \<Rightarrow> Panic | item # _ \<Rightarrow> Ok (item_key item))
            else (case internal_items old_root_node of [] \<Rightarrow> Panic | item # _ \<Rightarrow> Ok (sep_key item))))
           (\<lambda>left_first_key.
         bindS (liftS (add_u (level old_root_node) 1)) (\<lambda>new_level.
         bindS (write_tree_node_to_cache
           \<lparr>node_checksum = 0, level = new_level, node_flags = 0, item_count = 2,
            self_block_address = new_root_block, node_generation = generation, leaf_items = [],
            internal_items =
              [\<lparr>sep_key = left_first_key, child_block = new_root_address, child_generation = generation\<rparr>,
               \<lparr>sep_key = split_key promoted_item, child_block = split_child_block promoted_item,
                child_generation = generation\<rparr>]\<rparr>) (\<lambda>_.
         retS new_root_block))))))))"

section \<open>Deletion\<close>

primrec delete_recursive ::
  "nat \<Rightarrow> 'd block_device \<Rightarrow> 'd \<Rightarrow> u64 \<Rightarrow> bafs_key \<Rightarrow> u64 \<Rightarrow> (cow_state, u64 \<times> bool) sop" where
  "delete_recursive 0 D dev block_address target_key generation = liftS OutOfFuel"
| "delete_recursive (Suc fuel) D dev block_address target_key generation =
     bindS (getS dirty_cache) (\<lambda>cache.
     bindS (liftS (read_tree_node D dev cache block_address)) (\<lambda>node.
     if level node = 0
     then
       (case binary_search_by_key target_key item_key (leaf_items node) of
          SearchOk index \<Rightarrow>
            bindS (liftS (sub_u (item_count node) 1)) (\<lambda>count.
            bindS (write_cow_clone
              (node\<lparr>leaf_items := take index (leaf_items node) @ drop (index + 1) (leaf_items node),
                 item_count := count\<rparr>) generation block_address) (\<lambda>new_block.
            retS (new_block, True)))
        | SearchErr _ \<Rightarrow> failS NotFound)
     else
       let child_index = find_child_index_for_key (internal_items node) target_key in
       bindS (liftS (assertR (child_index < length (internal_items node)))) (\<lambda>_.
       bindS (delete_recursive fuel D dev (child_block (internal_items node ! child_index))
           target_key generation) (\<lambda>(new_child_block, deleted).
       if \<not> deleted then failS NotFound
       else
         bindS (write_cow_clone (update_child node child_index new_child_block generation)
           generation block_address) (\<lambda>new_block.
         retS (new_block, True))))))"

definition delete_from_tree ::
  "nat \<Rightarrow> 'd block_device \<Rightarrow> 'd \<Rightarrow> u64 \<Rightarrow> bafs_key \<Rightarrow> u64 \<Rightarrow> (cow_state, u64) sop" where
  "delete_from_tree fuel D dev root_block_address target_key generation =
     bindS (delete_recursive fuel D dev root_block_address target_key generation)
       (\<lambda>(new_root, _). retS new_root)"

section \<open>Empty trees\<close>

definition create_empty_tree :: "u64 \<Rightarrow> u64 \<Rightarrow> (cow_state, unit) sop" where
  "create_empty_tree block_address generation =
     write_tree_node_to_cache
       \<lparr>node_checksum = 0, level = 0, node_flags = 0, item_count = 0,
        self_block_address = block_address, node_generation = generation,
        leaf_items = [], internal_items = []\<rparr>"

end
