(* ===== verification/Btree_Spec.thy ===== *)
theory Btree_Spec
  imports Btree
begin

text \<open>
  The abstract view of an on-disk tree: a tree of block addresses and items, the ordering and
  capacity invariant, the relation to the stored nodes, and the specification of the operations as
  functions on strictly sorted item lists.

  The separator of the first child of a node is not a bound: insertions of smaller keys go to the
  first child without changing it. The invariant accordingly constrains the first separator only
  relative to an explicit lower bound.
\<close>

section \<open>Binary search\<close>

lemma search_loop_eq:
  assumes "base < m" "m \<le> base + len"
    and "\<And>i. base < i \<Longrightarrow> i < base + len \<Longrightarrow> f (xs ! i) \<noteq> Greater \<longleftrightarrow> i < m"
  shows "search_loop f xs base len = m - 1"
  using assms
proof (induction f xs base len rule: search_loop.induct)
  case (1 f xs base len)
  show ?case
  proof (cases "len > 1")
    case True
    define half where "half = len div 2"
    have h: "0 < half" "half < len" "base + len - half > base"
      using True by (auto simp: half_def)
    show ?thesis
    proof (cases "f (xs ! (base + half)) = Greater")
      case gt: True
      then have "m \<le> base + half"
        using "1.prems"(3) [of "base + half"] h by auto
      then have "search_loop f xs base (len - half) = m - 1"
        using 1 True gt h unfolding half_def by (auto simp: Let_def)
      with True gt show ?thesis
        by (subst search_loop.simps) (simp add: Let_def half_def)
    next
      case False
      then have "base + half < m"
        using "1.prems"(3) [of "base + half"] h by auto
      then have "search_loop f xs (base + half) (len - half) = m - 1"
        using 1 True False h unfolding half_def by (auto simp: Let_def)
      with True False show ?thesis
        by (subst search_loop.simps) (simp add: Let_def half_def)
    qed
  next
    case False
    with "1.prems"(1,2) show ?thesis
      by (subst search_loop.simps) simp
  qed
qed

text \<open>The probe sequence never decides on the first element alone: whatever its comparison, the
  loop ends at the last of the other elements that is not greater, or at the first element.\<close>

lemma search_loop_partition:
  assumes "xs = y # as @ bs" "\<And>x. x \<in> set as \<Longrightarrow> f x \<noteq> Greater" "\<And>x. x \<in> set bs \<Longrightarrow> f x = Greater"
  shows "search_loop f xs 0 (length xs) = length as"
proof -
  have "f (xs ! i) \<noteq> Greater \<longleftrightarrow> i < Suc (length as)" if "0 < i" "i < length xs" for i
    using that assms by (cases i) (auto simp: nth_append dest: nth_mem)
  then show ?thesis
    using search_loop_eq [of 0 "Suc (length as)" "length xs" f xs] assms(1) by simp
qed

lemma partition_point_Cons:
  assumes "\<And>x. x \<in> set as \<Longrightarrow> p x" "\<And>x. x \<in> set bs \<Longrightarrow> \<not> p x"
  shows "partition_point p (y # as @ bs) - 1 = length as"
proof -
  let ?f = "\<lambda>x. if p x then Less else Greater"
  have loop: "search_loop ?f (y # as @ bs) 0 (Suc (length as + length bs)) = length as"
    using search_loop_partition [of "y # as @ bs" y as bs ?f] assms by simp
  show ?thesis
  proof (cases as)
    case Nil
    then show ?thesis
      using loop by (simp add: partition_point_def binary_search_by_def Let_def)
  next
    case (Cons a as')
    have "p ((y # as @ bs) ! length as)"
      using assms(1) Cons by (simp add: nth_append nth_Cons' del: nth_Cons_Suc)
    then show ?thesis
      using loop by (simp add: partition_point_def binary_search_by_def Let_def)
  qed
qed

lemma sorted_split_at:
  fixes k :: "'k::linorder"
  assumes "sorted_wrt (<) (map f xs)"
  shows "\<exists>as bs. xs = as @ bs \<and> (\<forall>x\<in>set as. f x \<le> k) \<and> (\<forall>x\<in>set bs. k < f x)"
  using assms
proof (induction xs)
  case (Cons x xs)
  show ?case
  proof (cases "f x \<le> k")
    case True
    from Cons obtain as bs where "xs = as @ bs" "\<forall>x\<in>set as. f x \<le> k" "\<forall>x\<in>set bs. k < f x"
      by auto
    with True show ?thesis
      by (intro exI [of _ "x # as"] exI [of _ bs]) simp
  next
    case False
    with Cons.prems have "\<forall>y\<in>set (x # xs). k < f y"
      by (auto simp: not_le intro: less_trans)
    then show ?thesis
      by (intro exI [of _ "[]"] exI [of _ "x # xs"]) simp
  qed
qed simp

lemma binary_search_sorted:
  assumes "sorted_wrt (<) (map f xs)"
  shows "(\<exists>as x bs. xs = as @ x # bs \<and> f x = k \<and> binary_search_by_key k f xs = SearchOk (length as)) \<or>
    (\<exists>as bs. xs = as @ bs \<and> (\<forall>x\<in>set as. f x < k) \<and> (\<forall>x\<in>set bs. k < f x) \<and>
       binary_search_by_key k f xs = SearchErr (length as))"
proof -
  let ?g = "\<lambda>x. cmp (f x) k"
  obtain as bs where s: "xs = as @ bs" "\<forall>x\<in>set as. f x \<le> k" "\<forall>x\<in>set bs. k < f x"
    using sorted_split_at [OF assms] by blast
  have gt: "?g x = Greater \<longleftrightarrow> k < f x" for x
    by (auto simp: cmp_def)
  show ?thesis
  proof (cases as rule: rev_cases)
    case Nil
    show ?thesis
    proof (cases bs)
      case Nil
      with \<open>as = []\<close> s show ?thesis
        by (simp add: binary_search_by_key_def binary_search_by_def)
    next
      case (Cons b bs')
      then have "search_loop ?g xs 0 (length xs) = 0"
        using s \<open>as = []\<close> search_loop_partition [of xs b "[]" bs' ?g] by (simp add: gt)
      then have "binary_search_by_key k f xs = SearchErr 0"
        using s Cons \<open>as = []\<close> gt [of b]
        by (simp add: binary_search_by_key_def binary_search_by_def)
      then show ?thesis
        using s \<open>as = []\<close> by auto
    qed
  next
    case (snoc as' x)
    have "search_loop ?g xs 0 (length xs) = length as'"
    proof (cases as')
      case Nil
      then show ?thesis
        using s snoc search_loop_partition [of xs x "[]" bs ?g] by (simp add: gt)
    next
      case (Cons y ys)
      then show ?thesis
        using s snoc search_loop_partition [of xs y "ys @ [x]" bs ?g] by (auto simp: gt not_less)
    qed
    then have r: "binary_search_by_key k f xs = (case ?g x of Equal \<Rightarrow> SearchOk (length as')
        | Less \<Rightarrow> SearchErr (length as' + 1) | Greater \<Rightarrow> SearchErr (length as'))"
      using s snoc by (simp add: binary_search_by_key_def binary_search_by_def nth_append Let_def)
    have "f y < f x" if "y \<in> set as'" for y
      using assms that s(1) snoc by (auto simp: sorted_wrt_append)
    moreover have "f x \<le> k"
      using s(2) snoc by simp
    ultimately consider "f x = k" | "f x < k" "\<forall>y\<in>set as. f y < k"
      using snoc by fastforce
    then show ?thesis
    proof cases
      case 1
      with r s(1) snoc show ?thesis by (auto simp: cmp_def)
    next
      case 2
      with r snoc have "binary_search_by_key k f xs = SearchErr (length as)"
        by (simp add: cmp_def)
      with 2 s(1,3) show ?thesis by blast
    qed
  qed
qed

section \<open>Sorted item lists\<close>

abbreviation item_keys :: "bafs_leaf_item list \<Rightarrow> bafs_key list" where
  "item_keys its \<equiv> map item_key its"

definition sorted_items :: "bafs_leaf_item list \<Rightarrow> bool" where
  "sorted_items its \<longleftrightarrow> sorted_wrt (<) (item_keys its)"

definition kv_map :: "bafs_leaf_item list \<Rightarrow> bafs_key \<Rightarrow> bytes option" where
  "kv_map its = map_of (map (\<lambda>i. (item_key i, item_value i)) its)"

fun upd_items :: "bafs_key \<Rightarrow> bytes \<Rightarrow> bafs_leaf_item list \<Rightarrow> bafs_leaf_item list" where
  "upd_items k v [] = [\<lparr>item_key = k, item_value = v\<rparr>]"
| "upd_items k v (i # its) =
     (if k < item_key i then \<lparr>item_key = k, item_value = v\<rparr> # i # its
      else if k = item_key i then i\<lparr>item_value := v\<rparr> # its
      else i # upd_items k v its)"

definition del_items :: "bafs_key \<Rightarrow> bafs_leaf_item list \<Rightarrow> bafs_leaf_item list" where
  "del_items k its = filter (\<lambda>i. item_key i \<noteq> k) its"

lemma sorted_items_simps [simp]:
  "sorted_items []"
  "sorted_items (i # its) \<longleftrightarrow> (\<forall>j\<in>set its. item_key i < item_key j) \<and> sorted_items its"
  by (auto simp: sorted_items_def)

lemma sorted_items_append:
  "sorted_items (xs @ ys) \<longleftrightarrow> sorted_items xs \<and> sorted_items ys \<and>
     (\<forall>x\<in>set xs. \<forall>y\<in>set ys. item_key x < item_key y)"
  by (auto simp: sorted_items_def sorted_wrt_append)

lemma keys_upd_items: "item_key ` set (upd_items k v its) = insert k (item_key ` set its)"
  by (induction k v its rule: upd_items.induct) auto

lemma sorted_upd_items: "sorted_items its \<Longrightarrow> sorted_items (upd_items k v its)"
proof (induction k v its rule: upd_items.induct)
  case (2 k v i its)
  have "\<forall>j\<in>set (upd_items k v its). item_key j \<in> insert k (item_key ` set its)"
    using keys_upd_items [of k v its] by blast
  with 2 show ?case by auto
qed simp

lemma kv_map_upd_items: "sorted_items its \<Longrightarrow> kv_map (upd_items k v its) = (kv_map its)(k \<mapsto> v)"
  by (induction k v its rule: upd_items.induct) (auto simp: kv_map_def fun_eq_iff)

lemma sorted_del_items: "sorted_items its \<Longrightarrow> sorted_items (del_items k its)"
  by (induction its) (auto simp: del_items_def)

lemma kv_map_del_items: "kv_map (del_items k its) = (kv_map its)(k := None)"
  by (induction its) (auto simp: del_items_def kv_map_def fun_eq_iff)

lemma kv_map_None: "kv_map its k = None \<longleftrightarrow> k \<notin> item_key ` set its"
  by (auto simp: kv_map_def map_of_eq_None_iff image_image)

lemma kv_map_Some:
  "sorted_items its \<Longrightarrow> kv_map its k = Some v \<longleftrightarrow> (\<exists>i\<in>set its. item_key i = k \<and> item_value i = v)"
  by (induction its) (auto simp: kv_map_def)

lemma kv_map_append: "kv_map (xs @ ys) = kv_map ys ++ kv_map xs"
  by (simp add: kv_map_def)

lemma upd_items_append:
  "\<forall>x\<in>set xs. item_key x < k \<Longrightarrow> upd_items k v (xs @ ys) = xs @ upd_items k v ys"
  by (induction xs) auto

lemma upd_items_append2:
  "\<forall>y\<in>set ys. k < item_key y \<Longrightarrow> upd_items k v (xs @ ys) = upd_items k v xs @ ys"
proof (induction xs)
  case Nil
  then show ?case by (cases ys) auto
qed auto

lemma upd_items_hit: "item_key x = k \<Longrightarrow> upd_items k v (x # ys) = x\<lparr>item_value := v\<rparr> # ys"
  by simp

lemma del_items_append [simp]: "del_items k (xs @ ys) = del_items k xs @ del_items k ys"
  by (simp add: del_items_def)

lemma del_items_other: "k \<notin> item_key ` set xs \<Longrightarrow> del_items k xs = xs"
  by (force simp: del_items_def filter_id_conv)

section \<open>Trees\<close>

datatype btree =
    BLeaf u64 "bafs_leaf_item list"
  | BNode u64 "(bafs_key \<times> btree) list"

type_synonym children = "(bafs_key \<times> btree) list"

fun root_of :: "btree \<Rightarrow> u64" where
  "root_of (BLeaf a its) = a"
| "root_of (BNode a cs) = a"

text \<open>The items in key order, and the block addresses of the nodes.\<close>

fun items_of :: "btree \<Rightarrow> bafs_leaf_item list" where
  "items_of (BLeaf a its) = its"
| "items_of (BNode a cs) = concat (map (\<lambda>c. items_of (snd c)) cs)"

fun nodes_of :: "btree \<Rightarrow> u64 list" where
  "nodes_of (BLeaf a its) = [a]"
| "nodes_of (BNode a cs) = a # concat (map (\<lambda>c. nodes_of (snd c)) cs)"

abbreviation items_ch :: "children \<Rightarrow> bafs_leaf_item list" where
  "items_ch cs \<equiv> concat (map (\<lambda>c. items_of (snd c)) cs)"

abbreviation nodes_ch :: "children \<Rightarrow> u64 list" where
  "nodes_ch cs \<equiv> concat (map (\<lambda>c. nodes_of (snd c)) cs)"

subsection \<open>Bounds\<close>

text \<open>A subtree holds keys from \<open>lo\<close> (inclusive) to \<open>hi\<close> (exclusive); \<open>None\<close> is no bound.\<close>

fun lo_le :: "bafs_key option \<Rightarrow> bafs_key \<Rightarrow> bool" where
  "lo_le None k = True"
| "lo_le (Some l) k = (l \<le> k)"

fun lo_less :: "bafs_key option \<Rightarrow> bafs_key \<Rightarrow> bool" where
  "lo_less None k = True"
| "lo_less (Some l) k = (l < k)"

fun less_hi :: "bafs_key \<Rightarrow> bafs_key option \<Rightarrow> bool" where
  "less_hi k None = True"
| "less_hi k (Some h) = (k < h)"

fun le_lo :: "bafs_key \<Rightarrow> bafs_key option \<Rightarrow> bool" where
  "le_lo k None = True"
| "le_lo k (Some l) = (k \<le> l)"

lemma lo_less_trans: "lo_less lo k \<Longrightarrow> k \<le> k' \<Longrightarrow> lo_less lo k'"
  by (cases lo) auto

lemma lo_less_le: "lo_le lo k \<Longrightarrow> k < k' \<Longrightarrow> lo_less lo k'"
  by (cases lo) auto

lemma lo_less_imp_le: "lo_less lo k \<Longrightarrow> k \<le> k' \<Longrightarrow> lo_le lo k'"
  by (cases lo) auto

lemma less_hi_trans: "k \<le> k' \<Longrightarrow> less_hi k' hi \<Longrightarrow> less_hi k hi"
  by (cases hi) auto

text \<open>\<open>ch_inv P lo hi cs\<close>: the children partition the range at the separators of all but the first
  child, and each child satisfies \<open>P\<close> on its part.\<close>

fun ch_inv :: "(bafs_key option \<Rightarrow> bafs_key option \<Rightarrow> btree \<Rightarrow> bool)
    \<Rightarrow> bafs_key option \<Rightarrow> bafs_key option \<Rightarrow> children \<Rightarrow> bool" where
  "ch_inv P lo hi [] = False"
| "ch_inv P lo hi [c] = P lo hi (snd c)"
| "ch_inv P lo hi (c # c' # cs) \<longleftrightarrow>
     P lo (Some (fst c')) (snd c) \<and> lo_less lo (fst c') \<and> less_hi (fst c') hi \<and>
     ch_inv P (Some (fst c')) hi (c' # cs)"

lemma ch_inv_not_Nil: "ch_inv P lo hi cs \<Longrightarrow> cs \<noteq> []"
  by auto

lemma ch_inv_hd: "ch_inv P lo hi (c # cs) \<Longrightarrow> snd c' = snd c \<Longrightarrow> ch_inv P lo hi (c' # cs)"
  by (cases cs) auto

lemma ch_inv_append:
  assumes "xs \<noteq> []" "ys \<noteq> []"
  shows "ch_inv P lo hi (xs @ ys) \<longleftrightarrow>
    ch_inv P lo (Some (fst (hd ys))) xs \<and> lo_less lo (fst (hd ys)) \<and> less_hi (fst (hd ys)) hi \<and>
    ch_inv P (Some (fst (hd ys))) hi ys"
  using assms
proof (induction P lo hi xs rule: ch_inv.induct)
  case (2 P lo hi c)
  then show ?case by (cases ys) auto
next
  case (3 P lo hi c c' cs)
  let ?k = "fst (hd ys)"
  have IH: "ch_inv P (Some (fst c')) hi ((c' # cs) @ ys) \<longleftrightarrow>
      ch_inv P (Some (fst c')) (Some ?k) (c' # cs) \<and> fst c' < ?k \<and> less_hi ?k hi \<and> ch_inv P (Some ?k) hi ys"
    using 3 by simp
  then show ?case
    by (auto intro: lo_less_trans less_hi_trans order.strict_implies_order)
qed simp

text \<open>The range of the child between \<open>xs\<close> and \<open>ys\<close>.\<close>

definition ch_lo :: "bafs_key option \<Rightarrow> children \<Rightarrow> bafs_key \<Rightarrow> bafs_key option" where
  "ch_lo lo xs k = (if xs = [] then lo else Some k)"

definition ch_hi :: "bafs_key option \<Rightarrow> children \<Rightarrow> bafs_key option" where
  "ch_hi hi ys = (if ys = [] then hi else Some (fst (hd ys)))"

lemma ch_inv_replace:
  assumes "ch_inv P lo hi (xs @ c # ys)" "zs \<noteq> []" "fst (hd zs) = fst c"
    and "ch_inv P (ch_lo lo xs (fst c)) (ch_hi hi ys) zs"
  shows "ch_inv P lo hi (xs @ zs @ ys)"
proof -
  have mid: "ch_inv P lo' hi (zs @ ys)"
    if "ch_inv P lo' hi (c # ys)" "ch_inv P lo' (ch_hi hi ys) zs" for lo'
    using that assms(2) ch_inv_append [of "[c]" ys P lo' hi]
    by (cases "ys = []") (auto simp: ch_hi_def ch_inv_append)
  show ?thesis
  proof (cases "xs = []")
    case True
    with assms(1,4) mid [of lo] show ?thesis by (simp add: ch_lo_def)
  next
    case False
    with assms mid [of "Some (fst c)"] show ?thesis
      by (simp add: ch_inv_append ch_lo_def)
  qed
qed

lemma ch_inv_child:
  assumes "ch_inv P lo hi (xs @ c # ys)"
  shows "P (ch_lo lo xs (fst c)) (ch_hi hi ys) (snd c)"
proof -
  have "P lo' (ch_hi hi ys) (snd c)" if "ch_inv P lo' hi (c # ys)" for lo'
    using that ch_inv_append [of "[c]" ys P lo' hi] by (cases "ys = []") (auto simp: ch_hi_def)
  with assms show ?thesis
    by (cases "xs = []") (auto simp: ch_lo_def ch_inv_append)
qed

lemma ch_inv_mono:
  "ch_inv P lo hi cs \<Longrightarrow>
   (\<And>lo hi c. c \<in> set cs \<Longrightarrow> P lo hi (snd c) \<Longrightarrow> Q lo hi (snd c)) \<Longrightarrow> ch_inv Q lo hi cs"
  by (induction P lo hi cs rule: ch_inv.induct) auto

lemma ch_inv_tl_sorted: "ch_inv P lo hi cs \<Longrightarrow> sorted_wrt (<) (map fst (tl cs)) \<and>
    (\<forall>c\<in>set (tl cs). lo_less lo (fst c) \<and> less_hi (fst c) hi)"
proof (induction P lo hi cs rule: ch_inv.induct)
  case (3 P lo hi c c' cs)
  then have "\<forall>d\<in>set cs. fst c' < fst d \<and> less_hi (fst d) hi" "sorted_wrt (<) (map fst cs)"
    by auto
  with "3.prems" show ?case
    by (auto intro: lo_less_trans order.strict_implies_order)
qed auto

subsection \<open>The invariant\<close>

text \<open>\<open>bt_inv Q h lo hi t\<close>: \<open>t\<close> has height \<open>h\<close>, its nodes are within capacity, its keys and separators
  satisfy \<open>Q\<close>, its leaves are strictly sorted and lie within the bounds. Where a subtree has a
  lower bound, its first separator does not exceed it. Every value is small enough that a leaf
  that overflows by one item splits into two leaves that fit.\<close>

definition small_value :: "bytes \<Rightarrow> bool" where
  "small_value v \<longleftrightarrow> length v \<le> 2011"

fun bt_inv :: "(bafs_key \<Rightarrow> bool) \<Rightarrow> nat \<Rightarrow> bafs_key option \<Rightarrow> bafs_key option \<Rightarrow> btree \<Rightarrow> bool" where
  "bt_inv Q 0 lo hi (BLeaf a its) \<longleftrightarrow>
     sorted_items its \<and> leaf_serialised_size its \<le> 4096 \<and>
     (\<forall>i\<in>set its. Q (item_key i) \<and> small_value (item_value i) \<and>
        lo_le lo (item_key i) \<and> less_hi (item_key i) hi)"
| "bt_inv Q (Suc h) lo hi (BNode a cs) \<longleftrightarrow>
     length cs \<le> 90 \<and> (\<forall>c\<in>set cs. Q (fst c)) \<and> ch_inv (bt_inv Q h) lo hi cs \<and> le_lo (fst (hd cs)) lo"
| "bt_inv Q h lo hi t = False"

lemma bt_inv_cases [consumes 1, case_names leaf node]:
  assumes "bt_inv Q h lo hi t"
  obtains a its where "h = 0" "t = BLeaf a its"
  | h' a cs where "h = Suc h'" "t = BNode a cs"
  using assms by (cases "(Q, h, lo, hi, t)" rule: bt_inv.cases) auto

lemma ch_inv_items:
  assumes "ch_inv P lo hi cs"
    and "\<And>lo hi t. P lo hi t \<Longrightarrow> sorted_items (items_of t) \<and>
      (\<forall>i\<in>set (items_of t). lo_le lo (item_key i) \<and> less_hi (item_key i) hi)"
  shows "sorted_items (items_ch cs) \<and>
    (\<forall>i\<in>set (items_ch cs). lo_le lo (item_key i) \<and> less_hi (item_key i) hi)"
  using assms
proof (induction P lo hi cs rule: ch_inv.induct)
  case (3 P lo hi c c' cs)
  have c: "sorted_items (items_of (snd c))"
    "\<forall>i\<in>set (items_of (snd c)). lo_le lo (item_key i) \<and> item_key i < fst c'"
    using "3.prems"(1) "3.prems"(2) [of lo "Some (fst c')" "snd c"] by auto
  have cs: "sorted_items (items_ch (c' # cs))"
    "\<forall>i\<in>set (items_ch (c' # cs)). fst c' \<le> item_key i \<and> less_hi (item_key i) hi"
    using "3.IH" [OF _ "3.prems"(2)] "3.prems"(1) by simp_all
  let ?A = "items_of (snd c)" and ?B = "items_ch (c' # cs)"
  have b: "lo_less lo (fst c')" "less_hi (fst c') hi"
    using "3.prems"(1) by auto
  have "item_key x < item_key y" if "x \<in> set ?A" "y \<in> set ?B" for x y
    using c(2) cs(2) that by (meson less_le_trans)
  then have 1: "sorted_items (?A @ ?B)"
    using c(1) cs(1) unfolding sorted_items_append by blast
  have 2: "lo_le lo (item_key i) \<and> less_hi (item_key i) hi" if "i \<in> set ?A" for i
    using c(2) that b by (meson less_hi_trans order.strict_implies_order)
  have 3: "lo_le lo (item_key i) \<and> less_hi (item_key i) hi" if "i \<in> set ?B" for i
    using cs(2) that b by (meson lo_less_imp_le)
  have "items_ch (c # c' # cs) = ?A @ ?B" by simp
  then show ?case
    using 1 2 3 by (metis Un_iff set_append)
qed auto

lemma bt_inv_items:
  "bt_inv Q h lo hi t \<Longrightarrow> sorted_items (items_of t) \<and>
    (\<forall>i\<in>set (items_of t). lo_le lo (item_key i) \<and> less_hi (item_key i) hi)"
proof (induction h arbitrary: lo hi t)
  case 0
  then show ?case by (cases t) auto
next
  case (Suc h)
  then obtain a cs where t: "t = BNode a cs"
    by (cases t) auto
  with Suc.prems have "ch_inv (bt_inv Q h) lo hi cs" by simp
  from ch_inv_items [OF this] Suc.IH show ?case
    by (simp add: t)
qed

lemma bt_inv_Q: "bt_inv Q h lo hi t \<Longrightarrow> i \<in> set (items_of t) \<Longrightarrow> Q (item_key i) \<and> small_value (item_value i)"
proof (induction h arbitrary: lo hi t)
  case 0
  then show ?case by (cases t) auto
next
  case (Suc h)
  then obtain a cs c where t: "t = BNode a cs" "c \<in> set cs" "i \<in> set (items_of (snd c))"
    by (cases t) auto
  moreover obtain lo' hi' where "bt_inv Q h lo' hi' (snd c)"
    using Suc.prems t ch_inv_child split_list [OF t(2)] by (metis bt_inv.simps(2))
  ultimately show ?case
    using Suc.IH by blast
qed

subsection \<open>The stored form\<close>

definition leaf_node :: "bafs_tree_node \<Rightarrow> bafs_leaf_item list \<Rightarrow> bool" where
  "leaf_node n its \<longleftrightarrow> level n = 0 \<and> leaf_items n = its \<and> internal_items n = [] \<and>
     item_count n = word_of_nat (length its)"

abbreviation item_ptr :: "bafs_internal_item \<Rightarrow> bafs_key \<times> u64" where
  "item_ptr i \<equiv> (sep_key i, child_block i)"

definition inner_node :: "bafs_tree_node \<Rightarrow> nat \<Rightarrow> (bafs_key \<times> u64) list \<Rightarrow> bool" where
  "inner_node n h ps \<longleftrightarrow> level n = word_of_nat h \<and> leaf_items n = [] \<and>
     map item_ptr (internal_items n) = ps \<and> item_count n = word_of_nat (length ps)"

abbreviation ptrs :: "children \<Rightarrow> (bafs_key \<times> u64) list" where
  "ptrs cs \<equiv> map (\<lambda>c. (fst c, root_of (snd c))) cs"

fun stored :: "(u64 \<Rightarrow> bafs_tree_node result) \<Rightarrow> nat \<Rightarrow> btree \<Rightarrow> bool" where
  "stored rd 0 (BLeaf a its) \<longleftrightarrow> (\<exists>n. rd a = Ok n \<and> leaf_node n its)"
| "stored rd (Suc h) (BNode a cs) \<longleftrightarrow> Suc h < 256 \<and>
     (\<exists>n. rd a = Ok n \<and> inner_node n (Suc h) (ptrs cs)) \<and> (\<forall>c\<in>set cs. stored rd h (snd c))"
| "stored rd h t = False"

lemma stored_cong:
  "stored rd h t \<Longrightarrow> (\<And>a. a \<in> set (nodes_of t) \<Longrightarrow> rd' a = rd a) \<Longrightarrow> stored rd' h t"
proof (induction rd h t rule: stored.induct)
  case (2 rd h a cs)
  then show ?case by (auto simp: image_iff)
qed auto

lemma level_nonzero: "inner_node n (Suc h) ps \<Longrightarrow> Suc h < 256 \<Longrightarrow> level n \<noteq> 0"
proof
  assume "inner_node n (Suc h) ps" "Suc h < 256" "level n = 0"
  then have "(word_of_nat (Suc h) :: u8) = 0"
    by (simp add: inner_node_def)
  then have "unat (word_of_nat (Suc h) :: u8) = 0" by simp
  with \<open>Suc h < 256\<close> show False
    by (simp add: unat_of_nat del: of_nat_Suc)
qed

subsection \<open>Routing\<close>

text \<open>The child a search for \<open>key\<close> descends into.\<close>

definition routes :: "bafs_key \<Rightarrow> children \<Rightarrow> bafs_key \<times> btree \<Rightarrow> children \<Rightarrow> bool" where
  "routes key xs c ys \<longleftrightarrow> (xs \<noteq> [] \<longrightarrow> fst c \<le> key) \<and> (ys \<noteq> [] \<longrightarrow> key < fst (hd ys))"

lemma find_child_index:
  assumes "map sep_key items = map fst (c # as @ bs)"
    and "\<forall>x\<in>set as. fst x \<le> key" "\<forall>x\<in>set bs. key < fst x"
  shows "find_child_index_for_key items key = length as"
proof -
  obtain i ias ibs where items: "items = i # ias @ ibs" "map sep_key ias = map fst as"
      "map sep_key ibs = map fst bs"
    using assms(1) by (auto simp: map_eq_append_conv map_eq_Cons_conv)
  have "\<forall>x\<in>set ias. sep_key x \<le> key" "\<forall>x\<in>set ibs. \<not> sep_key x \<le> key"
    using assms(2,3) items(2,3) by (metis image_eqI image_iff list.set_map not_le)+
  moreover have "length ias = length as"
    using items(2) by (metis length_map)
  ultimately show ?thesis
    unfolding find_child_index_for_key_def items(1)
    by (subst partition_point_Cons) auto
qed

lemma route_exists:
  assumes "inner_node n h (ptrs cs)" "ch_inv P lo hi cs"
  obtains xs c ys where "cs = xs @ c # ys" "routes key xs c ys"
    "find_child_index_for_key (internal_items n) key = length xs"
    "length xs < length (internal_items n)"
    "child_block (internal_items n ! length xs) = root_of (snd c)"
proof -
  obtain c0 rest where cs: "cs = c0 # rest"
    using assms(2) by (cases cs) auto
  have mp: "map item_ptr (internal_items n) = ptrs cs"
    using assms(1) by (simp add: inner_node_def)
  have len: "length (internal_items n) = length cs"
    using arg_cong [OF mp, of length] by simp
  have seps: "map sep_key (internal_items n) = map fst cs"
    using arg_cong [OF mp, of "map fst"] by (simp add: comp_def)
  have ptr: "child_block (internal_items n ! i) = root_of (snd (cs ! i))" if "i < length cs" for i
    using arg_cong [OF mp, of "\<lambda>xs. xs ! i"] that len by simp
  obtain as bs where r: "rest = as @ bs" "\<forall>x\<in>set as. fst x \<le> key" "\<forall>x\<in>set bs. key < fst x"
    using sorted_split_at [of fst rest key] ch_inv_tl_sorted [OF assms(2)]
    unfolding cs list.sel by blast
  have ix: "find_child_index_for_key (internal_items n) key = length as"
    using find_child_index [OF _ r(2,3), of "internal_items n" c0] seps cs r(1) by simp
  have hi: "bs \<noteq> [] \<Longrightarrow> key < fst (hd bs)"
    using r(3) by simp
  show thesis
  proof (cases as rule: rev_cases)
    case Nil
    then show thesis
      using ix ptr [of 0] len hi cs r(1)
      by (intro that [of "[]" c0 bs]) (simp_all add: routes_def)
  next
    case (snoc as' c)
    then have "fst c \<le> key" "cs = (c0 # as') @ c # bs"
      using r(1,2) cs by simp_all
    then show thesis
      using ix ptr [of "length as"] len hi snoc
      by (intro that [of "c0 # as'" c bs]) (simp_all add: routes_def nth_append)
  qed
qed

lemma route_items:
  assumes "ch_inv (bt_inv Q h) lo hi (xs @ c # ys)" "routes key xs c ys"
  shows "\<forall>i\<in>set (items_ch xs). item_key i < key" "\<forall>i\<in>set (items_ch ys). key < item_key i"
proof -
  have items: "ch_inv (bt_inv Q h) lo' hi' cs \<Longrightarrow>
      \<forall>i\<in>set (items_ch cs). lo_le lo' (item_key i) \<and> less_hi (item_key i) hi'" for lo' hi' cs
    using ch_inv_items [of "bt_inv Q h" lo' hi' cs] bt_inv_items by blast
  show "\<forall>i\<in>set (items_ch xs). item_key i < key"
  proof (cases "xs = []")
    case False
    then have "ch_inv (bt_inv Q h) lo (Some (fst c)) xs"
      using assms(1) by (simp add: ch_inv_append)
    moreover have "fst c \<le> key"
      using assms(2) False by (simp add: routes_def)
    ultimately show ?thesis
      using items [of lo "Some (fst c)" xs] by (metis less_hi.simps(2) less_le_trans)
  qed simp
  show "\<forall>i\<in>set (items_ch ys). key < item_key i"
  proof (cases "ys = []")
    case False
    then have "ch_inv (bt_inv Q h) (Some (fst (hd ys))) hi ys"
      using assms(1) ch_inv_append [of "xs @ [c]" ys "bt_inv Q h" lo hi] by simp
    moreover have "key < fst (hd ys)"
      using assms(2) False by (simp add: routes_def)
    ultimately show ?thesis
      using items [of "Some (fst (hd ys))" hi ys] by (metis lo_le.simps(2) less_le_trans)
  qed simp
qed

lemma route_bounds:
  "routes key xs c ys \<Longrightarrow> lo_le lo key \<Longrightarrow> less_hi key hi \<Longrightarrow>
   lo_le (ch_lo lo xs (fst c)) key \<and> less_hi key (ch_hi hi ys)"
  by (auto simp: routes_def ch_lo_def ch_hi_def)

lemma items_ch_split: "items_ch (xs @ c # ys) = items_ch xs @ items_of (snd c) @ items_ch ys"
  by simp

lemma kv_map_route:
  assumes "\<forall>i\<in>set as. item_key i < key" "\<forall>i\<in>set bs. key < item_key i"
  shows "kv_map (as @ its @ bs) key = kv_map its key"
proof -
  have "kv_map as key = None" "kv_map bs key = None"
    using assms by (auto simp: kv_map_None)
  then show ?thesis
    by (simp add: kv_map_append map_add_def split: option.splits)
qed

section \<open>Width and height\<close>

text \<open>An internal node is split at 91 children, so every internal node below the root has at least
  45 of them: children are never removed. A tree of height \<open>h\<close> therefore has at least \<open>45 ^ (h - 1)\<close>
  nodes, and as their block addresses differ, no tree is higher than 12.\<close>

fun wide :: "btree \<Rightarrow> bool" where
  "wide (BLeaf a its) = True"
| "wide (BNode a cs) \<longleftrightarrow> 45 \<le> length cs \<and> (\<forall>c\<in>set cs. wide (snd c))"

fun wide_root :: "btree \<Rightarrow> bool" where
  "wide_root (BLeaf a its) = True"
| "wide_root (BNode a cs) \<longleftrightarrow> (\<forall>c\<in>set cs. wide (snd c))"

lemma wide_imp_root: "wide t \<Longrightarrow> wide_root t"
  by (cases t) auto

lemma wide_leaf: "bt_inv Q 0 lo hi t \<Longrightarrow> wide t"
  by (cases t) auto

lemma sum_list_ge: "(\<And>x. x \<in> set xs \<Longrightarrow> n \<le> f x) \<Longrightarrow> length xs * n \<le> sum_list (map f xs)" for n :: nat
  by (induction xs) (auto simp: add_mono)

lemma wide_nodes: "stored rd h t \<Longrightarrow> wide t \<Longrightarrow> 45 ^ h \<le> length (nodes_of t)"
proof (induction h arbitrary: t)
  case 0
  then show ?case by (cases t) auto
next
  case (Suc h)
  then obtain a cs where t: "t = BNode a cs" by (cases t) auto
  then have "45 ^ h \<le> length (nodes_of (snd c))" if "c \<in> set cs" for c
    using Suc that by auto
  then have "length cs * 45 ^ h \<le> sum_list (map (\<lambda>c. length (nodes_of (snd c))) cs)"
    by (rule sum_list_ge)
  moreover have "45 * 45 ^ h \<le> length cs * 45 ^ h"
    using Suc.prems(2) t by simp
  moreover have "length (nodes_of t) = Suc (sum_list (map (\<lambda>c. length (nodes_of (snd c))) cs))"
    by (simp add: t length_concat comp_def)
  ultimately show ?case
    unfolding power_Suc by linarith
qed

lemma height_bound:
  assumes "stored rd h t" "bt_inv Q h lo hi t" "wide_root t" "distinct (nodes_of t)"
  shows "h \<le> 12"
proof (cases h)
  case (Suc h')
  then obtain a cs where t: "t = BNode a cs" using assms(1) by (cases t) auto
  obtain c where c: "c \<in> set cs"
    using assms(2) Suc t by (cases cs) auto
  have "45 ^ h' \<le> length (nodes_of (snd c))"
    using assms(1,3) Suc t c by (intro wide_nodes [of rd]) auto
  also have "\<dots> \<le> length (nodes_of t)"
    using member_le_sum_list [of "length (nodes_of (snd c))" "map (\<lambda>c. length (nodes_of (snd c))) cs"] c
    by (simp add: t length_concat comp_def)
  also have "\<dots> = card (set (nodes_of t))"
    using distinct_card [OF assms(4)] by simp
  also have "\<dots> \<le> card (UNIV :: u64 set)"
    by (intro card_mono) auto
  finally have "45 ^ h' \<le> (2 :: nat) ^ 64"
    by (simp add: card_word)
  then have "h' < 12"
  proof (rule contrapos_pp)
    assume "\<not> h' < 12"
    then have "(45 :: nat) ^ 12 \<le> 45 ^ h'" by (intro power_increasing) auto
    then show "\<not> 45 ^ h' \<le> (2 :: nat) ^ 64" by simp
  qed
  with Suc show ?thesis by simp
qed simp

end
