(* ===== verification/Btree_Read.thy ===== *)
theory Btree_Read
  imports Btree_Spec
begin

text \<open>
  Correctness of the read-only tree operations: on a well-formed stored tree, with a depth bound
  above its height, lookup returns the value of the key in the sorted item list and the range scan
  returns exactly the items of the range, in order.
\<close>

section \<open>Lookup\<close>

lemma lookup_in_tree_correct:
  assumes "stored (read_tree_node D dev cache) h t" "bt_inv Q h lo hi t" "h < fuel"
  shows "lookup_in_tree fuel D dev cache (root_of t) key = Ok (kv_map (items_of t) key)"
  using assms
proof (induction h arbitrary: fuel lo hi t)
  case 0
  then obtain f a its n where f: "fuel = Suc f" and t: "t = BLeaf a its"
      and n: "read_tree_node D dev cache a = Ok n" "leaf_node n its"
    by (cases fuel; cases t) auto
  have sorted: "sorted_wrt (<) (item_keys its)" and s: "sorted_items its"
    using "0.prems"(2) t by (auto simp: sorted_items_def)
  from binary_search_sorted [OF sorted, of key] show ?case
  proof (elim disjE exE conjE)
    fix as x bs
    assume "its = as @ x # bs" "item_key x = key"
      "binary_search_by_key key item_key its = SearchOk (length as)"
    then show ?thesis
      using n f t s kv_map_Some [OF s, of key "item_value x"] by (simp add: leaf_node_def)
  next
    fix as bs
    assume *: "its = as @ bs" "\<forall>x\<in>set as. item_key x < key" "\<forall>x\<in>set bs. key < item_key x"
      "binary_search_by_key key item_key its = SearchErr (length as)"
    then have "kv_map its key = None"
      by (auto simp: kv_map_None)
    then show ?thesis
      using n f t * by (simp add: leaf_node_def)
  qed
next
  case (Suc h)
  then obtain f a cs n where f: "fuel = Suc f" and t: "t = BNode a cs"
      and n: "read_tree_node D dev cache a = Ok n" "inner_node n (Suc h) (ptrs cs)" and h: "Suc h < 256"
      and st: "\<forall>c\<in>set cs. stored (read_tree_node D dev cache) h (snd c)"
    by (cases fuel; cases t) auto
  have inv: "ch_inv (bt_inv Q h) lo hi cs"
    using Suc.prems(2) t by simp
  obtain xs c ys where r: "cs = xs @ c # ys" "routes key xs c ys"
      "find_child_index_for_key (internal_items n) key = length xs"
      "length xs < length (internal_items n)"
      "child_block (internal_items n ! length xs) = root_of (snd c)"
    using route_exists [OF n(2) inv] .
  have "lookup_in_tree f D dev cache (root_of (snd c)) key = Ok (kv_map (items_of (snd c)) key)"
    using Suc.IH [OF _ ch_inv_child [OF inv [unfolded r(1)]]] st r(1) Suc.prems(3) f by simp
  moreover have "kv_map (items_of t) key = kv_map (items_of (snd c)) key"
    using route_items [OF inv [unfolded r(1)] r(2)]
    unfolding t r(1) items_of.simps items_ch_split by (rule kv_map_route)
  ultimately show ?case
    using f t n h r level_nonzero [OF n(2) h] by (simp add: Let_def)
qed

section \<open>Range scans\<close>

lemma for_each_map:
  "(\<And>x s. x \<in> set xs \<Longrightarrow> f x s = Ok (s @ g x)) \<Longrightarrow> for_each f xs s = Ok (s @ concat (map g xs))"
  by (induction xs arbitrary: s) auto

lemma map_index: "map (\<lambda>i. f (xs ! i)) [0..<length xs] = map f xs"
  by (rule nth_equalityI) simp_all

definition in_range :: "bafs_key \<Rightarrow> bafs_key \<Rightarrow> bafs_leaf_item \<Rightarrow> bool" where
  "in_range min_key max_key i \<longleftrightarrow> min_key \<le> item_key i \<and> item_key i \<le> max_key"

text \<open>The scan prunes by the first separator too, so a tree without a lower bound must have no
  separator above the range.\<close>

definition scannable :: "(bafs_key \<Rightarrow> bool) \<Rightarrow> bafs_key option \<Rightarrow> bafs_key \<Rightarrow> bool" where
  "scannable Q lo max_key \<longleftrightarrow> lo \<noteq> None \<or> (\<forall>k. Q k \<longrightarrow> k \<le> max_key)"

lemma pruned_child:
  assumes inv: "ch_inv (bt_inv Q h) lo hi cs" and "i < length cs"
    and first: "le_lo (fst (hd cs)) lo" and Q: "\<forall>c\<in>set cs. Q (fst c)" and sc: "scannable Q lo mx"
    and prune: "(if i + 1 < length cs then fst (cs ! (i + 1)) else MAX_KEY) < mn \<or> fst (cs ! i) > mx"
    and j: "j \<in> set (items_of (snd (cs ! i)))"
  shows "\<not> in_range mn mx j"
proof -
  have cs: "cs = take i cs @ (cs ! i) # drop (Suc i) cs"
    using assms(2) by (simp add: id_take_nth_drop)
  have b: "lo_le (ch_lo lo (take i cs) (fst (cs ! i))) (item_key j)"
      "less_hi (item_key j) (ch_hi hi (drop (Suc i) cs))"
    using ch_inv_child [of "bt_inv Q h" lo hi "take i cs" "cs ! i" "drop (Suc i) cs"] inv cs bt_inv_items j
    by metis+
  from prune show ?thesis
  proof
    assume p: "(if i + 1 < length cs then fst (cs ! (i + 1)) else MAX_KEY) < mn"
    then have "i + 1 < length cs"
      using le_MAX_KEY [of mn] by (auto split: if_splits simp: not_less [symmetric])
    with p b(2) show ?thesis
      by (auto simp: ch_hi_def in_range_def hd_drop_conv_nth)
  next
    assume p: "fst (cs ! i) > mx"
    show ?thesis
    proof (cases "i = 0")
      case True
      have "Q (fst (cs ! i))" using Q assms(2) by simp
      with p sc have "lo \<noteq> None" by (auto simp: scannable_def)
      with True p assms(2) first b(1) show ?thesis
        by (auto simp: in_range_def ch_lo_def hd_conv_nth)
    next
      case False
      with p b(1) assms(2) show ?thesis
        by (auto simp: ch_lo_def in_range_def split: if_splits)
    qed
  qed
qed

lemma scannable_child: "scannable Q lo mx \<Longrightarrow> scannable Q (ch_lo lo xs k) mx"
  by (auto simp: scannable_def ch_lo_def)

lemma collect_range_correct:
  assumes "stored (read_tree_node D dev cache) h t" "bt_inv Q h lo hi t" "h < fuel" "scannable Q lo mx"
  shows "collect_range fuel D dev cache (root_of t) mn mx out
    = Ok (out @ filter (in_range mn mx) (items_of t))"
  using assms
proof (induction h arbitrary: fuel lo hi t out)
  case 0
  then obtain f a its n where "fuel = Suc f" "t = BLeaf a its"
      "read_tree_node D dev cache a = Ok n" "leaf_node n its"
    by (cases fuel; cases t) auto
  then show ?case
    by (simp add: leaf_node_def in_range_def)
next
  case (Suc h)
  then obtain f a cs n where f: "fuel = Suc f" and t: "t = BNode a cs"
      and n: "read_tree_node D dev cache a = Ok n" "inner_node n (Suc h) (ptrs cs)" and h: "Suc h < 256"
      and st: "\<forall>c\<in>set cs. stored (read_tree_node D dev cache) h (snd c)"
    by (cases fuel; cases t) auto
  have inv: "ch_inv (bt_inv Q h) lo hi cs" and first: "le_lo (fst (hd cs)) lo"
      and Q: "\<forall>c\<in>set cs. Q (fst c)"
    using Suc.prems(2) t by auto
  let ?items = "internal_items n"
  let ?g = "\<lambda>i. filter (in_range mn mx) (items_of (snd (cs ! i)))"
  have mp: "map item_ptr ?items = ptrs cs"
    using n(2) by (simp add: inner_node_def)
  have len: "length ?items = length cs"
    using arg_cong [OF mp, of length] by simp
  have nth: "sep_key (?items ! i) = fst (cs ! i)" "child_block (?items ! i) = root_of (snd (cs ! i))"
    if "i < length cs" for i
    using arg_cong [OF mp, of "\<lambda>xs. xs ! i"] that len by simp_all
  have IH: "collect_range f D dev cache (root_of (snd (cs ! i))) mn mx out = Ok (out @ ?g i)"
    if "i < length cs" for i out
  proof (rule Suc.IH)
    have cs: "cs = take i cs @ (cs ! i) # drop (Suc i) cs"
      using that by (simp add: id_take_nth_drop)
    show "bt_inv Q h (ch_lo lo (take i cs) (fst (cs ! i))) (ch_hi hi (drop (Suc i) cs)) (snd (cs ! i))"
      using ch_inv_child [of "bt_inv Q h" lo hi "take i cs" "cs ! i" "drop (Suc i) cs"] inv cs by metis
    show "stored (read_tree_node D dev cache) h (snd (cs ! i))" "h < f"
      using st that Suc.prems(3) f by auto
    show "scannable Q (ch_lo lo (take i cs) (fst (cs ! i))) mx"
      using Suc.prems(4) by (rule scannable_child)
  qed
  have "for_each (\<lambda>index output.
         let child_min_key = sep_key (?items ! index);
             child_max_key = (if index + 1 < length ?items then sep_key (?items ! (index + 1)) else MAX_KEY)
         in if child_max_key < mn \<or> child_min_key > mx then Ok output
            else collect_range f D dev cache (child_block (?items ! index)) mn mx output)
         [0..<length ?items] out = Ok (out @ concat (map ?g [0..<length ?items]))"
  proof (rule for_each_map)
    fix i out assume "i \<in> set [0..<length ?items]"
    then have i: "i < length cs" using len by simp
    let ?p = "(if i + 1 < length cs then fst (cs ! (i + 1)) else MAX_KEY) < mn \<or> fst (cs ! i) > mx"
    have "?g i = []" if ?p
      using pruned_child [OF inv i first Q Suc.prems(4) that] by (auto simp: filter_empty_conv)
    then show "(let child_min_key = sep_key (?items ! i);
             child_max_key = (if i + 1 < length ?items then sep_key (?items ! (i + 1)) else MAX_KEY)
         in if child_max_key < mn \<or> child_min_key > mx then Ok out
            else collect_range f D dev cache (child_block (?items ! i)) mn mx out) = Ok (out @ ?g i)"
      using IH [OF i] nth i len by (auto simp: Let_def)
  qed
  moreover have "concat (map ?g [0..<length ?items]) = filter (in_range mn mx) (items_of t)"
    using len t map_index [of "\<lambda>c. filter (in_range mn mx) (items_of (snd c))" cs]
    by (simp add: filter_concat comp_def)
  ultimately show ?case
    using f t n level_nonzero [OF n(2) h] by (simp add: Let_def)
qed

end
