(* ===== verification/Btree_Write.thy ===== *)
theory Btree_Write
  imports Btree_Read "HOL-Library.Multiset"
begin

text \<open>
  Correctness of insertion (with node splits and root growth) and deletion: both are total on
  well-formed trees, compute the specified sorted item list, keep the invariant, change no block
  below the bump pointer, and account for every block they allocate or supersede.
\<close>

section \<open>Copy-on-write steps\<close>

abbreviation rd :: "'d block_device \<Rightarrow> 'd \<Rightarrow> cow_state \<Rightarrow> u64 \<Rightarrow> bafs_tree_node result" where
  "rd D dev st \<equiv> read_tree_node D dev (dirty_cache st)"

definition fresh :: "u64 \<Rightarrow> u64 \<Rightarrow> u64 list" where
  "fresh a b = map word_of_nat [unat a..<unat b]"

definition cache_ok :: "dirty_cache \<Rightarrow> bool" where
  "cache_ok cache \<longleftrightarrow> cache_sorted cache \<and> (\<forall>(a, b)\<in>set cache. length b = 4096)"

text \<open>An operation only writes blocks at or above the bump pointer, advances the pointer past
  them, and puts at most as many blocks on the freed list as it takes.\<close>

definition cow_step :: "cow_state \<Rightarrow> cow_state \<Rightarrow> bool" where
  "cow_step st st' \<longleftrightarrow> unat (next_free_block st) \<le> unat (next_free_block st') \<and>
     (\<forall>a. unat a < unat (next_free_block st) \<or> unat (next_free_block st') \<le> unat a \<longrightarrow>
        map_of (dirty_cache st') a = map_of (dirty_cache st) a) \<and>
     (cache_ok (dirty_cache st) \<longrightarrow> cache_ok (dirty_cache st')) \<and>
     (\<exists>S. freed_blocks st' = freed_blocks st @ S \<and>
        length S + unat (next_free_block st) \<le> unat (next_free_block st'))"

definition below :: "cow_state \<Rightarrow> u64 list \<Rightarrow> bool" where
  "below st as \<longleftrightarrow> (\<forall>a\<in>set as. unat a < unat (next_free_block st))"

lemma cow_step_refl [simp]: "cow_step st st"
  by (simp add: cow_step_def)

lemma cow_step_trans [trans]:
  assumes "cow_step s1 s2" "cow_step s2 s3"
  shows "cow_step s1 s3"
proof -
  have le: "unat (next_free_block s1) \<le> unat (next_free_block s2)"
      "unat (next_free_block s2) \<le> unat (next_free_block s3)"
    using assms by (simp_all add: cow_step_def)
  have "map_of (dirty_cache s3) a = map_of (dirty_cache s1) a"
    if "unat a < unat (next_free_block s1) \<or> unat (next_free_block s3) \<le> unat a" for a
  proof -
    have "unat a < unat (next_free_block s2) \<or> unat (next_free_block s3) \<le> unat a"
        "unat a < unat (next_free_block s1) \<or> unat (next_free_block s2) \<le> unat a"
      using that le by linarith+
    then have "map_of (dirty_cache s3) a = map_of (dirty_cache s2) a"
        "map_of (dirty_cache s2) a = map_of (dirty_cache s1) a"
      using assms unfolding cow_step_def by blast+
    then show ?thesis by simp
  qed
  moreover obtain S S' where "freed_blocks s2 = freed_blocks s1 @ S" "freed_blocks s3 = freed_blocks s2 @ S'"
      "length S + unat (next_free_block s1) \<le> unat (next_free_block s2)"
      "length S' + unat (next_free_block s2) \<le> unat (next_free_block s3)"
    using assms unfolding cow_step_def by blast
  then have "freed_blocks s3 = freed_blocks s1 @ (S @ S') \<and>
      length (S @ S') + unat (next_free_block s1) \<le> unat (next_free_block s3)" by simp
  ultimately show ?thesis
    using assms le_trans [OF le] unfolding cow_step_def by blast
qed

lemma cow_step_next: "cow_step st st' \<Longrightarrow> unat (next_free_block st) \<le> unat (next_free_block st')"
  by (simp add: cow_step_def)

lemma cow_step_read_block:
  "cow_step st st' \<Longrightarrow> unat a < unat (next_free_block st) \<Longrightarrow>
   read_block D dev (dirty_cache st') a = read_block D dev (dirty_cache st) a"
  by (simp add: cow_step_def read_block_def)

lemma cow_step_rd: "cow_step st st' \<Longrightarrow> unat a < unat (next_free_block st) \<Longrightarrow> rd D dev st' a = rd D dev st a"
  by (simp add: read_tree_node_def cow_step_read_block)

lemma below_step: "cow_step st st' \<Longrightarrow> below st as \<Longrightarrow> below st' as"
  by (auto simp: below_def dest!: cow_step_next)

lemma stored_step:
  "cow_step st st' \<Longrightarrow> below st (nodes_of t) \<Longrightarrow> stored (rd D dev st) h t \<Longrightarrow> stored (rd D dev st') h t"
  by (erule stored_cong) (simp add: cow_step_rd below_def)

lemma set_fresh: "set (fresh a b) = {c. unat a \<le> unat c \<and> unat c < unat b}"
proof -
  have "c \<in> word_of_nat ` {unat a..<unat b}" if "unat a \<le> unat c" "unat c < unat b" for c
    using that by (intro image_eqI [of _ _ "unat c"]) auto
  moreover have "unat (word_of_nat n :: u64) = n" if "n < unat b" for n
    using that unat_bound [of b] by (simp add: unat_of_nat)
  ultimately show ?thesis
    by (auto simp: fresh_def)
qed

lemma distinct_fresh: "distinct (fresh a b)"
proof -
  have "unat (word_of_nat n :: u64) = n" if "n < unat b" for n
    using that unat_bound [of b] by (simp add: unat_of_nat)
  then have "inj_on (word_of_nat :: nat \<Rightarrow> u64) {unat a..<unat b}"
    by (intro inj_onI) (metis atLeastLessThan_iff)
  then show ?thesis
    by (simp add: fresh_def distinct_map)
qed

lemma fresh_append:
  assumes "unat a \<le> unat b" "unat b \<le> unat c"
  shows "fresh a c = fresh a b @ fresh b c"
proof -
  have "[unat a..<unat c] = [unat a..<unat b] @ [unat b..<unat c]"
    using assms upt_add_eq_append [of "unat a" "unat b" "unat c - unat b"] by simp
  then show ?thesis
    by (simp add: fresh_def)
qed

lemma fresh_self [simp]: "fresh a a = []"
  by (simp add: fresh_def)

lemma fresh_1: "unat b = unat a + 1 \<Longrightarrow> fresh a b = [a]"
  by (simp add: fresh_def)

lemma fresh_2: "unat b = unat a + 2 \<Longrightarrow> fresh a b = [a, a + 1]"
  by (simp add: fresh_def upt_rec add.commute)

lemma take_free_block_Ok:
  "unat (next_free_block st) + 1 < 2 ^ 64 \<Longrightarrow>
   take_free_block st = (Ok (next_free_block st), st\<lparr>next_free_block := next_free_block st + 1\<rparr>)"
  by (simp add: take_free_block_def add_u_def)

lemma cache_ok_insert:
  assumes "cache_ok cache" "length blk = 4096"
  shows "cache_ok (map_insert a blk cache)"
proof -
  have "cache_sorted cache" "\<forall>(k, b)\<in>set cache. length b = 4096"
    using assms(1) by (auto simp: cache_ok_def)
  then have "(k, b) \<in> set (map_insert a blk cache) \<Longrightarrow> length b = 4096" for k b
    using assms(2) btree_map.entry_get [of "map_insert a blk cache" k b]
      btree_map.entry_get [of cache k b]
    by (auto split: if_splits)
  with \<open>cache_sorted cache\<close> show ?thesis
    by (auto simp: cache_ok_def)
qed

text \<open>Two nodes hold the same items at the same level.\<close>

definition same_content :: "bafs_tree_node \<Rightarrow> bafs_tree_node \<Rightarrow> bool" where
  "same_content n n' \<longleftrightarrow> level n = level n' \<and> leaf_items n = leaf_items n' \<and>
     internal_items n = internal_items n' \<and> item_count n = item_count n'"

lemma same_content_nodes:
  "same_content n n' \<Longrightarrow> leaf_node n its = leaf_node n' its"
  "same_content n n' \<Longrightarrow> inner_node n h ps = inner_node n' h ps"
  by (auto simp: same_content_def leaf_node_def inner_node_def)

lemma write_tree_node_rd:
  fixes D :: "'d block_device" and dev :: 'd
  assumes "node_fits n"
  obtains blk n' where "write_tree_node_to_cache n st
      = (Ok (), st\<lparr>dirty_cache := map_insert (self_block_address n) blk (dirty_cache st)\<rparr>)"
    "length blk = 4096" "same_content n' n"
    "read_tree_node D dev (map_insert (self_block_address n) blk (dirty_cache st))
      = (rd D dev st)(self_block_address n := Ok n')"
proof -
  obtain blk c where *: "write_tree_node_to_cache n st
      = (Ok (), st\<lparr>dirty_cache := map_insert (self_block_address n) blk (dirty_cache st)\<rparr>)"
    "length blk = 4096"
    "deserialise_node_from_block blk (self_block_address n) = Ok (n\<lparr>node_checksum := c\<rparr>)"
    using write_tree_node_Ok [OF assms] by blast
  show thesis
    using * by (intro that [of blk "n\<lparr>node_checksum := c\<rparr>"])
      (auto simp: same_content_def read_tree_node_def read_block_insert fun_eq_iff)
qed

lemma write_cow_clone_spec:
  fixes D :: "'d block_device" and dev :: 'd
  assumes "node_fits n" "unat (next_free_block st) + 1 < 2 ^ 64"
  obtains st' n' where "write_cow_clone n g a st = (Ok (next_free_block st), st')" "cow_step st st'"
    "unat (next_free_block st') = unat (next_free_block st) + 1"
    "freed_blocks st' = freed_blocks st @ [a]"
    "rd D dev st' (next_free_block st) = Ok n'" "same_content n' n"
proof -
  let ?n = "n\<lparr>self_block_address := next_free_block st, node_generation := g\<rparr>"
  let ?s = "st\<lparr>freed_blocks := freed_blocks st @ [a], next_free_block := next_free_block st + 1\<rparr>"
  have "node_fits ?n"
    using assms(1) by (simp add: node_fits_def)
  then obtain blk n' where w: "write_tree_node_to_cache ?n ?s
      = (Ok (), ?s\<lparr>dirty_cache := map_insert (next_free_block st) blk (dirty_cache st)\<rparr>)"
    "length blk = 4096" "same_content n' ?n"
    "read_tree_node D dev (map_insert (next_free_block st) blk (dirty_cache st))
      = (rd D dev st)(next_free_block st := Ok n')"
    using write_tree_node_rd [of ?n ?s D dev] by auto
  let ?st' = "?s\<lparr>dirty_cache := map_insert (next_free_block st) blk (dirty_cache st)\<rparr>"
  have nxt: "unat (next_free_block st + 1) = unat (next_free_block st) + 1"
    using assms(2) by (simp add: unat_plus_1)
  show thesis
  proof (rule that)
    show "write_cow_clone n g a st = (Ok (next_free_block st), ?st')"
      using w(1) assms(2) by (simp add: write_cow_clone_def push_freed_block_def take_free_block_Ok)
    show "cow_step st ?st'"
      using nxt w(2) cache_ok_insert by (auto simp: cow_step_def)
  qed (use nxt w(3,4) in \<open>auto simp: same_content_def\<close>)
qed

lemma write_split_nodes_spec:
  fixes D :: "'d block_device" and dev :: 'd and a :: u64
  assumes fits: "node_fits l" "node_fits r" and addr: "self_block_address r = next_free_block st"
      "self_block_address l = next_free_block st + 1" and room: "unat (next_free_block st) + 2 < 2 ^ 64"
  defines "st1 \<equiv> st\<lparr>freed_blocks := freed_blocks st @ [a],
      next_free_block := next_free_block st + 1 + 1\<rparr>"
  obtains st' l' r' where
    "write_split_nodes (l, r, k) st1 = (Ok (next_free_block st + 1,
        Some \<lparr>split_key = k, split_child_block = next_free_block st\<rparr>), st')"
    "cow_step st st'" "unat (next_free_block st') = unat (next_free_block st) + 2"
    "freed_blocks st' = freed_blocks st @ [a]"
    "rd D dev st' (next_free_block st + 1) = Ok l'" "same_content l' l"
    "rd D dev st' (next_free_block st) = Ok r'" "same_content r' r"
proof -
  let ?n = "next_free_block st"
  have nxt: "unat (?n + 1 + 1) = unat ?n + 2" "unat (?n + 1) = unat ?n + 1"
    using room unat_plus_1 [of ?n] unat_plus_1 [of "?n + 1"] by simp_all
  obtain b1 l' where l: "write_tree_node_to_cache l st1
      = (Ok (), st1\<lparr>dirty_cache := map_insert (?n + 1) b1 (dirty_cache st)\<rparr>)"
    "length b1 = 4096" "same_content l' l"
    "read_tree_node D dev (map_insert (?n + 1) b1 (dirty_cache st)) = (rd D dev st)(?n + 1 := Ok l')"
    using write_tree_node_rd [OF fits(1), of st1 D dev] by (auto simp: addr st1_def)
  let ?s = "st1\<lparr>dirty_cache := map_insert (?n + 1) b1 (dirty_cache st)\<rparr>"
  obtain b2 r' where r: "write_tree_node_to_cache r ?s
      = (Ok (), ?s\<lparr>dirty_cache := map_insert ?n b2 (dirty_cache ?s)\<rparr>)"
    "length b2 = 4096" "same_content r' r"
    "read_tree_node D dev (map_insert ?n b2 (dirty_cache ?s)) = (rd D dev ?s)(?n := Ok r')"
    using write_tree_node_rd [OF fits(2), of ?s D dev] by (auto simp: addr)
  have neq: "?n + 1 \<noteq> ?n"
    using nxt(2) by auto
  show thesis
  proof (rule that)
    let ?st' = "?s\<lparr>dirty_cache := map_insert ?n b2 (dirty_cache ?s)\<rparr>"
    show "write_split_nodes (l, r, k) st1 = (Ok (?n + 1,
        Some \<lparr>split_key = k, split_child_block = ?n\<rparr>), ?st')"
      using l(1) r(1) by (simp add: write_split_nodes_def addr)
    show "cow_step st ?st'"
      using nxt l(2) r(2) by (auto simp: cow_step_def st1_def intro!: cache_ok_insert)
    show "unat (next_free_block ?st') = unat ?n + 2" "freed_blocks ?st' = freed_blocks st @ [a]"
      using nxt by (simp_all add: st1_def)
    show "rd D dev ?st' (?n + 1) = Ok l'" "rd D dev ?st' ?n = Ok r'"
      using l(4) r(4) neq by (simp_all add: st1_def)
    show "same_content l' l" "same_content r' r"
      using l(3) r(3) by simp_all
  qed
qed

section \<open>Leaf insertion\<close>

lemma insert_into_leaf_spec:
  assumes "leaf_node n its" "sorted_items its" "length its < 65535"
  shows "\<exists>n'. insert_into_leaf n key v = Ok n' \<and> leaf_node n' (upd_items key v its)"
proof -
  have s: "sorted_wrt (<) (item_keys its)"
    using assms(2) by (simp add: sorted_items_def)
  from binary_search_sorted [OF s, of key] show ?thesis
  proof (elim disjE exE conjE)
    fix as x bs
    assume *: "its = as @ x # bs" "item_key x = key"
      "binary_search_by_key key item_key its = SearchOk (length as)"
    have as: "\<forall>y\<in>set as. item_key y < key"
      using assms(2) *(2) unfolding *(1) by (auto simp: sorted_items_append)
    have "upd_items key v its = as @ x\<lparr>item_value := v\<rparr> # bs"
      unfolding *(1) upd_items_append [OF as] using *(2) by simp
    with * assms(1) show ?thesis
      by (simp add: insert_into_leaf_def leaf_node_def list_update_append)
  next
    fix as bs
    assume *: "its = as @ bs" "\<forall>x\<in>set as. item_key x < key" "\<forall>x\<in>set bs. key < item_key x"
      "binary_search_by_key key item_key its = SearchErr (length as)"
    have "upd_items key v bs = \<lparr>item_key = key, item_value = v\<rparr> # bs"
      using *(3) by (cases bs) auto
    then have "upd_items key v its = as @ \<lparr>item_key = key, item_value = v\<rparr> # bs"
      unfolding *(1) upd_items_append [OF *(2)] by simp
    moreover have "unat (word_of_nat (length its) :: u16) + 1 < 2 ^ 16"
      using assms(3) by (simp add: unat_of_nat)
    then have "add_u (word_of_nat (length its) :: u16) 1 = Ok (word_of_nat (length its) + 1)"
      by (intro add_u_Ok) simp
    moreover have "item_count n = word_of_nat (length its)"
        "leaf_items n = its" "level n = 0" "internal_items n = []"
      using assms(1) by (simp_all add: leaf_node_def)
    ultimately show ?thesis
      using *(1,4) by (simp add: insert_into_leaf_def leaf_node_def)
  qed
qed

lemma size_append: "leaf_serialised_size (xs @ ys) + 24 = leaf_serialised_size xs + leaf_serialised_size ys"
  by (simp add: leaf_size leaf_values_def)

lemma size_single: "leaf_serialised_size [x] = 49 + length (item_value x)"
  by (simp add: leaf_size)

lemma size_Nil: "leaf_serialised_size [] = 24"
  by (simp add: leaf_size)

lemma size_Cons: "leaf_serialised_size (x # xs) = 25 + length (item_value x) + leaf_serialised_size xs"
  using size_append [of "[x]" xs] by (simp add: size_single)

lemma size_upd_items:
  "leaf_serialised_size (upd_items k v its) \<le> leaf_serialised_size its + 25 + length v"
  by (induction k v its rule: upd_items.induct) (auto simp: size_Cons size_Nil)

lemma size_length: "24 + 25 * length its \<le> leaf_serialised_size its"
  by (simp add: leaf_size)

lemma size_del_items: "leaf_serialised_size (del_items k its) \<le> leaf_serialised_size its"
  by (induction its) (auto simp: del_items_def size_Cons size_Nil)

lemma split_left_loop_spec:
  "split_left_loop items i \<le> i \<and> (1 \<le> i \<longrightarrow> 1 \<le> split_left_loop items i) \<and>
   (split_left_loop items i \<le> 1 \<or> leaf_serialised_size (take (split_left_loop items i) items) \<le> 4096) \<and>
   (split_left_loop items i < i \<longrightarrow> leaf_serialised_size (take (Suc (split_left_loop items i)) items) > 4096)"
proof (induction items i rule: split_left_loop.induct)
  case (1 items i)
  show ?case
  proof (cases "i > 1 \<and> leaf_serialised_size (take i items) > 4096")
    case True
    then have e: "split_left_loop items i = split_left_loop items (i - 1)"
      by (subst split_left_loop.simps) simp
    have IH: "split_left_loop items (i - 1) \<le> i - 1" "1 \<le> split_left_loop items (i - 1)"
      "split_left_loop items (i - 1) \<le> 1 \<or> leaf_serialised_size (take (split_left_loop items (i - 1)) items) \<le> 4096"
      "split_left_loop items (i - 1) < i - 1 \<longrightarrow>
        leaf_serialised_size (take (Suc (split_left_loop items (i - 1))) items) > 4096"
      using 1 True by auto
    show ?thesis
    proof (cases "split_left_loop items (i - 1) = i - 1")
      case eq: True
      with True show ?thesis using IH unfolding e by auto
    next
      case False
      with True show ?thesis using IH unfolding e by auto
    qed
  next
    case False
    then have "split_left_loop items i = i"
      by (subst split_left_loop.simps) auto
    with False show ?thesis by auto
  qed
qed

lemma split_right_loop_spec:
  assumes "i < length items"
  shows "i \<le> split_right_loop items i \<and> split_right_loop items i < length items \<and>
   (split_right_loop items i = length items - 1 \<or>
      leaf_serialised_size (drop (split_right_loop items i) items) \<le> 4096) \<and>
   (i < split_right_loop items i \<longrightarrow>
      leaf_serialised_size (drop (split_right_loop items i - 1) items) > 4096)"
  using assms
proof (induction items i rule: split_right_loop.induct)
  case (1 items i)
  show ?case
  proof (cases "i < length items - 1 \<and> leaf_serialised_size (drop i items) > 4096")
    case True
    then have e: "split_right_loop items i = split_right_loop items (i + 1)"
      by (subst split_right_loop.simps) simp
    have "i + 1 < length items" using True by linarith
    then have IH: "i + 1 \<le> split_right_loop items (i + 1)" "split_right_loop items (i + 1) < length items"
      "split_right_loop items (i + 1) = length items - 1 \<or>
         leaf_serialised_size (drop (split_right_loop items (i + 1)) items) \<le> 4096"
      "i + 1 < split_right_loop items (i + 1) \<longrightarrow>
         leaf_serialised_size (drop (split_right_loop items (i + 1) - 1) items) > 4096"
      using 1 True by auto
    show ?thesis
    proof (cases "split_right_loop items (i + 1) = i + 1")
      case eq: True
      with True show ?thesis using IH unfolding e by auto
    next
      case False
      with True show ?thesis using IH unfolding e by auto
    qed
  next
    case False
    then have "split_right_loop items i = i"
      by (subst split_right_loop.simps) auto
    with False "1.prems" show ?thesis by auto
  qed
qed

definition split_point :: "bafs_leaf_item list \<Rightarrow> nat" where
  "split_point items = split_right_loop items (split_left_loop items (length items div 2))"

lemma size_take_drop: "leaf_serialised_size (take i its) + leaf_serialised_size (drop i its) = leaf_serialised_size its + 24"
  using size_append [of "take i its" "drop i its"] by simp

lemma size_take_Suc:
  assumes "\<forall>x\<in>set its. small_value (item_value x)"
  shows "leaf_serialised_size (take (Suc i) its) \<le> leaf_serialised_size (take i its) + 2036"
proof (cases "i < length its")
  case True
  then have "small_value (item_value (its ! i))"
    using assms by simp
  with True show ?thesis
    using size_append [of "take i its" "[its ! i]"]
    by (simp add: take_Suc_conv_app_nth size_single small_value_def)
qed simp

text \<open>A leaf that overflows by one small item has a split point with both halves within a block.\<close>

lemma split_point_fits:
  assumes small: "\<forall>x\<in>set its. small_value (item_value x)"
    and big: "leaf_serialised_size its > 4096" and bound: "leaf_serialised_size its \<le> 6132"
  shows "0 < split_point its" "split_point its < length its"
    "leaf_serialised_size (take (split_point its) its) \<le> 4096"
    "leaf_serialised_size (drop (split_point its) its) \<le> 4096"
proof -
  let ?T = "\<lambda>i. leaf_serialised_size (take i its)" and ?D = "\<lambda>i. leaf_serialised_size (drop i its)"
  note sum = size_take_drop [where its = its] and step = size_take_Suc [OF small]
  have one: "?T 1 \<le> 2060"
    using step [of 0] by (simp add: size_Nil)
  have T0: "?T 0 = 24"
    by (simp add: size_Nil)
  have len: "2 \<le> length its"
  proof (rule ccontr)
    assume "\<not> 2 \<le> length its"
    then have "its = take 1 its" by simp
    with one big show False by simp
  qed
  have last: "?D (length its - 1) \<le> 2060"
  proof -
    have "its = take (Suc (length its - 1)) its" using len by simp
    then have "leaf_serialised_size its \<le> ?T (length its - 1) + 2036"
      using step [of "length its - 1"] by simp
    with sum [of "length its - 1"] show ?thesis by linarith
  qed
  define l where "l = split_left_loop its (length its div 2)"
  have l: "l \<le> length its div 2" "1 \<le> l" "l \<le> 1 \<or> ?T l \<le> 4096"
    "l < length its div 2 \<longrightarrow> ?T (Suc l) > 4096"
    using split_left_loop_spec [of its "length its div 2"] len by (auto simp: l_def)
  have Tl: "?T l \<le> 4096"
    using l(2,3) one by (cases "l = 1") auto
  have "l < length its" using l(1) len by linarith
  note r = split_right_loop_spec [OF this]
  define s where "s = split_right_loop its l"
  have s: "l \<le> s" "s < length its" "s = length its - 1 \<or> ?D s \<le> 4096" "l < s \<longrightarrow> ?D (s - 1) > 4096"
    using r by (auto simp: s_def)
  have "?D s \<le> 4096"
    using s(3) last by auto
  moreover have "?T s \<le> 4096"
  proof (cases "l < s")
    case True
    then have "?T (s - 1) < 2060"
      using s(4) sum [of "s - 1"] bound by simp
    with step [of "s - 1"] True show ?thesis by simp
  next
    case False
    with s(1) Tl show ?thesis by simp
  qed
  moreover have "split_point its = s"
    by (simp add: split_point_def s_def l_def)
  ultimately show "0 < split_point its" "split_point its < length its"
    "?T (split_point its) \<le> 4096" "?D (split_point its) \<le> 4096"
    using s l(2) by auto
qed

section \<open>The outcome of an insertion into a subtree\<close>

text \<open>The subtree becomes one subtree, or two with a separator between them. \<open>k\<close> stands for the
  separator the parent has for it, which does not change.\<close>

definition res_ptrs :: "bafs_key \<Rightarrow> children \<Rightarrow> u64 \<Rightarrow> split_result option \<Rightarrow> bool" where
  "res_ptrs k zs a sp \<longleftrightarrow>
     (case sp of
        None \<Rightarrow> ptrs zs = [(k, a)]
      | Some s \<Rightarrow> ptrs zs = [(k, a), (split_key s, split_child_block s)])"

text \<open>Every block is accounted for: what was in the old subtree or newly allocated is in the new
  subtrees or on the freed list, with multiplicity.\<close>

definition accounted :: "u64 \<Rightarrow> cow_state \<Rightarrow> cow_state \<Rightarrow> u64 list \<Rightarrow> u64 list \<Rightarrow> bool" where
  "accounted root st st' old new \<longleftrightarrow> (\<exists>path. freed_blocks st' = freed_blocks st @ path @ [root] \<and>
     mset (path @ [root]) + mset new
       = mset old + mset (fresh (next_free_block st) (next_free_block st')))"

definition grown where
  "grown Q h lo hi k D dev st st' old its zs a sp \<longleftrightarrow>
     res_ptrs k zs a sp \<and> ch_inv (bt_inv Q h) lo hi zs \<and>
     (\<forall>c\<in>set zs. stored (rd D dev st') h (snd c)) \<and> (\<forall>c\<in>set (tl zs). Q (fst c)) \<and>
     items_ch zs = its \<and> cow_step st st' \<and> accounted (hd old) st st' old (nodes_ch zs) \<and>
     (sp \<noteq> None \<longrightarrow> h = 0 \<longrightarrow> items_of (snd (hd zs)) \<noteq> [])"

text \<open>The outcome keeps the width invariant: subtrees stay wide, and the halves of a split are wide.\<close>

definition widened :: "btree \<Rightarrow> children \<Rightarrow> 'a option \<Rightarrow> bool" where
  "widened t zs sp \<longleftrightarrow> (wide_root t \<longrightarrow>
     (\<forall>z\<in>set zs. wide_root (snd z) \<and> (sp \<noteq> None \<or> wide t \<longrightarrow> wide (snd z))))"

lemma widened_leaves: "ch_inv (bt_inv Q 0) lo hi zs \<Longrightarrow> widened t zs sp"
proof -
  assume zs: "ch_inv (bt_inv Q 0) lo hi zs"
  have "wide (snd z)" if z: "z \<in> set zs" for z
  proof -
    obtain xs ys where "zs = xs @ z # ys" using split_list [OF z] by blast
    with zs ch_inv_child [of "bt_inv Q 0" lo hi xs z ys] wide_leaf show ?thesis by blast
  qed
  then show ?thesis by (simp add: widened_def wide_imp_root)
qed

lemma widened_step:
  assumes "widened (snd c) zs sp1" "zs \<noteq> []" "widened (BNode a (xs @ zs @ ys)) zs' sp"
  shows "widened (BNode a (xs @ c # ys)) zs' sp"
proof -
  have "wide_root (BNode a (xs @ zs @ ys))" if "wide_root (BNode a (xs @ c # ys))"
    using that assms(1) wide_imp_root by (auto simp: widened_def)
  moreover have "wide (BNode a (xs @ zs @ ys))" if "wide (BNode a (xs @ c # ys))"
  proof -
    have "Suc 0 \<le> length zs" using assms(2) by (cases zs) auto
    with that assms(1) wide_imp_root show ?thesis by (auto simp: widened_def)
  qed
  ultimately show ?thesis
    using assms(3) unfolding widened_def by blast
qed

lemma accounted_trans:
  assumes "accounted r1 s1 s2 old mid" "accounted r2 s2 s3 (mid @ rest) new"
    and "cow_step s1 s2" "cow_step s2 s3"
  shows "accounted r2 s1 s3 (old @ rest) new"
proof -
  let ?f = "\<lambda>a b. mset (fresh (next_free_block a) (next_free_block b))"
  obtain p q where p: "freed_blocks s2 = freed_blocks s1 @ p" "mset p + mset mid = mset old + ?f s1 s2"
    and q: "freed_blocks s3 = freed_blocks s2 @ q @ [r2]"
      "mset (q @ [r2]) + mset new = mset (mid @ rest) + ?f s2 s3"
    using assms(1,2) by (auto simp: accounted_def)
  have f: "?f s1 s3 = ?f s1 s2 + ?f s2 s3"
    unfolding fresh_append [OF cow_step_next [OF assms(3)] cow_step_next [OF assms(4)]] by simp
  have "mset ((p @ q) @ [r2]) + mset new = mset p + (mset (q @ [r2]) + mset new)"
    by simp
  also have "\<dots> = (mset p + mset mid) + (mset rest + ?f s2 s3)"
    unfolding q(2) by simp
  also have "\<dots> = mset (old @ rest) + ?f s1 s3"
    unfolding p(2) f by simp
  finally have "mset ((p @ q) @ [r2]) + mset new = mset (old @ rest) + ?f s1 s3" .
  moreover have "freed_blocks s3 = freed_blocks s1 @ (p @ q) @ [r2]"
    using p(1) q(1) by simp
  ultimately show ?thesis
    unfolding accounted_def by blast
qed

lemma leaf_node_fits: "leaf_node n its \<Longrightarrow> leaf_serialised_size its \<le> 4096 \<Longrightarrow> node_fits n"
  by (simp add: leaf_node_def node_fits_def)

lemma inner_node_fits:
  assumes "inner_node n (Suc h) ps" "Suc h < 256" "length ps \<le> 91"
  shows "node_fits n"
proof -
  have "length (internal_items n) = length ps"
    using assms(1) by (auto simp: inner_node_def)
  moreover have "level n > 0"
    using level_nonzero [OF assms(1,2)] by (simp add: word_neq_0_conv)
  ultimately show ?thesis
    using assms(1,3) by (simp add: inner_node_def node_fits_def)
qed

text \<open>The clone branch of a leaf: one new leaf replaces the old block.\<close>

lemma clone_leaf:
  fixes D :: "'d block_device" and dev :: 'd
  assumes n: "leaf_node n its" and inv: "\<And>b. bt_inv Q 0 lo hi (BLeaf b its)"
    and room: "unat (next_free_block st) + 1 < 2 ^ 64"
  obtains st' b where "write_cow_clone n g a st = (Ok b, st')"
    "unat (next_free_block st') = unat (next_free_block st) + 1"
    "grown Q 0 lo hi k D dev st st' [a] its [(k, BLeaf b its)] b None"
proof -
  have fits: "node_fits n"
    using n inv [of 0] by (intro leaf_node_fits) auto
  obtain st' n' where w: "write_cow_clone n g a st = (Ok (next_free_block st), st')" "cow_step st st'"
    "unat (next_free_block st') = unat (next_free_block st) + 1"
    "freed_blocks st' = freed_blocks st @ [a]"
    "rd D dev st' (next_free_block st) = Ok n'" "same_content n' n"
    by (rule write_cow_clone_spec [OF fits room, of g a D dev])
  let ?t = "BLeaf (next_free_block st) its"
  have "stored (rd D dev st') 0 ?t"
    using w(5) same_content_nodes(1) [OF w(6)] n by simp
  moreover have "accounted a st st' [a] [next_free_block st]"
    using w(3,4) fresh_1 [OF w(3)] by (simp add: accounted_def)
  ultimately have "grown Q 0 lo hi k D dev st st' [a] its [(k, ?t)] (next_free_block st) None"
    using inv w(2) by (simp add: grown_def res_ptrs_def)
  with w(1,3) that show thesis by blast
qed

lemma split_leaf:
  fixes D :: "'d block_device" and dev :: 'd
  assumes n: "leaf_node n its" and s: "sorted_items its"
    and ok: "\<forall>i\<in>set its. Q (item_key i) \<and> small_value (item_value i) \<and>
        lo_le lo (item_key i) \<and> less_hi (item_key i) hi"
    and big: "leaf_serialised_size its > 4096" and bound: "leaf_serialised_size its \<le> 6132"
    and room: "unat (next_free_block st) + 2 < 2 ^ 64"
  obtains st' b sp l r where "bindS (split_leaf_node n g a) write_split_nodes st = (Ok (b, Some sp), st')"
    "unat (next_free_block st') = unat (next_free_block st) + 2"
    "grown Q 0 lo hi k D dev st st' [a] its [(k, l), (split_key sp, r)] b (Some sp)"
proof -
  let ?s = "split_point its"
  let ?L = "take ?s its" and ?R = "drop ?s its"
  let ?n = "next_free_block st"
  have "\<forall>i\<in>set its. small_value (item_value i)" using ok by blast
  note sp = split_point_fits [OF this big bound]
  have ne: "?L \<noteq> []" "?R \<noteq> []" "its \<noteq> []" using sp by auto
  let ?pk = "item_key (hd ?R)"
  let ?rn = "\<lparr>node_checksum = 0, level = 0, node_flags = 0,
           item_count = word_of_nat (length ?R), self_block_address = ?n,
           node_generation = g, leaf_items = ?R, internal_items = []\<rparr>"
  let ?ln = "n\<lparr>leaf_items := ?L, item_count := word_of_nat (length ?L),
           self_block_address := ?n + 1, node_generation := g\<rparr>"
  let ?st1 = "st\<lparr>freed_blocks := freed_blocks st @ [a], next_free_block := ?n + 1 + 1\<rparr>"
  have r1: "unat (?n + 1) + 1 < 2 ^ 64" "unat ?n + 1 < 2 ^ 64"
    using room by (simp_all add: unat_plus_1)
  have "take_free_block (st\<lparr>freed_blocks := freed_blocks st @ [a]\<rparr>)
      = (Ok ?n, st\<lparr>freed_blocks := freed_blocks st @ [a], next_free_block := ?n + 1\<rparr>)"
    "take_free_block (st\<lparr>freed_blocks := freed_blocks st @ [a], next_free_block := ?n + 1\<rparr>)
      = (Ok (?n + 1), ?st1)"
    using r1 take_free_block_Ok [of "st\<lparr>freed_blocks := freed_blocks st @ [a]\<rparr>"]
      take_free_block_Ok [of "st\<lparr>freed_blocks := freed_blocks st @ [a], next_free_block := ?n + 1\<rparr>"]
    by simp_all
  then have split: "split_leaf_node n g a st = (Ok (?ln, ?rn, ?pk), ?st1)"
    using n ne sp(2) by (simp add: split_leaf_node_def push_freed_block_def Let_def assertR_def leaf_node_def
        split_point_def [symmetric])
  have fits: "node_fits ?ln" "node_fits ?rn"
    using n sp by (auto simp: leaf_node_def node_fits_def)
  have addr: "self_block_address ?rn = ?n" "self_block_address ?ln = ?n + 1"
    by simp_all
  obtain st' l' r' where w: "write_split_nodes (?ln, ?rn, ?pk) ?st1 = (Ok (?n + 1,
        Some \<lparr>split_key = ?pk, split_child_block = ?n\<rparr>), st')"
    "cow_step st st'" "unat (next_free_block st') = unat ?n + 2"
    "freed_blocks st' = freed_blocks st @ [a]"
    "rd D dev st' (?n + 1) = Ok l'" "same_content l' ?ln"
    "rd D dev st' ?n = Ok r'" "same_content r' ?rn"
    by (rule write_split_nodes_spec [OF fits addr room, where a = a and k = ?pk and D = D and dev = dev])
  have "stored (rd D dev st') 0 (BLeaf (?n + 1) ?L)" "stored (rd D dev st') 0 (BLeaf ?n ?R)"
    using w(5-8) n by (auto simp: leaf_node_def same_content_def)
  moreover have "sorted_items (?L @ ?R)" using s by simp
  then have sorted: "sorted_items ?L" "sorted_items ?R" "\<forall>x\<in>set ?L. \<forall>y\<in>set ?R. item_key x < item_key y"
    unfolding sorted_items_append by auto
  have pk: "\<forall>i\<in>set ?R. ?pk \<le> item_key i" "\<forall>i\<in>set ?L. item_key i < ?pk" "hd ?R \<in> set ?R"
    using sorted ne(2) by (cases ?R; auto)+
  have sub: "\<forall>i\<in>set ?L \<union> set ?R. Q (item_key i) \<and> small_value (item_value i) \<and>
        lo_le lo (item_key i) \<and> less_hi (item_key i) hi"
    using ok by (auto dest: in_set_takeD in_set_dropD)
  have lo: "lo_less lo ?pk"
    using sub pk(2) ne(1) lo_less_le [of lo "item_key (hd ?L)" ?pk] by (meson UnCI list.set_sel(1))
  have "ch_inv (bt_inv Q 0) lo hi [(k, BLeaf (?n + 1) ?L), (?pk, BLeaf ?n ?R)]"
    using sub pk sorted sp lo by auto
  moreover have "accounted a st st' [a] [?n + 1, ?n]"
    using w(4) fresh_2 [OF w(3)] by (simp add: accounted_def)
  ultimately have "grown Q 0 lo hi k D dev st st' [a] its
      [(k, BLeaf (?n + 1) ?L), (?pk, BLeaf ?n ?R)] (?n + 1)
      (Some \<lparr>split_key = ?pk, split_child_block = ?n\<rparr>)"
    using w(2) sub pk(3) ne(1) by (simp add: grown_def res_ptrs_def)
  then show thesis
    using split w(1,3) that [of "?n + 1" "\<lparr>split_key = ?pk, split_child_block = ?n\<rparr>" st'] by simp
qed

lemma accounted_cong:
  "accounted r st st' old new \<Longrightarrow> mset old = mset old' \<Longrightarrow> mset new = mset new' \<Longrightarrow> accounted r st st' old' new'"
  by (simp add: accounted_def)

lemma accounted_below:
  assumes "accounted r st st' old new" "below st old" "cow_step st st'"
  shows "below st' new"
proof -
  obtain path where "mset path + mset new = mset old + mset (fresh (next_free_block st) (next_free_block st'))"
    using assms(1) unfolding accounted_def by blast
  then have "set new \<subseteq> set old \<union> set (fresh (next_free_block st) (next_free_block st'))"
    by (metis set_mset_mset set_mset_union sup_ge2)
  with assms(2) cow_step_next [OF assms(3)] show ?thesis
    by (fastforce simp: below_def set_fresh)
qed

lemma stored_children_step:
  "cow_step st st' \<Longrightarrow> below st (nodes_ch cs) \<Longrightarrow> \<forall>c\<in>set cs. stored (rd D dev st) h (snd c) \<Longrightarrow>
   \<forall>c\<in>set cs. stored (rd D dev st') h (snd c)"
  by (auto intro!: stored_step [of st st'] simp: below_def)

lemma clone_inner:
  fixes D :: "'d block_device" and dev :: 'd
  assumes n: "inner_node n (Suc h) (ptrs cs)" and h: "Suc h < 256"
    and inv: "\<And>b. bt_inv Q (Suc h) lo hi (BNode b cs)"
    and st: "\<forall>c\<in>set cs. stored (rd D dev st) h (snd c)" and b: "below st (nodes_ch cs)"
    and room: "unat (next_free_block st) + 1 < 2 ^ 64"
  obtains st' b where "write_cow_clone n g a st = (Ok b, st')"
    "unat (next_free_block st') = unat (next_free_block st) + 1"
    "grown Q (Suc h) lo hi k D dev st st' (a # nodes_ch cs) (items_ch cs) [(k, BNode b cs)] b None"
proof -
  have fits: "node_fits n"
    using inv [of 0] by (intro inner_node_fits [OF n h]) simp
  obtain st' n' where w: "write_cow_clone n g a st = (Ok (next_free_block st), st')" "cow_step st st'"
    "unat (next_free_block st') = unat (next_free_block st) + 1"
    "freed_blocks st' = freed_blocks st @ [a]"
    "rd D dev st' (next_free_block st) = Ok n'" "same_content n' n"
    by (rule write_cow_clone_spec [OF fits room, of g a D dev])
  let ?t = "BNode (next_free_block st) cs"
  have "stored (rd D dev st') (Suc h) ?t"
    using w(5) same_content_nodes(2) [OF w(6)] n h stored_children_step [OF w(2) b st] by simp
  moreover have "accounted a st st' (a # nodes_ch cs) (next_free_block st # nodes_ch cs)"
    using w(3,4) fresh_1 [OF w(3)] by (simp add: accounted_def)
  ultimately have "grown Q (Suc h) lo hi k D dev st st' (a # nodes_ch cs) (items_ch cs)
      [(k, ?t)] (next_free_block st) None"
    using inv w(2) by (simp add: grown_def res_ptrs_def)
  with w(1,3) that show thesis by blast
qed

lemma split_inner:
  fixes D :: "'d block_device" and dev :: 'd
  assumes n: "inner_node n (Suc h) (ptrs cs)" and h: "Suc h < 256"
    and inv: "ch_inv (bt_inv Q h) lo hi cs" "le_lo (fst (hd cs)) lo" "\<forall>c\<in>set cs. Q (fst c)"
    and len: "90 < length cs" "length cs \<le> 91"
    and st: "\<forall>c\<in>set cs. stored (rd D dev st) h (snd c)" and b: "below st (nodes_ch cs)"
    and room: "unat (next_free_block st) + 2 < 2 ^ 64"
  obtains st' b sp l r where "bindS (split_internal_node n g a) write_split_nodes st = (Ok (b, Some sp), st')"
    "unat (next_free_block st') = unat (next_free_block st) + 2"
    "grown Q (Suc h) lo hi k D dev st st' (a # nodes_ch cs) (items_ch cs)
       [(k, l), (split_key sp, r)] b (Some sp)"
    "widened (BNode a cs) [(k, l), (split_key sp, r)] (Some sp)"
proof -
  let ?s = "length cs div 2"
  let ?L = "take ?s cs" and ?R = "drop ?s cs"
  let ?n = "next_free_block st"
  let ?is = "internal_items n"
  have ptr: "map item_ptr ?is = ptrs cs"
    using n by (simp add: inner_node_def)
  have li: "length ?is = length cs"
    using arg_cong [OF ptr, of length] by simp
  have s: "0 < ?s" "?s < length cs" "length ?L \<le> 90" "length ?R \<le> 90"
    using len by auto
  then have ne: "?L \<noteq> []" "?R \<noteq> []" by auto
  have R: "?is ! ?s # drop (Suc ?s) ?is = drop ?s ?is"
    using s(2) li by (simp add: Cons_nth_drop_Suc)
  let ?pk = "sep_key (?is ! ?s)"
  have pk: "?pk = fst (hd ?R)"
    using arg_cong [OF ptr, of "\<lambda>xs. xs ! ?s"] s(2) li by (simp add: hd_drop_conv_nth)
  let ?rn = "\<lparr>node_checksum = 0, level = level n, node_flags = 0,
           item_count = word_of_nat (length (drop ?s ?is)), self_block_address = ?n,
           node_generation = g, leaf_items = [], internal_items = drop ?s ?is\<rparr>"
  let ?ln = "n\<lparr>internal_items := take ?s ?is, item_count := word_of_nat (length (take ?s ?is)),
           self_block_address := ?n + 1, node_generation := g\<rparr>"
  let ?st1 = "st\<lparr>freed_blocks := freed_blocks st @ [a], next_free_block := ?n + 1 + 1\<rparr>"
  have r1: "unat (?n + 1) + 1 < 2 ^ 64" "unat ?n + 1 < 2 ^ 64"
    using room by (simp_all add: unat_plus_1)
  have "take_free_block (st\<lparr>freed_blocks := freed_blocks st @ [a]\<rparr>)
      = (Ok ?n, st\<lparr>freed_blocks := freed_blocks st @ [a], next_free_block := ?n + 1\<rparr>)"
    "take_free_block (st\<lparr>freed_blocks := freed_blocks st @ [a], next_free_block := ?n + 1\<rparr>)
      = (Ok (?n + 1), ?st1)"
    using r1 take_free_block_Ok [of "st\<lparr>freed_blocks := freed_blocks st @ [a]\<rparr>"]
      take_free_block_Ok [of "st\<lparr>freed_blocks := freed_blocks st @ [a], next_free_block := ?n + 1\<rparr>"]
    by simp_all
  then have split: "split_internal_node n g a st = (Ok (?ln, ?rn, ?pk), ?st1)"
    using s(2) li R by (simp add: split_internal_node_def push_freed_block_def Let_def assertR_def)
  have inn: "inner_node ?ln (Suc h) (ptrs ?L)" "inner_node ?rn (Suc h) (ptrs ?R)"
    using n ptr li by (auto simp: inner_node_def take_map [symmetric] drop_map [symmetric])
  have fits: "node_fits ?ln" "node_fits ?rn"
    using s inner_node_fits [OF inn(1) h] inner_node_fits [OF inn(2) h] by auto
  have addr: "self_block_address ?rn = ?n" "self_block_address ?ln = ?n + 1"
    by simp_all
  obtain st' l' r' where w: "write_split_nodes (?ln, ?rn, ?pk) ?st1 = (Ok (?n + 1,
        Some \<lparr>split_key = ?pk, split_child_block = ?n\<rparr>), st')"
    "cow_step st st'" "unat (next_free_block st') = unat ?n + 2"
    "freed_blocks st' = freed_blocks st @ [a]"
    "rd D dev st' (?n + 1) = Ok l'" "same_content l' ?ln"
    "rd D dev st' ?n = Ok r'" "same_content r' ?rn"
    by (rule write_split_nodes_spec [OF fits addr room, where a = a and k = ?pk and D = D and dev = dev])
  have "\<forall>c\<in>set cs. stored (rd D dev st') h (snd c)"
    by (rule stored_children_step [OF w(2) b st])
  then have stored: "stored (rd D dev st') (Suc h) (BNode (?n + 1) ?L)"
      "stored (rd D dev st') (Suc h) (BNode ?n ?R)"
    using w(5,7) same_content_nodes(2) [OF w(6)] same_content_nodes(2) [OF w(8)] inn h
    by (auto dest: in_set_takeD in_set_dropD)
  have ap: "ch_inv (bt_inv Q h) lo (Some ?pk) ?L" "lo_less lo ?pk" "less_hi ?pk hi"
      "ch_inv (bt_inv Q h) (Some ?pk) hi ?R"
    using inv(1) ch_inv_append [OF ne, of "bt_inv Q h" lo hi] pk by auto
  have "bt_inv Q (Suc h) lo (Some ?pk) (BNode (?n + 1) ?L)" "bt_inv Q (Suc h) (Some ?pk) hi (BNode ?n ?R)"
    using ap inv(2,3) s pk by (auto dest: in_set_takeD in_set_dropD)
  then have ch: "ch_inv (bt_inv Q (Suc h)) lo hi [(k, BNode (?n + 1) ?L), (?pk, BNode ?n ?R)]"
    using ap by simp
  have Qpk: "Q ?pk"
    using inv(3) s(2) pk ne(2) by (metis in_set_dropD list.set_sel(1))
  have nodes: "mset (nodes_ch ?L) + mset (nodes_ch ?R) = mset (nodes_ch cs)"
    "items_ch ?L @ items_ch ?R = items_ch cs"
    by (metis append_take_drop_id concat_append map_append mset_append)+
  have "accounted a st st' (a # nodes_ch cs) (((?n + 1) # nodes_ch ?L) @ (?n # nodes_ch ?R))"
    using w(4) fresh_2 [OF w(3)] nodes(1) by (simp add: accounted_def)
  then have "grown Q (Suc h) lo hi k D dev st st' (a # nodes_ch cs) (items_ch cs)
      [(k, BNode (?n + 1) ?L), (?pk, BNode ?n ?R)] (?n + 1)
      (Some \<lparr>split_key = ?pk, split_child_block = ?n\<rparr>)"
    using w(2) stored ch Qpk nodes(2) by (simp add: grown_def res_ptrs_def)
  moreover have "widened (BNode a cs) [(k, BNode (?n + 1) ?L), (?pk, BNode ?n ?R)]
      (Some \<lparr>split_key = ?pk, split_child_block = ?n\<rparr>)"
    using len by (auto simp: widened_def dest: in_set_takeD in_set_dropD)
  ultimately show thesis
    using split w(1,3) that [of "?n + 1" "\<lparr>split_key = ?pk, split_child_block = ?n\<rparr>" st'
        "BNode (?n + 1) ?L" "BNode ?n ?R"] by simp
qed

section \<open>Insertion into a subtree\<close>

lemma update_child_inner:
  assumes "inner_node n (Suc h) (ptrs (xs @ c # ys))"
  shows "inner_node (update_child n (length xs) b g) (Suc h) (ptrs xs @ (fst c, b) # ptrs ys)"
proof -
  let ?is = "internal_items n"
  have ptr: "map item_ptr ?is = ptrs xs @ (fst c, root_of (snd c)) # ptrs ys"
    using assms by (simp add: inner_node_def)
  then obtain as i bs where ii: "?is = as @ i # bs" "map item_ptr as = ptrs xs" "map item_ptr bs = ptrs ys"
      "sep_key i = fst c"
    by (auto simp: map_eq_append_conv map_eq_Cons_conv)
  have "length as = length xs"
    using arg_cong [OF ii(2), of length] by simp
  then have "?is[length xs := (?is ! length xs)\<lparr>child_block := b, child_generation := g\<rparr>]
      = as @ i\<lparr>child_block := b, child_generation := g\<rparr> # bs"
    by (simp add: ii(1) nth_append list_update_append)
  then show ?thesis
    using assms ii by (simp add: update_child_def inner_node_def)
qed

lemma insert_promoted_inner:
  assumes n: "inner_node n (Suc h) (ptrs xs @ (k, b) # ptrs ys)" and z: "res_ptrs k zs b sp"
    and len: "length xs + length ys < 60000"
  obtains n' where "insert_promoted n (length xs) sp g = Ok n'" "inner_node n' (Suc h) (ptrs (xs @ zs @ ys))"
proof (cases sp)
  case None
  with n z that [of n] show thesis
    by (simp add: insert_promoted_def res_ptrs_def)
next
  case (Some s)
  let ?is = "internal_items n"
  obtain as i bs where ii: "?is = as @ i # bs" "map item_ptr as = ptrs xs" "map item_ptr bs = ptrs ys"
      "item_ptr i = (k, b)"
    using n by (auto simp: inner_node_def map_eq_append_conv map_eq_Cons_conv)
  have la: "length as = length xs" "length bs = length ys"
    using arg_cong [OF ii(2), of length] arg_cong [OF ii(3), of length] by simp_all
  have cnt: "item_count n = word_of_nat (Suc (length xs + length ys))"
    using n by (simp add: inner_node_def)
  have "unat (word_of_nat (Suc (length xs + length ys)) :: u16) + 1 < 2 ^ 16"
    using len by (simp add: unat_of_nat del: of_nat_Suc)
  then have "add_u (item_count n) 1 = Ok (item_count n + 1)"
    unfolding cnt by (intro add_u_Ok) simp
  moreover have "take (length xs + 1) ?is = as @ [i]" "drop (length xs + 1) ?is = bs"
    using la by (simp_all add: ii(1))
  ultimately have "insert_promoted n (length xs) sp g = Ok (n\<lparr>internal_items := (as @ [i])
      @ \<lparr>sep_key = split_key s, child_block = split_child_block s, child_generation = g\<rparr> # bs,
      item_count := item_count n + 1\<rparr>)"
    by (simp add: insert_promoted_def Some)
  moreover have "ptrs (xs @ zs @ ys) = ptrs xs @ [(k, b), (split_key s, split_child_block s)] @ ptrs ys"
    using z Some by (simp add: res_ptrs_def)
  then have "inner_node (n\<lparr>internal_items := (as @ [i])
      @ \<lparr>sep_key = split_key s, child_block = split_child_block s, child_generation = g\<rparr> # bs,
      item_count := item_count n + 1\<rparr>) (Suc h) (ptrs (xs @ zs @ ys))"
    using n ii by (simp add: inner_node_def add.commute)
  ultimately show thesis
    by (rule that)
qed

lemma inner_node_length: "inner_node n h ps \<Longrightarrow> length (internal_items n) = length ps"
  by (auto simp: inner_node_def)

lemma res_ptrs_hd: "res_ptrs k zs a sp \<Longrightarrow> zs \<noteq> [] \<and> fst (hd zs) = k \<and> length zs \<le> 2"
  by (cases zs) (auto simp: res_ptrs_def split: option.splits)

text \<open>The tail of the internal-node branch: the node with the changed child is cloned or split.\<close>

lemma finish_inner:
  fixes D :: "'d block_device" and dev :: 'd
  assumes n: "inner_node n (Suc h) (ptrs cs)" and h: "Suc h < 256"
    and inv: "ch_inv (bt_inv Q h) lo hi cs" "le_lo (fst (hd cs)) lo" "\<forall>c\<in>set cs. Q (fst c)"
    and len: "length cs \<le> 91"
    and st: "\<forall>c\<in>set cs. stored (rd D dev st) h (snd c)" and b: "below st (nodes_ch cs)"
    and room: "unat (next_free_block st) + 2 < 2 ^ 64"
  shows "\<exists>st' b sp zs. (if length (internal_items n) \<le> INTERNAL_MAX_ITEMS
       then bindS (write_cow_clone n g a) (\<lambda>new_block. retS (new_block, None))
       else bindS (split_internal_node n g a) write_split_nodes) st = (Ok (b, sp), st') \<and>
    unat (next_free_block st') \<le> unat (next_free_block st) + 2 \<and>
    grown Q (Suc h) lo hi k D dev st st' (a # nodes_ch cs) (items_ch cs) zs b sp \<and>
    widened (BNode a cs) zs sp"
proof -
  have li: "length (internal_items n) = length cs"
    using inner_node_length [OF n] by simp
  show ?thesis
  proof (cases "length cs \<le> 90")
    case True
    then have bi: "bt_inv Q (Suc h) lo hi (BNode b cs)" for b
      using inv by simp
    have r1: "unat (next_free_block st) + 1 < 2 ^ 64"
      using room by simp
    obtain st' b where "write_cow_clone n g a st = (Ok b, st')"
      "unat (next_free_block st') = unat (next_free_block st) + 1"
      "grown Q (Suc h) lo hi k D dev st st' (a # nodes_ch cs) (items_ch cs) [(k, BNode b cs)] b None"
      by (rule clone_inner [OF n h bi st b r1, where g = g and a = a and k = k])
    moreover have "widened (BNode a cs) [(k, BNode b cs)] None"
      by (simp add: widened_def)
    ultimately show ?thesis
      using True li
      by (intro exI [of _ st'] exI [of _ b] exI [of _ None] exI [of _ "[(k, BNode b cs)]"])
        (auto simp: INTERNAL_MAX_ITEMS_def)
  next
    case False
    then have big: "90 < length cs" by simp
    obtain st' b sp l r where "bindS (split_internal_node n g a) write_split_nodes st = (Ok (b, Some sp), st')"
      "unat (next_free_block st') = unat (next_free_block st) + 2"
      "grown Q (Suc h) lo hi k D dev st st' (a # nodes_ch cs) (items_ch cs)
         [(k, l), (split_key sp, r)] b (Some sp)"
      "widened (BNode a cs) [(k, l), (split_key sp, r)] (Some sp)"
      by (rule split_inner [OF n h inv big len st b room, where g = g and a = a and k = k])
    then show ?thesis
      using False li
      by (intro exI [of _ st'] exI [of _ b] exI [of _ "Some sp"] exI [of _ "[(k, l), (split_key sp, r)]"])
        (auto simp: INTERNAL_MAX_ITEMS_def)
  qed
qed

lemma finish_leaf:
  fixes D :: "'d block_device" and dev :: 'd
  assumes n: "leaf_node n its" and s: "sorted_items its"
    and ok: "\<forall>i\<in>set its. Q (item_key i) \<and> small_value (item_value i) \<and>
        lo_le lo (item_key i) \<and> less_hi (item_key i) hi"
    and bound: "leaf_serialised_size its \<le> 6132"
    and room: "unat (next_free_block st) + 2 < 2 ^ 64"
  shows "\<exists>st' b sp zs. (if \<not> leaf_node_would_overflow (leaf_items n)
       then bindS (write_cow_clone n g a) (\<lambda>new_block. retS (new_block, None))
       else bindS (split_leaf_node n g a) write_split_nodes) st = (Ok (b, sp), st') \<and>
    unat (next_free_block st') \<le> unat (next_free_block st) + 2 \<and>
    grown Q 0 lo hi k D dev st st' [a] its zs b sp"
proof (cases "leaf_serialised_size its \<le> 4096")
  case True
  then have bi: "bt_inv Q 0 lo hi (BLeaf b its)" for b
    using s ok by simp
  have r1: "unat (next_free_block st) + 1 < 2 ^ 64"
    using room by simp
  obtain st' b where "write_cow_clone n g a st = (Ok b, st')"
    "unat (next_free_block st') = unat (next_free_block st) + 1"
    "grown Q 0 lo hi k D dev st st' [a] its [(k, BLeaf b its)] b None"
    by (rule clone_leaf [OF n bi r1, where g = g and a = a and k = k and D = D and dev = dev])
  then show ?thesis
    using True n by (intro exI conjI) (auto simp: leaf_node_would_overflow_def leaf_node_def)
next
  case False
  then have big: "leaf_serialised_size its > 4096" by simp
  obtain st' b sp l r where "bindS (split_leaf_node n g a) write_split_nodes st = (Ok (b, Some sp), st')"
    "unat (next_free_block st') = unat (next_free_block st) + 2"
    "grown Q 0 lo hi k D dev st st' [a] its [(k, l), (split_key sp, r)] b (Some sp)"
    by (rule split_leaf [OF n s ok big bound room, where g = g and a = a and k = k and D = D and dev = dev])
  then show ?thesis
    using False n by (intro exI conjI) (auto simp: leaf_node_would_overflow_def leaf_node_def)
qed

text \<open>The main induction.\<close>

lemma insert_recursive_spec:
  fixes D :: "'d block_device" and dev :: 'd
  assumes "stored (rd D dev st) h t" "bt_inv Q h lo hi t" "below st (nodes_of t)"
    and "lo_le lo key" "less_hi key hi" "Q key" "small_value v" "h < fuel"
    and "unat (next_free_block st) + 2 * (h + 1) < 2 ^ 64"
  shows "\<exists>st' b sp zs. insert_recursive fuel D dev (root_of t) key v g st = (Ok (b, sp), st') \<and>
    unat (next_free_block st') \<le> unat (next_free_block st) + 2 * (h + 1) \<and>
    grown Q h lo hi k D dev st st' (nodes_of t) (upd_items key v (items_of t)) zs b sp \<and> widened t zs sp"
  using assms
proof (induction h arbitrary: fuel lo hi t st k)
  case 0
  then obtain f a its n where f: "fuel = Suc f" and t: "t = BLeaf a its"
      and n: "rd D dev st a = Ok n" "leaf_node n its"
    by (cases fuel; cases t) auto
  have inv: "sorted_items its" "leaf_serialised_size its \<le> 4096"
      "\<forall>i\<in>set its. Q (item_key i) \<and> small_value (item_value i) \<and> lo_le lo (item_key i) \<and> less_hi (item_key i) hi"
    using "0.prems"(2) t by auto
  have "length its < 65535"
    using size_length [of its] inv(2) by linarith
  then obtain n' where n': "insert_into_leaf n key v = Ok n'" "leaf_node n' (upd_items key v its)"
    using insert_into_leaf_spec [OF n(2) inv(1)] by blast
  have ok: "\<forall>i\<in>set (upd_items key v its). Q (item_key i) \<and> small_value (item_value i) \<and>
      lo_le lo (item_key i) \<and> less_hi (item_key i) hi"
    using inv(3) "0.prems"(4-7) by (induction key v its rule: upd_items.induct) auto
  have "leaf_serialised_size (upd_items key v its) \<le> 6132"
    using size_upd_items [of key v its] inv(2) "0.prems"(7) by (simp add: small_value_def)
  moreover have "unat (next_free_block st) + 2 < 2 ^ 64"
    using "0.prems"(9) by simp
  ultimately obtain st' b sp zs where fin: "(if \<not> leaf_node_would_overflow (leaf_items n')
       then bindS (write_cow_clone n' g a) (\<lambda>new_block. retS (new_block, None))
       else bindS (split_leaf_node n' g a) write_split_nodes) st = (Ok (b, sp), st')"
      "unat (next_free_block st') \<le> unat (next_free_block st) + 2"
      "grown Q 0 lo hi k D dev st st' [a] (upd_items key v its) zs b sp"
    using finish_leaf [OF n'(2) sorted_upd_items [OF inv(1)] ok, of st g a k D dev] by blast
  have "widened t zs sp"
    using fin(3) widened_leaves by (auto simp: grown_def)
  with fin show ?case
    using n f t n'(1)
    by (intro exI [of _ st'] exI [of _ b] exI [of _ sp] exI [of _ zs]) (simp add: leaf_node_def)
next
  case (Suc h)
  then obtain f a cs n where f: "fuel = Suc f" and t: "t = BNode a cs"
      and n: "rd D dev st a = Ok n" "inner_node n (Suc h) (ptrs cs)" and h: "Suc h < 256"
      and st: "\<forall>c\<in>set cs. stored (rd D dev st) h (snd c)"
    by (cases fuel; cases t) auto
  have inv: "ch_inv (bt_inv Q h) lo hi cs" "le_lo (fst (hd cs)) lo" "\<forall>c\<in>set cs. Q (fst c)" "length cs \<le> 90"
    using Suc.prems(2) t by auto
  obtain xs c ys where r: "cs = xs @ c # ys" "routes key xs c ys"
      "find_child_index_for_key (internal_items n) key = length xs"
      "length xs < length (internal_items n)"
      "child_block (internal_items n ! length xs) = root_of (snd c)"
    using route_exists [OF n(2) inv(1)] .
  have below: "below st (nodes_of (snd c))" "below st (nodes_ch xs @ nodes_ch ys)" "below st [a]"
    using Suc.prems(3) by (auto simp: below_def t r(1))
  have bounds: "lo_le (ch_lo lo xs (fst c)) key" "less_hi key (ch_hi hi ys)"
    using route_bounds [OF r(2) Suc.prems(4,5)] by auto
  have "c \<in> set cs" using r(1) by simp
  then obtain s1 b1 sp1 zs where
    rec: "insert_recursive f D dev (root_of (snd c)) key v g st = (Ok (b1, sp1), s1)"
    and next1: "unat (next_free_block s1) \<le> unat (next_free_block st) + 2 * (h + 1)"
    and g: "grown Q h (ch_lo lo xs (fst c)) (ch_hi hi ys) (fst c) D dev st s1 (nodes_of (snd c))
        (upd_items key v (items_of (snd c))) zs b1 sp1"
    and wd: "widened (snd c) zs sp1"
    using Suc.IH [of st "snd c" "ch_lo lo xs (fst c)" "ch_hi hi ys" f "fst c"]
      st ch_inv_child [OF inv(1) [unfolded r(1)]] below(1) bounds Suc.prems(6-9) f by auto
  have z: "res_ptrs (fst c) zs b1 sp1" "ch_inv (bt_inv Q h) (ch_lo lo xs (fst c)) (ch_hi hi ys) zs"
      "\<forall>c\<in>set zs. stored (rd D dev s1) h (snd c)" "\<forall>c\<in>set (tl zs). Q (fst c)"
      "items_ch zs = upd_items key v (items_of (snd c))" "cow_step st s1"
      "accounted (hd (nodes_of (snd c))) st s1 (nodes_of (snd c)) (nodes_ch zs)"
    using g by (auto simp: grown_def)
  note zh = res_ptrs_hd [OF z(1)]
  let ?cs = "xs @ zs @ ys"
  obtain n' where n': "insert_promoted (update_child n (length xs) b1 g) (length xs) sp1 g = Ok n'"
      "inner_node n' (Suc h) (ptrs ?cs)"
    using insert_promoted_inner [OF update_child_inner [OF n(2) [unfolded r(1)]] z(1)] inv(4) r(1) by auto
  have inv': "ch_inv (bt_inv Q h) lo hi ?cs"
    using ch_inv_replace [OF inv(1) [unfolded r(1)]] zh z(2) by simp
  have hd': "le_lo (fst (hd ?cs)) lo"
    using inv(2) zh r(1) by (cases xs) auto
  have Q': "\<forall>c\<in>set ?cs. Q (fst c)"
    using inv(3) z(4) zh r(1) by (cases zs) auto
  have len': "length ?cs \<le> 91"
    using inv(4) zh r(1) by simp
  have b': "below s1 (nodes_ch ?cs)"
    using below_step [OF z(6) below(2)] accounted_below [OF z(7) below(1) z(6)] by (auto simp: below_def)
  have st': "\<forall>c\<in>set ?cs. stored (rd D dev s1) h (snd c)"
    using z(3) stored_children_step [OF z(6), of "xs @ ys" D dev h] below(2) st r(1) by auto
  have room: "unat (next_free_block s1) + 2 < 2 ^ 64"
    using next1 Suc.prems(9) by simp
  obtain st' b sp zs' where
    fin: "(if length (internal_items n') \<le> INTERNAL_MAX_ITEMS
       then bindS (write_cow_clone n' g a) (\<lambda>new_block. retS (new_block, None))
       else bindS (split_internal_node n' g a) write_split_nodes) s1 = (Ok (b, sp), st')"
      "unat (next_free_block st') \<le> unat (next_free_block s1) + 2"
      "grown Q (Suc h) lo hi k D dev s1 st' (a # nodes_ch ?cs) (items_ch ?cs) zs' b sp"
      "widened (BNode a ?cs) zs' sp"
    using finish_inner [OF n'(2) h inv' hd' Q' len' st' b' room, of g a k] by blast
  have "insert_recursive fuel D dev (root_of t) key v g st = (Ok (b, sp), st')"
    using f t n(1) level_nonzero [OF n(2) h] r(3-5) rec n'(1) fin(1) by (simp add: Let_def assertR_def)
  moreover have items: "items_ch ?cs = upd_items key v (items_of t)"
    using route_items [OF inv(1) [unfolded r(1)] r(2)] z(5)
    by (simp add: t r(1) upd_items_append upd_items_append2)
  have "grown Q (Suc h) lo hi k D dev st st' (nodes_of t) (upd_items key v (items_of t)) zs' b sp"
  proof -
    have "accounted a s1 st' (nodes_ch zs @ (a # nodes_ch xs @ nodes_ch ys)) (nodes_ch zs')"
      using fin(3) by (auto simp: grown_def intro: accounted_cong)
    with z(6,7) fin(3) have "accounted a st st' (nodes_of (snd c) @ (a # nodes_ch xs @ nodes_ch ys)) (nodes_ch zs')"
      by (intro accounted_trans [of _ st s1]) (auto simp: grown_def)
    then have "accounted a st st' (nodes_of t) (nodes_ch zs')"
      by (rule accounted_cong) (simp_all add: t r(1))
    with fin(3) z(6) items show ?thesis
      by (auto simp: grown_def t intro: cow_step_trans)
  qed
  moreover have "widened t zs' sp"
    using widened_step [OF wd _ fin(4)] zh by (simp add: t r(1))
  ultimately show ?case
    using next1 fin(2) by (intro exI [of _ st'] exI [of _ b] exI [of _ sp] exI [of _ zs']) auto
qed

end
