(* ===== verification/Btree_Map.thy ===== *)
theory Btree_Map
  imports Btree_Write
begin

text \<open>
  The tree operations as operations on a map. \<open>tree_ok\<close> is the representation invariant of a tree
  in a copy-on-write state; the theorems say that lookup, scan, insertion and deletion of
  \<open>btree.rs\<close> implement the corresponding operations on sorted item lists, and hence on finite maps,
  and that they account for every block.
\<close>

section \<open>Root growth\<close>

definition tree_ok :: "(bafs_key \<Rightarrow> bool) \<Rightarrow> bafs_key option \<Rightarrow> 'd block_device \<Rightarrow> 'd \<Rightarrow> cow_state \<Rightarrow> nat
    \<Rightarrow> btree \<Rightarrow> bool" where
  "tree_ok Q lo D dev st h t \<longleftrightarrow>
     stored (rd D dev st) h t \<and> bt_inv Q h lo None t \<and> below st (nodes_of t)"

text \<open>Where the tree has a lower bound, the bound is the first key, so that the separators of new
  roots respect it.\<close>

definition anchored :: "bafs_key option \<Rightarrow> bafs_leaf_item list \<Rightarrow> bool" where
  "anchored lo its \<longleftrightarrow> lo = None \<or> (its \<noteq> [] \<and> le_lo (item_key (hd its)) lo)"

text \<open>Root splits push the old root on the freed list a second time.\<close>

definition root_accounted :: "cow_state \<Rightarrow> cow_state \<Rightarrow> u64 list \<Rightarrow> btree \<Rightarrow> btree \<Rightarrow> bool" where
  "root_accounted st st' again t t' \<longleftrightarrow> (\<exists>path. freed_blocks st' = freed_blocks st @ path @ [root_of t] @ again \<and>
     mset (path @ [root_of t]) + mset (nodes_of t')
       = mset (nodes_of t) + mset (fresh (next_free_block st) (next_free_block st')))"

lemma hd_nodes_of: "hd (nodes_of t) = root_of t"
  by (cases t) auto

lemma left_first_key:
  fixes lo :: "bafs_key option"
  assumes "stored rd' h l" "bt_inv Q h lo hi l" "h = 0 \<longrightarrow> items_of l \<noteq> []"
    and "anchored lo (items_of l @ rest)" "h < 255"
  obtains n k where "rd' (root_of l) = Ok n" "level n = word_of_nat h"
    "(if level n = 0
      then (case leaf_items n of [] \<Rightarrow> Panic | item # _ \<Rightarrow> Ok (item_key item))
      else (case internal_items n of [] \<Rightarrow> Panic | item # _ \<Rightarrow> Ok (sep_key item))) = Ok k"
    "Q k" "le_lo k lo"
proof (cases h)
  case 0
  then obtain a its n where l: "l = BLeaf a its" "rd' a = Ok n" "leaf_node n its"
    using assms(1) by (cases l) auto
  obtain i is' where i: "its = i # is'"
    using assms(3) 0 l by (cases its) auto
  show thesis
    using assms(2,4) 0 l i
    by (intro that [of n "item_key i"]) (auto simp: leaf_node_def anchored_def)
next
  case (Suc h')
  then obtain a cs n where l: "l = BNode a cs" "rd' a = Ok n" "inner_node n (Suc h') (ptrs cs)" "Suc h' < 256"
    using assms(1) by (cases l) auto
  have inv: "ch_inv (bt_inv Q h') lo hi cs" "le_lo (fst (hd cs)) lo" "\<forall>c\<in>set cs. Q (fst c)"
    using assms(2) Suc l(1) by auto
  obtain c cs' where cs: "cs = c # cs'"
    using inv(1) by (cases cs) auto
  then obtain i is' where i: "internal_items n = i # is'" "sep_key i = fst c"
    using l(3) by (auto simp: inner_node_def map_eq_Cons_conv)
  show thesis
    using level_nonzero [OF l(3,4)] l inv cs i Suc
    by (intro that [of n "sep_key i"]) (simp_all add: inner_node_def)
qed

lemma insert_into_tree_spec:
  fixes D :: "'d block_device" and dev :: 'd
  assumes t: "tree_ok Q lo D dev st h t" and key: "lo_le lo key" "Q key" "small_value v"
    and fuel: "h < fuel" and h: "h < 255" and room: "unat (next_free_block st) + 2 * (h + 1) + 1 < 2 ^ 64"
    and anch: "anchored lo (upd_items key v (items_of t))"
  shows "\<exists>st' t' h'. insert_into_tree fuel D dev (root_of t) key v g st = (Ok (root_of t'), st') \<and>
    tree_ok Q lo D dev st' h' t' \<and> items_of t' = upd_items key v (items_of t) \<and> cow_step st st' \<and>
    unat (next_free_block st') \<le> unat (next_free_block st) + 2 * (h + 1) + 1 \<and>
    (h' = h \<and> root_accounted st st' [] t t' \<or> h' = Suc h \<and> root_accounted st st' [root_of t] t t') \<and>
    (wide_root t \<longrightarrow> wide_root t')"
proof -
  have T: "stored (rd D dev st) h t" "bt_inv Q h lo None t" "below st (nodes_of t)"
    using t by (simp_all add: tree_ok_def)
  have r1: "unat (next_free_block st) + 2 * (h + 1) < 2 ^ 64"
    using room by simp
  obtain s1 b sp zs where
    rec: "insert_recursive fuel D dev (root_of t) key v g st = (Ok (b, sp), s1)"
    and next1: "unat (next_free_block s1) \<le> unat (next_free_block st) + 2 * (h + 1)"
    and g: "grown Q h lo None key D dev st s1 (nodes_of t) (upd_items key v (items_of t)) zs b sp"
    and wd: "widened t zs sp"
    using insert_recursive_spec [OF T key(1) _ key(2,3) fuel r1, of g key] by auto
  have z: "res_ptrs key zs b sp" "ch_inv (bt_inv Q h) lo None zs"
      "\<forall>c\<in>set zs. stored (rd D dev s1) h (snd c)" "\<forall>c\<in>set (tl zs). Q (fst c)"
      "items_ch zs = upd_items key v (items_of t)" "cow_step st s1"
      "accounted (hd (nodes_of t)) st s1 (nodes_of t) (nodes_ch zs)"
      "sp \<noteq> None \<longrightarrow> h = 0 \<longrightarrow> items_of (snd (hd zs)) \<noteq> []"
    using g unfolding grown_def by blast+
  have b1: "below s1 (nodes_ch zs)"
    by (rule accounted_below [OF z(7) T(3) z(6)])
  show ?thesis
  proof (cases sp)
    case None
    then obtain t' where zs: "zs = [(key, t')]" "root_of t' = b"
      using z(1) by (cases zs) (auto simp: res_ptrs_def)
    have "tree_ok Q lo D dev s1 h t'" "items_of t' = upd_items key v (items_of t)" "root_accounted st s1 [] t t'"
      using z b1 zs by (auto simp: tree_ok_def root_accounted_def accounted_def hd_nodes_of)
    moreover have "insert_into_tree fuel D dev (root_of t) key v g st = (Ok (root_of t'), s1)"
      using rec None zs by (simp add: insert_into_tree_def)
    moreover have "wide_root t \<longrightarrow> wide_root t'"
      using wd zs by (simp add: widened_def)
    ultimately show ?thesis
      using z(6) next1 by (intro exI [of _ s1] exI [of _ t'] exI [of _ h]) auto
  next
    case (Some s)
    then obtain l r where zs: "zs = [(key, l), (split_key s, r)]" "root_of l = b" "root_of r = split_child_block s"
      using z(1) by (auto simp: res_ptrs_def map_eq_Cons_conv)
    have lr: "bt_inv Q h lo (Some (split_key s)) l" "lo_less lo (split_key s)"
        "bt_inv Q h (Some (split_key s)) None r" "Q (split_key s)"
        "stored (rd D dev s1) h l" "stored (rd D dev s1) h r"
        "items_of l @ items_of r = upd_items key v (items_of t)" "h = 0 \<longrightarrow> items_of l \<noteq> []"
      using z zs Some by auto
    have anch': "anchored lo (items_of l @ items_of r)"
      using anch lr(7) by simp
    obtain n k where n: "rd D dev s1 (root_of l) = Ok n" "level n = word_of_nat h"
      and k: "(if level n = 0
        then (case leaf_items n of [] \<Rightarrow> Panic | item # _ \<Rightarrow> Ok (item_key item))
        else (case internal_items n of [] \<Rightarrow> Panic | item # _ \<Rightarrow> Ok (sep_key item))) = Ok k"
        "Q k" "le_lo k lo"
      by (rule left_first_key [OF lr(5,1,8) anch' h])
    let ?N = "next_free_block s1"
    let ?s2 = "s1\<lparr>freed_blocks := freed_blocks s1 @ [root_of t], next_free_block := ?N + 1\<rparr>"
    let ?root = "\<lparr>node_checksum = 0, level = word_of_nat (Suc h), node_flags = 0, item_count = 2,
            self_block_address = ?N, node_generation = g, leaf_items = [],
            internal_items =
              [\<lparr>sep_key = k, child_block = root_of l, child_generation = g\<rparr>,
               \<lparr>sep_key = split_key s, child_block = root_of r, child_generation = g\<rparr>]\<rparr>"
    let ?cs = "[(k, l), (split_key s, r)]"
    have room1: "unat ?N + 1 < 2 ^ 64"
      using next1 room by simp
    have inner: "inner_node ?root (Suc h) (ptrs ?cs)"
      by (simp add: inner_node_def)
    then have fits: "node_fits ?root"
      using h by (intro inner_node_fits [of _ h]) auto
    obtain blk n' where w: "write_tree_node_to_cache ?root ?s2
        = (Ok (), ?s2\<lparr>dirty_cache := map_insert (self_block_address ?root) blk (dirty_cache ?s2)\<rparr>)"
      "length blk = 4096" "same_content n' ?root"
      "read_tree_node D dev (map_insert (self_block_address ?root) blk (dirty_cache ?s2))
        = (rd D dev ?s2)(self_block_address ?root := Ok n')"
      by (rule write_tree_node_rd [OF fits, of ?s2 D dev])
    let ?s3 = "?s2\<lparr>dirty_cache := map_insert ?N blk (dirty_cache s1)\<rparr>"
    let ?t' = "BNode ?N ?cs"
    have "unat (word_of_nat h :: u8) + unat (1 :: u8) < 2 ^ LENGTH(8)"
      using h by (simp add: unat_of_nat)
    then have lev: "add_u (word_of_nat h :: u8) 1 = Ok (word_of_nat (Suc h))"
      by (subst add_u_Ok) (simp_all add: add.commute)
    have take: "take_free_block (s1\<lparr>freed_blocks := freed_blocks s1 @ [root_of t]\<rparr>) = (Ok ?N, ?s2)"
      using take_free_block_Ok [of "s1\<lparr>freed_blocks := freed_blocks s1 @ [root_of t]\<rparr>"] room1 by simp
    have run: "insert_into_tree fuel D dev (root_of t) key v g st = (Ok (root_of ?t'), ?s3)"
      using rec Some zs n k(1) w(1) take lev
      by (simp add: insert_into_tree_def push_freed_block_def del: of_nat_Suc)
    have N: "unat (?N + 1) = unat ?N + 1"
      using room1 by (simp add: unat_plus_1)
    have step: "cow_step s1 ?s3"
      using N w(2) cache_ok_insert by (auto simp: cow_step_def)
    have "below s1 (nodes_of l)" "below s1 (nodes_of r)"
      using b1 zs by (auto simp: below_def)
    then have "stored (rd D dev ?s3) h l" "stored (rd D dev ?s3) h r"
      using stored_step [OF step _ lr(5)] stored_step [OF step _ lr(6)] by auto
    moreover have "rd D dev ?s3 ?N = Ok n'"
      using w(4) by simp
    ultimately have "stored (rd D dev ?s3) (Suc h) ?t'"
      using same_content_nodes(2) [OF w(3)] inner h by (simp del: of_nat_Suc)
    moreover have "bt_inv Q (Suc h) lo None ?t'"
      using lr k(2,3) by simp
    moreover have "below ?s3 (nodes_of ?t')"
      using \<open>below s1 (nodes_of l)\<close> \<open>below s1 (nodes_of r)\<close> N by (auto simp: below_def)
    ultimately have ok: "tree_ok Q lo D dev ?s3 (Suc h) ?t'"
      by (simp add: tree_ok_def)
    obtain path where path: "freed_blocks s1 = freed_blocks st @ path @ [root_of t]"
      "mset (path @ [root_of t]) + mset (nodes_ch zs) = mset (nodes_of t) + mset (fresh (next_free_block st) ?N)"
      using z(7) by (auto simp: accounted_def hd_nodes_of)
    have "fresh (next_free_block st) (?N + 1) = fresh (next_free_block st) ?N @ [?N]"
      using fresh_append [OF cow_step_next [OF z(6)], of "?N + 1"] N fresh_1 [of "?N + 1" ?N] by simp
    then have "root_accounted st ?s3 [root_of t] t ?t'"
      using path zs by (auto simp: root_accounted_def)
    moreover have "wide_root t \<longrightarrow> wide_root ?t'"
      using wd zs Some by (simp add: widened_def)
    ultimately show ?thesis
      using run ok lr(7) cow_step_trans [OF z(6) step] N next1
      by (intro exI [of _ ?s3] exI [of _ ?t'] exI [of _ "Suc h"]) simp
  qed
qed

section \<open>Deletion\<close>

lemma delete_recursive_missing:
  assumes "stored (rd D dev st) h t" "bt_inv Q h lo hi t" "h < fuel" "kv_map (items_of t) key = None"
  shows "delete_recursive fuel D dev (root_of t) key g st = (Err NotFound, st)"
  using assms
proof (induction h arbitrary: fuel lo hi t)
  case 0
  then obtain f a its n where f: "fuel = Suc f" and t: "t = BLeaf a its"
      and n: "rd D dev st a = Ok n" "leaf_node n its"
    by (cases fuel; cases t) auto
  have "sorted_wrt (<) (item_keys its)"
    using "0.prems"(2) t by (simp add: sorted_items_def)
  from binary_search_sorted [OF this, of key] "0.prems"(4)
  obtain i where "binary_search_by_key key item_key its = SearchErr i"
    by (auto simp: t kv_map_None)
  then show ?case
    using n f t by (simp add: leaf_node_def bindS_def)
next
  case (Suc h)
  then obtain f a cs n where f: "fuel = Suc f" and t: "t = BNode a cs"
      and n: "rd D dev st a = Ok n" "inner_node n (Suc h) (ptrs cs)" and h: "Suc h < 256"
      and st: "\<forall>c\<in>set cs. stored (rd D dev st) h (snd c)"
    by (cases fuel; cases t) auto
  have inv: "ch_inv (bt_inv Q h) lo hi cs"
    using Suc.prems(2) t by simp
  obtain xs c ys where r: "cs = xs @ c # ys" "routes key xs c ys"
      "find_child_index_for_key (internal_items n) key = length xs"
      "length xs < length (internal_items n)"
      "child_block (internal_items n ! length xs) = root_of (snd c)"
    using route_exists [OF n(2) inv] .
  have "kv_map (items_of (snd c)) key = None"
    using Suc.prems(4) by (auto simp: kv_map_None t r(1))
  then have "delete_recursive f D dev (root_of (snd c)) key g st = (Err NotFound, st)"
    using Suc.IH [OF _ ch_inv_child [OF inv [unfolded r(1)]]] st r(1) Suc.prems(3) f by simp
  then show ?case
    using f t n h r(3-5) level_nonzero [OF n(2) h] by (simp add: Let_def assertR_def bindS_def)
qed

lemma delete_leaf_items:
  assumes "sorted_items its" "kv_map its key \<noteq> None"
  obtains i where "binary_search_by_key key item_key its = SearchOk i" "i < length its"
    "take i its @ drop (i + 1) its = del_items key its"
proof -
  have "sorted_wrt (<) (item_keys its)"
    using assms(1) by (simp add: sorted_items_def)
  from binary_search_sorted [OF this, of key] assms(2)
  obtain as x bs where b: "its = as @ x # bs" "item_key x = key"
      "binary_search_by_key key item_key its = SearchOk (length as)"
    by (auto simp: kv_map_None)
  have "key \<notin> item_key ` set as" "key \<notin> item_key ` set bs"
    using assms(1) b(1,2) by (auto simp: sorted_items_append)
  then have "del_items key its = as @ bs"
    using b(1,2) by (simp add: del_items_other del_items_def [of key "x # bs"])
      (simp add: del_items_def [symmetric] del_items_other)
  with b that [of "length as"] show thesis by simp
qed

lemma delete_recursive_spec:
  fixes D :: "'d block_device" and dev :: 'd
  assumes "stored (rd D dev st) h t" "bt_inv Q h lo hi t" "below st (nodes_of t)"
    and "h < fuel" "kv_map (items_of t) key \<noteq> None"
    and "unat (next_free_block st) + (h + 1) < 2 ^ 64"
  shows "\<exists>st' t'. delete_recursive fuel D dev (root_of t) key g st = (Ok (root_of t', True), st') \<and>
    unat (next_free_block st') = unat (next_free_block st) + (h + 1) \<and>
    grown Q h lo hi k D dev st st' (nodes_of t) (del_items key (items_of t)) [(k, t')] (root_of t') None \<and>
    widened t [(k, t')] (None :: unit option)"
  using assms
proof (induction h arbitrary: fuel lo hi t k)
  case 0
  then obtain f a its n where f: "fuel = Suc f" and t: "t = BLeaf a its"
      and n: "rd D dev st a = Ok n" "leaf_node n its"
    by (cases fuel; cases t) auto
  have inv: "sorted_items its" "leaf_serialised_size its \<le> 4096"
      "\<forall>i\<in>set its. Q (item_key i) \<and> small_value (item_value i) \<and> lo_le lo (item_key i) \<and> less_hi (item_key i) hi"
    using "0.prems"(2) t by auto
  obtain i where i: "binary_search_by_key key item_key its = SearchOk i" "i < length its"
      "take i its @ drop (i + 1) its = del_items key its"
    using delete_leaf_items [OF inv(1)] "0.prems"(5) t by auto
  have len: "length (del_items key its) = length its - 1"
    using arg_cong [OF i(3), of length] i(2) by simp
  have lt: "length its < 65535"
    using size_length [of its] inv(2) by linarith
  have cnt: "item_count n = word_of_nat (length its)" "leaf_items n = its" "level n = 0"
    using n(2) by (simp_all add: leaf_node_def)
  have "1 \<le> item_count n"
    using lt i(2) by (simp add: cnt word_le_nat_alt unat_of_nat)
  then have sub: "sub_u (item_count n) 1 = Ok (word_of_nat (length (del_items key its)))"
    using len i(2) by (simp add: sub_u_def cnt of_nat_diff)
  let ?n = "n\<lparr>leaf_items := del_items key its, item_count := word_of_nat (length (del_items key its))\<rparr>"
  have n': "leaf_node ?n (del_items key its)"
    using n(2) by (simp add: leaf_node_def)
  have bi: "bt_inv Q 0 lo hi (BLeaf b (del_items key its))" for b
    using inv sorted_del_items [OF inv(1)] size_del_items [of key its] by (auto simp: del_items_def)
  have r1: "unat (next_free_block st) + 1 < 2 ^ 64"
    using "0.prems"(6) by simp
  obtain st' b where w: "write_cow_clone ?n g a st = (Ok b, st')"
      "unat (next_free_block st') = unat (next_free_block st) + 1"
      "grown Q 0 lo hi k D dev st st' [a] (del_items key its) [(k, BLeaf b (del_items key its))] b None"
    by (rule clone_leaf [OF n' bi r1, where g = g and a = a and k = k and D = D and dev = dev])
  have "delete_recursive fuel D dev (root_of t) key g st = (Ok (b, True), st')"
    using f t n(1) cnt i sub w(1) by simp
  with w show ?case
    by (intro exI [of _ st'] exI [of _ "BLeaf b (del_items key its)"]) (simp add: t widened_def)
next
  case (Suc h)
  then obtain f a cs n where f: "fuel = Suc f" and t: "t = BNode a cs"
      and n: "rd D dev st a = Ok n" "inner_node n (Suc h) (ptrs cs)" and h: "Suc h < 256"
      and st: "\<forall>c\<in>set cs. stored (rd D dev st) h (snd c)"
    by (cases fuel; cases t) auto
  have inv: "ch_inv (bt_inv Q h) lo hi cs" "le_lo (fst (hd cs)) lo" "\<forall>c\<in>set cs. Q (fst c)" "length cs \<le> 90"
    using Suc.prems(2) t by auto
  obtain xs c ys where r: "cs = xs @ c # ys" "routes key xs c ys"
      "find_child_index_for_key (internal_items n) key = length xs"
      "length xs < length (internal_items n)"
      "child_block (internal_items n ! length xs) = root_of (snd c)"
    using route_exists [OF n(2) inv(1)] .
  have below: "below st (nodes_of (snd c))" "below st (nodes_ch xs @ nodes_ch ys)"
    using Suc.prems(3) by (auto simp: below_def t r(1))
  note items = route_items [OF inv(1) [unfolded r(1)] r(2)]
  have "kv_map (items_of (snd c)) key \<noteq> None"
    using Suc.prems(5) kv_map_route [OF items, of "items_of (snd c)"] by (simp add: t r(1))
  then obtain s1 c' where
    rec: "delete_recursive f D dev (root_of (snd c)) key g st = (Ok (root_of c', True), s1)"
    and next1: "unat (next_free_block s1) = unat (next_free_block st) + (h + 1)"
    and gr: "grown Q h (ch_lo lo xs (fst c)) (ch_hi hi ys) (fst c) D dev st s1 (nodes_of (snd c))
        (del_items key (items_of (snd c))) [(fst c, c')] (root_of c') None"
    and wd: "widened (snd c) [(fst c, c')] (None :: unit option)"
    using Suc.IH [OF _ ch_inv_child [OF inv(1) [unfolded r(1)]], of f "fst c"]
      st r(1) below(1) Suc.prems(4,6) f by auto
  have z: "bt_inv Q h (ch_lo lo xs (fst c)) (ch_hi hi ys) c'" "stored (rd D dev s1) h c'"
      "items_of c' = del_items key (items_of (snd c))" "cow_step st s1"
      "accounted (hd (nodes_of (snd c))) st s1 (nodes_of (snd c)) (nodes_of c')"
    using gr by (auto simp: grown_def)
  let ?cs = "xs @ [(fst c, c')] @ ys"
  have n': "inner_node (update_child n (length xs) (root_of c') g) (Suc h) (ptrs ?cs)"
    using update_child_inner [OF n(2) [unfolded r(1)]] by simp
  have "ch_inv (bt_inv Q h) lo hi ?cs"
    using ch_inv_replace [OF inv(1) [unfolded r(1)], of "[(fst c, c')]"] z(1) by simp
  moreover have "le_lo (fst (hd ?cs)) lo"
    using inv(2) r(1) by (cases xs) auto
  ultimately have bi: "bt_inv Q (Suc h) lo hi (BNode b ?cs)" for b
    using inv(3,4) r(1) by simp
  have b': "below s1 (nodes_ch ?cs)"
    using below_step [OF z(4) below(2)] accounted_below [OF z(5) below(1) z(4)] by (auto simp: below_def)
  have st': "\<forall>c\<in>set ?cs. stored (rd D dev s1) h (snd c)"
    using z(2) stored_children_step [OF z(4), of "xs @ ys" D dev h] below(2) st r(1) by auto
  have r1: "unat (next_free_block s1) + 1 < 2 ^ 64"
    using next1 Suc.prems(6) by simp
  obtain st' b where w: "write_cow_clone (update_child n (length xs) (root_of c') g) g a s1 = (Ok b, st')"
      "unat (next_free_block st') = unat (next_free_block s1) + 1"
      "grown Q (Suc h) lo hi k D dev s1 st' (a # nodes_ch ?cs) (items_ch ?cs) [(k, BNode b ?cs)] b None"
    by (rule clone_inner [OF n' h bi st' b' r1, where g = g and a = a and k = k])
  have run: "delete_recursive fuel D dev (root_of t) key g st = (Ok (b, True), st')"
    using f t n(1) level_nonzero [OF n(2) h] r(3-5) rec w(1) by (simp add: Let_def assertR_def)
  have "key \<notin> item_key ` set (items_ch xs)" "key \<notin> item_key ` set (items_ch ys)"
    using items by auto
  then have it: "items_ch ?cs = del_items key (items_of t)"
    using z(3) by (simp add: t r(1) del_items_other)
  have "accounted a s1 st' (nodes_of c' @ (a # nodes_ch xs @ nodes_ch ys)) (b # nodes_ch ?cs)"
    using w(3) by (auto simp: grown_def intro: accounted_cong)
  with z(4,5) w(3) have "accounted a st st' (nodes_of (snd c) @ (a # nodes_ch xs @ nodes_ch ys)) (b # nodes_ch ?cs)"
    by (intro accounted_trans [of _ st s1]) (auto simp: grown_def)
  then have "accounted a st st' (nodes_of t) (b # nodes_ch ?cs)"
    by (rule accounted_cong) (simp_all add: t r(1))
  with w(3) z(4) it have "grown Q (Suc h) lo hi k D dev st st' (nodes_of t) (del_items key (items_of t))
      [(k, BNode b ?cs)] b None"
    by (auto simp: grown_def t intro: cow_step_trans)
  moreover have "widened t [(k, BNode b ?cs)] (None :: unit option)"
    unfolding t r(1) by (rule widened_step [OF wd]) (simp_all add: widened_def)
  ultimately show ?case
    using run w(2) next1 by (intro exI [of _ st'] exI [of _ "BNode b ?cs"]) simp
qed

lemma delete_from_tree_spec:
  fixes D :: "'d block_device" and dev :: 'd
  assumes t: "tree_ok Q lo D dev st h t" and fuel: "h < fuel" and key: "kv_map (items_of t) key \<noteq> None"
    and room: "unat (next_free_block st) + (h + 1) < 2 ^ 64"
  shows "\<exists>st' t'. delete_from_tree fuel D dev (root_of t) key g st = (Ok (root_of t'), st') \<and>
    tree_ok Q lo D dev st' h t' \<and> items_of t' = del_items key (items_of t) \<and> cow_step st st' \<and>
    unat (next_free_block st') = unat (next_free_block st) + (h + 1) \<and> root_accounted st st' [] t t' \<and>
    (wide_root t \<longrightarrow> wide_root t')"
proof -
  have T: "stored (rd D dev st) h t" "bt_inv Q h lo None t" "below st (nodes_of t)"
    using t by (simp_all add: tree_ok_def)
  obtain st' t' where d: "delete_recursive fuel D dev (root_of t) key g st = (Ok (root_of t', True), st')"
    "unat (next_free_block st') = unat (next_free_block st) + (h + 1)"
    "grown Q h lo None key D dev st st' (nodes_of t) (del_items key (items_of t)) [(key, t')] (root_of t') None"
    "widened t [(key, t')] (None :: unit option)"
    using delete_recursive_spec [OF T fuel key room, of g key] by blast
  then have z: "bt_inv Q h lo None t'" "stored (rd D dev st') h t'" "cow_step st st'"
      "accounted (hd (nodes_of t)) st st' (nodes_of t) (nodes_of t')" "items_of t' = del_items key (items_of t)"
    by (auto simp: grown_def)
  have "tree_ok Q lo D dev st' h t'"
    using z accounted_below [OF z(4) T(3) z(3)] by (simp add: tree_ok_def)
  moreover have "root_accounted st st' [] t t'"
    using z(4) by (simp add: accounted_def root_accounted_def hd_nodes_of)
  ultimately show ?thesis
    using d z by (auto simp: delete_from_tree_def widened_def)
qed

lemma delete_from_tree_missing:
  assumes "tree_ok Q lo D dev st h t" "h < fuel" "kv_map (items_of t) key = None"
  shows "delete_from_tree fuel D dev (root_of t) key g st = (Err NotFound, st)"
  using delete_recursive_missing [of D dev st h t Q lo None fuel key g] assms
  by (simp add: delete_from_tree_def tree_ok_def bindS_Err)

section \<open>Empty trees\<close>

lemma create_empty_tree_spec:
  fixes D :: "'d block_device" and dev :: 'd
  assumes "unat a < unat (next_free_block st)"
  obtains blk where "create_empty_tree a g st = (Ok (), st\<lparr>dirty_cache := map_insert a blk (dirty_cache st)\<rparr>)"
    "length blk = 4096"
    "tree_ok Q lo D dev (st\<lparr>dirty_cache := map_insert a blk (dirty_cache st)\<rparr>) 0 (BLeaf a [])"
proof -
  let ?n = "\<lparr>node_checksum = 0, level = 0, node_flags = 0, item_count = 0,
        self_block_address = a, node_generation = g, leaf_items = [], internal_items = []\<rparr>"
  have leaf: "leaf_node ?n []"
    by (simp add: leaf_node_def)
  have fits: "node_fits ?n"
    by (rule leaf_node_fits [OF leaf]) (simp add: size_Nil)
  obtain blk n' where w: "write_tree_node_to_cache ?n st
      = (Ok (), st\<lparr>dirty_cache := map_insert (self_block_address ?n) blk (dirty_cache st)\<rparr>)"
    "length blk = 4096" "same_content n' ?n"
    "read_tree_node D dev (map_insert (self_block_address ?n) blk (dirty_cache st))
      = (rd D dev st)(self_block_address ?n := Ok n')"
    by (rule write_tree_node_rd [OF fits, of st D dev])
  show thesis
    using w assms same_content_nodes(1) [OF w(3)] leaf
    by (intro that [of blk]) (auto simp: create_empty_tree_def tree_ok_def below_def size_Nil)
qed

section \<open>Block accounting\<close>

lemma root_accounted_disjoint:
  assumes "root_accounted st st' again t t'" "distinct (nodes_of t)" "below st (nodes_of t)"
  shows "\<exists>path. freed_blocks st' = freed_blocks st @ path @ again \<and> root_of t \<in> set path \<and> distinct path \<and>
    distinct (nodes_of t') \<and> set path \<inter> set (nodes_of t') = {} \<and>
    set path \<union> set (nodes_of t') = set (nodes_of t) \<union> set (fresh (next_free_block st) (next_free_block st'))"
proof -
  let ?f = "fresh (next_free_block st) (next_free_block st')"
  obtain p where p: "freed_blocks st' = freed_blocks st @ p @ [root_of t] @ again"
      "mset ((p @ [root_of t]) @ nodes_of t') = mset (nodes_of t @ ?f)"
    using assms(1) by (auto simp: root_accounted_def)
  have "set (nodes_of t) \<inter> set ?f = {}"
    using assms(3) by (fastforce simp: below_def set_fresh)
  then have "distinct (nodes_of t @ ?f)"
    using assms(2) distinct_fresh by simp
  then have "distinct ((p @ [root_of t]) @ nodes_of t')"
    using p(2) mset_eq_imp_distinct_iff by blast
  moreover have "set ((p @ [root_of t]) @ nodes_of t') = set (nodes_of t @ ?f)"
    by (rule mset_eq_setD [OF p(2)])
  ultimately show ?thesis
    using p(1) by (intro exI [of _ "p @ [root_of t]"]) auto
qed

text \<open>\<open>turnover st st' N N'\<close>: an operation took the blocks of a tree from \<open>N\<close> to \<open>N'\<close>; every old or
  newly allocated block is now either in the tree or on the freed list.\<close>

definition fresh_set :: "cow_state \<Rightarrow> cow_state \<Rightarrow> u64 set" where
  "fresh_set st st' = {a. unat (next_free_block st) \<le> unat a \<and> unat a < unat (next_free_block st')}"

definition turnover :: "cow_state \<Rightarrow> cow_state \<Rightarrow> u64 set \<Rightarrow> u64 set \<Rightarrow> bool" where
  "turnover st st' N N' \<longleftrightarrow> (\<exists>S. freed_blocks st' = freed_blocks st @ S \<and>
     set S \<subseteq> N \<union> fresh_set st st' \<and> N' = (N \<union> fresh_set st st') - set S \<and> (\<forall>a. count_list S a \<le> 2))"

lemma count_list_distinct: "distinct xs \<Longrightarrow> count_list xs a \<le> 1"
  by (induction xs) (auto simp: count_list_0_iff)

lemma turnover_accounted:
  assumes "root_accounted st st' again t t'" "distinct (nodes_of t)" "below st (nodes_of t)" "again = [] \<or> again = [root_of t]"
  shows "turnover st st' (set (nodes_of t)) (set (nodes_of t')) \<and> distinct (nodes_of t')"
proof -
  obtain path where p: "freed_blocks st' = freed_blocks st @ path @ again" "root_of t \<in> set path" "distinct path"
      "distinct (nodes_of t')" "set path \<inter> set (nodes_of t') = {}"
      "set path \<union> set (nodes_of t') = set (nodes_of t) \<union> set (fresh (next_free_block st) (next_free_block st'))"
    using root_accounted_disjoint [OF assms(1-3)] by blast
  have f: "set (fresh (next_free_block st) (next_free_block st')) = fresh_set st st'"
    by (simp add: set_fresh fresh_set_def)
  have "set (path @ again) = set path"
    using p(2) assms(4) by auto
  moreover have "count_list (path @ again) a \<le> 2" for a
    using assms(4) count_list_distinct [OF p(3), of a] by auto
  ultimately show ?thesis
    using p unfolding turnover_def f by (intro conjI exI [of _ "path @ again"]) auto
qed

lemma turnover_trans:
  assumes "cow_step st st'" "cow_step st' st''" "turnover st st' N N'" "turnover st' st'' N' N''"
    and "\<forall>a\<in>N. unat a < unat (next_free_block st)"
  shows "turnover st st'' N N''"
proof -
  obtain S where S: "freed_blocks st' = freed_blocks st @ S" "set S \<subseteq> N \<union> fresh_set st st'"
      "N' = (N \<union> fresh_set st st') - set S" "\<And>a. count_list S a \<le> 2"
    using assms(3) by (auto simp: turnover_def)
  obtain S' where S': "freed_blocks st'' = freed_blocks st' @ S'" "set S' \<subseteq> N' \<union> fresh_set st' st''"
      "N'' = (N' \<union> fresh_set st' st'') - set S'" "\<And>a. count_list S' a \<le> 2"
    using assms(4) by (auto simp: turnover_def)
  have le: "unat (next_free_block st) \<le> unat (next_free_block st')" "unat (next_free_block st') \<le> unat (next_free_block st'')"
    using cow_step_next assms(1,2) by auto
  have f: "fresh_set st st'' = fresh_set st st' \<union> fresh_set st' st''"
    using le by (auto simp: fresh_set_def)
  have d: "fresh_set st' st'' \<inter> set S = {}"
    using S(2) assms(5) le by (fastforce simp: fresh_set_def)
  have "set S \<inter> set S' = {}"
    using S(3) S'(2) d by auto
  then have "count_list (S @ S') a \<le> 2" for a
    using S(4) [of a] S'(4) [of a] count_list_0_iff [of S a] count_list_0_iff [of S' a]
    by (cases "a \<in> set S") auto
  then show ?thesis
    unfolding turnover_def f using S S' d by (intro exI [of _ "S @ S'"]) auto
qed

section \<open>Trees as maps\<close>

text \<open>\<open>tree_on Q lo D dev st root its N\<close>: the tree at block \<open>root\<close> is well-formed, holds the sorted items
  \<open>its\<close> and lives in the blocks \<open>N\<close> of the data area; \<open>tree_at\<close> leaves the blocks out. Such a tree has
  at most 13 levels.\<close>

definition data_area :: "'d block_device \<Rightarrow> 'd \<Rightarrow> nat" where
  "data_area D dev = unat (compute_data_area_start_block (total_sector_count D dev div 8))"

definition tree_on :: "(bafs_key \<Rightarrow> bool) \<Rightarrow> bafs_key option \<Rightarrow> 'd block_device \<Rightarrow> 'd \<Rightarrow> cow_state \<Rightarrow> u64
    \<Rightarrow> bafs_leaf_item list \<Rightarrow> u64 set \<Rightarrow> bool" where
  "tree_on Q lo D dev st root its N \<longleftrightarrow>
     (\<exists>t h. tree_ok Q lo D dev st h t \<and> wide_root t \<and> distinct (nodes_of t) \<and>
        root_of t = root \<and> items_of t = its \<and> set (nodes_of t) = N) \<and> (\<forall>a\<in>N. data_area D dev \<le> unat a)"

definition tree_at :: "(bafs_key \<Rightarrow> bool) \<Rightarrow> bafs_key option \<Rightarrow> 'd block_device \<Rightarrow> 'd \<Rightarrow> cow_state \<Rightarrow> u64
    \<Rightarrow> bafs_leaf_item list \<Rightarrow> bool" where
  "tree_at Q lo D dev st root its \<longleftrightarrow> (\<exists>N. tree_on Q lo D dev st root its N)"

text \<open>Room for \<open>n\<close> more tree operations: each takes at most two blocks per level and one for a new
  root. A depth bound of 13 for the recursions is \<open>deep\<close> enough.\<close>

definition room :: "nat \<Rightarrow> cow_state \<Rightarrow> bool" where
  "room n st \<longleftrightarrow> unat (next_free_block st) + 32 * n < 2 ^ 64"

definition deep :: "nat \<Rightarrow> bool" where
  "deep fuel \<longleftrightarrow> 13 \<le> fuel"

definition insertable :: "(bafs_key \<Rightarrow> bool) \<Rightarrow> bafs_key option \<Rightarrow> bafs_leaf_item list \<Rightarrow> bafs_key \<Rightarrow> bytes \<Rightarrow> bool" where
  "insertable Q lo its key v \<longleftrightarrow>
     lo_le lo key \<and> Q key \<and> small_value v \<and> anchored lo (upd_items key v its)"

lemma room_mono: "room n st \<Longrightarrow> m \<le> n \<Longrightarrow> room m st"
  by (simp add: room_def)

lemma tree_onE:
  assumes "tree_on Q lo D dev st root its N"
  obtains t h where "tree_ok Q lo D dev st h t" "h \<le> 12" "root_of t = root" "items_of t = its"
    "set (nodes_of t) = N" "wide_root t" "distinct (nodes_of t)"
proof -
  obtain t h where t: "tree_ok Q lo D dev st h t" "root_of t = root" "items_of t = its"
      "set (nodes_of t) = N" "wide_root t" "distinct (nodes_of t)"
    using assms by (auto simp: tree_on_def)
  moreover from this have "h \<le> 12"
    by (intro height_bound [of "rd D dev st" h t Q lo None]) (simp_all add: tree_ok_def)
  ultimately show thesis using that by blast
qed

lemma tree_onI:
  "tree_ok Q lo D dev st h t \<Longrightarrow> wide_root t \<Longrightarrow> distinct (nodes_of t) \<Longrightarrow>
    \<forall>a\<in>set (nodes_of t). data_area D dev \<le> unat a \<Longrightarrow>
    tree_on Q lo D dev st (root_of t) (items_of t) (set (nodes_of t))"
  by (auto simp: tree_on_def)

lemma tree_ok_step: "cow_step st st' \<Longrightarrow> tree_ok Q lo D dev st h t \<Longrightarrow> tree_ok Q lo D dev st' h t"
  by (simp add: tree_ok_def stored_step below_step)

lemma tree_on_step: "cow_step st st' \<Longrightarrow> tree_on Q lo D dev st r its N \<Longrightarrow> tree_on Q lo D dev st' r its N"
  using tree_ok_step [of st st' Q lo D dev] unfolding tree_on_def by blast

lemma tree_on_below: "tree_on Q lo D dev st r its N \<Longrightarrow> \<forall>a\<in>N. unat a < unat (next_free_block st)"
  by (auto simp: tree_on_def tree_ok_def below_def)

lemma tree_on_area: "tree_on Q lo D dev st r its N \<Longrightarrow> a \<in> N \<Longrightarrow> data_area D dev \<le> unat a"
  by (simp add: tree_on_def)

lemma turnover_area:
  assumes "tree_on Q lo D dev st r its N" "turnover st st' N N'" "a \<in> N'"
  shows "data_area D dev \<le> unat a"
proof -
  obtain t h where "tree_ok Q lo D dev st h t" "set (nodes_of t) = N"
    using assms(1) by (rule tree_onE)
  then obtain b where b: "b \<in> N" by (cases t) auto
  then have "data_area D dev \<le> unat (next_free_block st)"
    using tree_on_area [OF assms(1) b] tree_on_below [OF assms(1)] by fastforce
  then show ?thesis
    using assms(2,3) tree_on_area [OF assms(1), of a] by (auto simp: turnover_def fresh_set_def)
qed

lemma tree_on_put:
  fixes D :: "'d block_device" and dev :: 'd
  assumes on: "tree_on Q lo D dev st root its N" and fuel: "deep fuel"
    and room: "room (Suc n) st" and ins: "insertable Q lo its k v"
  shows "\<exists>st' r' N'. insert_into_tree fuel D dev root k v g st = (Ok r', st') \<and>
    tree_on Q lo D dev st' r' (upd_items k v its) N' \<and> cow_step st st' \<and> room n st' \<and> turnover st st' N N'"
proof -
  obtain t h where t: "tree_ok Q lo D dev st h t" "h \<le> 12" "root_of t = root" "items_of t = its"
      "set (nodes_of t) = N" "wide_root t" "distinct (nodes_of t)"
    by (rule tree_onE [OF on])
  have "h < fuel" "h < 255" "unat (next_free_block st) + 2 * (h + 1) + 1 < 2 ^ 64"
    using t(2) fuel room by (auto simp: room_def deep_def)
  from insert_into_tree_spec [OF t(1) _ _ _ this, of k v g] ins t(3,4,6)
  obtain st' t' h2 again where i: "insert_into_tree fuel D dev root k v g st = (Ok (root_of t'), st')"
    "tree_ok Q lo D dev st' h2 t'" "items_of t' = upd_items k v its" "cow_step st st'"
    "unat (next_free_block st') \<le> unat (next_free_block st) + 2 * (h + 1) + 1"
    "root_accounted st st' again t t'" "again = [] \<or> again = [root_of t]" "wide_root t'"
    unfolding insertable_def by fastforce
  have "room n st'"
    using i(5) room t(2) by (auto simp: room_def)
  moreover have "turnover st st' N (set (nodes_of t'))" "distinct (nodes_of t')"
    using turnover_accounted [OF i(6) t(7) _ i(7)] t(1,5) by (simp_all add: tree_ok_def)
  moreover from this(1) have "\<forall>a\<in>set (nodes_of t'). data_area D dev \<le> unat a"
    using turnover_area [OF on] by blast
  ultimately show ?thesis
    using i tree_onI [OF i(2,8)] by metis
qed

lemma tree_on_del:
  fixes D :: "'d block_device" and dev :: 'd
  assumes on: "tree_on Q lo D dev st root its N" and fuel: "deep fuel"
    and room: "room (Suc n) st" and key: "kv_map its k \<noteq> None"
  shows "\<exists>st' r' N'. delete_from_tree fuel D dev root k g st = (Ok r', st') \<and>
    tree_on Q lo D dev st' r' (del_items k its) N' \<and> cow_step st st' \<and> room n st' \<and> turnover st st' N N'"
proof -
  obtain t h where t: "tree_ok Q lo D dev st h t" "h \<le> 12" "root_of t = root" "items_of t = its"
      "set (nodes_of t) = N" "wide_root t" "distinct (nodes_of t)"
    by (rule tree_onE [OF on])
  have "h < fuel" "unat (next_free_block st) + (h + 1) < 2 ^ 64"
    using t(2) fuel room by (auto simp: room_def deep_def)
  from delete_from_tree_spec [OF t(1) this(1) _ this(2), of k g] key t(3,4,6)
  obtain st' t' where i: "delete_from_tree fuel D dev root k g st = (Ok (root_of t'), st')"
    "tree_ok Q lo D dev st' h t'" "items_of t' = del_items k its" "cow_step st st'"
    "unat (next_free_block st') = unat (next_free_block st) + (h + 1)"
    "root_accounted st st' [] t t'" "wide_root t'"
    by auto
  have "room n st'"
    using i(5) room t(2) by (auto simp: room_def)
  moreover have "turnover st st' N (set (nodes_of t'))" "distinct (nodes_of t')"
    using turnover_accounted [OF i(6) t(7)] t(1,5) by (simp_all add: tree_ok_def)
  moreover from this(1) have "\<forall>a\<in>set (nodes_of t'). data_area D dev \<le> unat a"
    using turnover_area [OF on] by blast
  ultimately show ?thesis
    using i tree_onI [OF i(2,7)] by metis
qed

lemma tree_at_scan:
  assumes "tree_at Q lo D dev st root its" "deep fuel" "scannable Q lo mx"
  shows "iterate_tree_range fuel D dev (dirty_cache st) root mn mx = Ok (filter (in_range mn mx) its)"
proof -
  obtain N where "tree_on Q lo D dev st root its N"
    using assms(1) by (auto simp: tree_at_def)
  then obtain t h where t: "tree_ok Q lo D dev st h t" "h \<le> 12" "root_of t = root" "items_of t = its"
    by (rule tree_onE)
  then show ?thesis
    using collect_range_correct [of D dev "dirty_cache st" h t Q lo None fuel mx mn "[]"] assms(2,3)
    by (simp add: iterate_tree_range_def tree_ok_def deep_def)
qed

text \<open>The interface the other components rely on.\<close>

locale kv_tree =
  fixes at :: "'s \<Rightarrow> 'r \<Rightarrow> bafs_leaf_item list \<Rightarrow> bool"
    and budget :: "nat \<Rightarrow> 's \<Rightarrow> bool"
    and step :: "'s \<Rightarrow> 's \<Rightarrow> bool"
    and ready :: bool
    and allowed :: "bafs_leaf_item list \<Rightarrow> bafs_key \<Rightarrow> bytes \<Rightarrow> bool"
    and get :: "'s \<Rightarrow> 'r \<Rightarrow> bafs_key \<Rightarrow> bytes option result"
    and put :: "'r \<Rightarrow> bafs_key \<Rightarrow> bytes \<Rightarrow> ('s, 'r) sop"
    and del :: "'r \<Rightarrow> bafs_key \<Rightarrow> ('s, 'r) sop"
    and removable :: "bafs_key \<Rightarrow> bool"
    and scan :: "'s \<Rightarrow> 'r \<Rightarrow> bafs_key \<Rightarrow> bafs_key \<Rightarrow> bafs_leaf_item list result"
    and bounded :: "bafs_key \<Rightarrow> bool"
  assumes at_sorted: "at st r its \<Longrightarrow> sorted_items its"
    and get_at: "at st r its \<Longrightarrow> ready \<Longrightarrow> get st r k = Ok (kv_map its k)"
    and put_at: "at st r its \<Longrightarrow> ready \<Longrightarrow> budget (Suc n) st \<Longrightarrow> allowed its k v \<Longrightarrow>
      \<exists>st' r'. put r k v st = (Ok r', st') \<and> at st' r' (upd_items k v its) \<and> step st st' \<and> budget n st'"
    and del_at: "at st r its \<Longrightarrow> ready \<Longrightarrow> budget (Suc n) st \<Longrightarrow> removable k \<Longrightarrow> kv_map its k \<noteq> None \<Longrightarrow>
      \<exists>st' r'. del r k st = (Ok r', st') \<and> at st' r' (del_items k its) \<and> step st st' \<and> budget n st'"
    and del_missing: "at st r its \<Longrightarrow> ready \<Longrightarrow> kv_map its k = None \<Longrightarrow> del r k st = (Err NotFound, st)"
    and scan_at: "at st r its \<Longrightarrow> ready \<Longrightarrow> bounded mx \<Longrightarrow> scan st r mn mx = Ok (filter (in_range mn mx) its)"
    and frame: "step st st' \<Longrightarrow> at st r its \<Longrightarrow> at st' r its"
    and step_refl: "step st st"
    and step_trans: "step st st' \<Longrightarrow> step st' st'' \<Longrightarrow> step st st''"
begin

lemma get_after_put:
  assumes "at st r its" "ready" "budget (Suc n) st" "allowed its k v"
  shows "\<exists>st' r'. put r k v st = (Ok r', st') \<and> at st' r' (upd_items k v its) \<and>
    (\<forall>k'. get st' r' k' = Ok (((kv_map its)(k \<mapsto> v)) k')) \<and> (\<forall>k'. get st' r k' = get st r k')"
proof -
  obtain st' r' where p: "put r k v st = (Ok r', st')" "at st' r' (upd_items k v its)" "step st st'"
    using put_at [OF assms] by blast
  then show ?thesis
    using get_at [OF p(2) assms(2)] get_at [OF frame [OF p(3) assms(1)] assms(2)] get_at [OF assms(1,2)]
    by (auto simp: kv_map_upd_items [OF at_sorted [OF assms(1)]])
qed

lemma get_after_del:
  assumes "at st r its" "ready" "budget (Suc n) st" "removable k" "kv_map its k \<noteq> None"
  shows "\<exists>st' r'. del r k st = (Ok r', st') \<and> at st' r' (del_items k its) \<and>
    (\<forall>k'. get st' r' k' = Ok (((kv_map its)(k := None)) k')) \<and> (\<forall>k'. get st' r k' = get st r k')"
proof -
  obtain st' r' where d: "del r k st = (Ok r', st')" "at st' r' (del_items k its)" "step st st'"
    using del_at [OF assms] by blast
  then show ?thesis
    using get_at [OF d(2) assms(2)] get_at [OF frame [OF d(3) assms(1)] assms(2)] get_at [OF assms(1,2)]
    by (auto simp: kv_map_del_items)
qed

end

interpretation bt: kv_tree "tree_at Q lo D dev" room cow_step "deep fuel" "insertable Q lo"
    "\<lambda>st r k. lookup_in_tree fuel D dev (dirty_cache st) r k"
    "\<lambda>r k v. insert_into_tree fuel D dev r k v g"
    "\<lambda>r k. delete_from_tree fuel D dev r k g" "\<lambda>_. True"
    "\<lambda>st r mn mx. iterate_tree_range fuel D dev (dirty_cache st) r mn mx" "scannable Q lo"
  for Q lo D dev fuel g
proof unfold_locales
  show "sorted_items its" if "tree_at Q lo D dev st r its" for st r its
    using that bt_inv_items by (auto simp: tree_at_def tree_on_def tree_ok_def)
  show "lookup_in_tree fuel D dev (dirty_cache st) r k = Ok (kv_map its k)"
    if at: "tree_at Q lo D dev st r its" and "deep fuel" for st r its k
  proof -
    obtain N where "tree_on Q lo D dev st r its N" using at by (auto simp: tree_at_def)
    then obtain t h where "tree_ok Q lo D dev st h t" "h \<le> 12" "root_of t = r" "items_of t = its"
      by (rule tree_onE)
    then show ?thesis
      using lookup_in_tree_correct [of D dev "dirty_cache st" h t Q lo None fuel k] \<open>deep fuel\<close>
      by (simp add: tree_ok_def deep_def)
  qed
  show "delete_from_tree fuel D dev r k g st = (Err NotFound, st)"
    if at: "tree_at Q lo D dev st r its" and "deep fuel" "kv_map its k = None" for st r its k
  proof -
    obtain N where "tree_on Q lo D dev st r its N" using at by (auto simp: tree_at_def)
    then obtain t h where "tree_ok Q lo D dev st h t" "h \<le> 12" "root_of t = r" "items_of t = its"
      by (rule tree_onE)
    then show ?thesis
      using delete_from_tree_missing [of Q lo D dev st h t fuel k g] that(2,3) by (simp add: deep_def)
  qed
  show "\<exists>st' r'. insert_into_tree fuel D dev r k v g st = (Ok r', st') \<and>
      tree_at Q lo D dev st' r' (upd_items k v its) \<and> cow_step st st' \<and> room n st'"
    if "tree_at Q lo D dev st r its" "deep fuel" "room (Suc n) st" "insertable Q lo its k v" for st r its n k v
    using tree_on_put [OF _ that(2-4), of D dev r _ g] that(1) unfolding tree_at_def by blast
  show "\<exists>st' r'. delete_from_tree fuel D dev r k g st = (Ok r', st') \<and>
      tree_at Q lo D dev st' r' (del_items k its) \<and> cow_step st st' \<and> room n st'"
    if "tree_at Q lo D dev st r its" "deep fuel" "room (Suc n) st" "kv_map its k \<noteq> None" for st r its n k
    using tree_on_del [OF _ that(2,3) that(4), of Q lo D dev r _ g] that(1) unfolding tree_at_def by blast
qed (auto simp: tree_at_def intro: tree_on_step cow_step_trans tree_at_scan [unfolded tree_at_def])

section \<open>The trees of a volume\<close>

text \<open>The inode tree holds the root directory's inode under the smallest key of the tree; the
  key is never removed. The checksum tree and the free-extent tree hold keys of one object and
  one item type.\<close>

definition ROOT_KEY :: bafs_key where
  "ROOT_KEY = BafsKey BAFS_ROOT_INODE_NUMBER ITEM_TYPE_INODE 0"

definition inode_tree :: "'d block_device \<Rightarrow> 'd \<Rightarrow> cow_state \<Rightarrow> u64 \<Rightarrow> bafs_leaf_item list \<Rightarrow> bool" where
  "inode_tree D dev st root its \<longleftrightarrow>
     tree_at (\<lambda>_. True) (Some ROOT_KEY) D dev st root its \<and> kv_map its ROOT_KEY \<noteq> None"

definition inode_insertable :: "bafs_leaf_item list \<Rightarrow> bafs_key \<Rightarrow> bytes \<Rightarrow> bool" where
  "inode_insertable its k v \<longleftrightarrow> ROOT_KEY \<le> k \<and> small_value v"

definition keys_of :: "u64 \<Rightarrow> u8 \<Rightarrow> bafs_key \<Rightarrow> bool" where
  "keys_of ob ty k \<longleftrightarrow> object_id k = ob \<and> item_type k = ty"

abbreviation checksum_tree :: "'d block_device \<Rightarrow> 'd \<Rightarrow> cow_state \<Rightarrow> u64 \<Rightarrow> bafs_leaf_item list \<Rightarrow> bool" where
  "checksum_tree \<equiv> tree_at (keys_of BAFS_CHECKSUM_OBJECT_ID ITEM_TYPE_CHECKSUM_ENTRY) None"

abbreviation free_tree :: "'d block_device \<Rightarrow> 'd \<Rightarrow> cow_state \<Rightarrow> u64 \<Rightarrow> bafs_leaf_item list \<Rightarrow> bool" where
  "free_tree \<equiv> tree_at (keys_of BAFS_FREE_EXTENT_OBJECT_ID ITEM_TYPE_EXTENT_DATA) None"

lemma sorted_items_filter: "sorted_items its \<Longrightarrow> sorted_items (filter P its)"
  by (induction its) auto

lemma set_upd_items:
  "sorted_items its \<Longrightarrow> set (upd_items k v its) = insert \<lparr>item_key = k, item_value = v\<rparr> {i \<in> set its. item_key i \<noteq> k}"
proof (induction k v its rule: upd_items.induct)
  case (2 k v i its)
  then show ?case by (cases i) auto
qed simp

lemma in_range_object [simp]:
  "in_range (BafsKey ob ty 0) (BafsKey ob ty (- 1)) = (\<lambda>i. keys_of ob ty (item_key i))"
proof
  show "in_range (BafsKey ob ty 0) (BafsKey ob ty (- 1)) i = keys_of ob ty (item_key i)" for i
    by (cases "item_key i") (auto simp: in_range_def keys_of_def)
qed

lemma keys_of_insertable [simp]:
  "insertable (keys_of ob ty) None its (BafsKey ob ty off) v \<longleftrightarrow> small_value v"
  by (simp add: insertable_def keys_of_def anchored_def)

lemma keys_of_scannable [simp]: "scannable (keys_of ob ty) None (BafsKey ob ty (- 1))"
proof -
  have "k \<le> BafsKey ob ty (- 1)" if "keys_of ob ty k" for k
    using that by (cases k) (simp add: keys_of_def)
  then show ?thesis
    by (simp add: scannable_def)
qed

lemma tree_at_lo:
  assumes "tree_at Q (Some k) D dev st root its" "i \<in> set its"
  shows "k \<le> item_key i"
  using assms bt_inv_items by (fastforce simp: tree_at_def tree_on_def tree_ok_def)

lemma inode_tree_insertable:
  assumes "inode_tree D dev st root its" "inode_insertable its k v"
  shows "insertable (\<lambda>_. True) (Some ROOT_KEY) its k v"
proof -
  have at: "tree_at (\<lambda>_. True) (Some ROOT_KEY) D dev st root its"
    and root: "ROOT_KEY \<in> item_key ` set its"
    using assms(1) kv_map_None [of its ROOT_KEY] by (auto simp: inode_tree_def)
  have s: "sorted_items (upd_items k v its)"
    using bt.at_sorted [OF at] by (rule sorted_upd_items)
  have "ROOT_KEY \<in> item_key ` set (upd_items k v its)"
    using root by (simp add: keys_upd_items)
  then have "item_key (hd (upd_items k v its)) \<le> ROOT_KEY" "upd_items k v its \<noteq> []"
    using s by (cases "upd_items k v its"; auto)+
  with assms(2) show ?thesis
    by (simp add: insertable_def inode_insertable_def anchored_def)
qed

interpretation it: kv_tree "inode_tree D dev" room cow_step "deep fuel" inode_insertable
    "\<lambda>st r k. lookup_in_tree fuel D dev (dirty_cache st) r k"
    "\<lambda>r k v. insert_into_tree fuel D dev r k v g"
    "\<lambda>r k. delete_from_tree fuel D dev r k g" "\<lambda>k. k \<noteq> ROOT_KEY"
    "\<lambda>st r mn mx. iterate_tree_range fuel D dev (dirty_cache st) r mn mx" "\<lambda>_. True"
  for D dev fuel g
proof unfold_locales
  show "\<exists>st' r'. insert_into_tree fuel D dev r k v g st = (Ok r', st') \<and>
      inode_tree D dev st' r' (upd_items k v its) \<and> cow_step st st' \<and> room n st'"
    if *: "inode_tree D dev st r its" "deep fuel" "room (Suc n) st" "inode_insertable its k v"
    for st r its n k v
  proof -
    have at: "tree_at (\<lambda>_. True) (Some ROOT_KEY) D dev st r its"
      using *(1) by (simp add: inode_tree_def)
    have "kv_map (upd_items k v its) ROOT_KEY \<noteq> None"
      using *(1) by (simp add: inode_tree_def kv_map_upd_items [OF bt.at_sorted [OF at]])
    with bt.put_at [OF at *(2,3) inode_tree_insertable [OF *(1,4)]] show ?thesis
      by (auto simp: inode_tree_def)
  qed
  show "\<exists>st' r'. delete_from_tree fuel D dev r k g st = (Ok r', st') \<and>
      inode_tree D dev st' r' (del_items k its) \<and> cow_step st st' \<and> room n st'"
    if *: "inode_tree D dev st r its" "deep fuel" "room (Suc n) st" "k \<noteq> ROOT_KEY"
      "kv_map its k \<noteq> None" for st r its n k
    using bt.del_at [of "\<lambda>_. True" "Some ROOT_KEY" D dev st r its fuel n k g] * 
    by (auto simp: inode_tree_def kv_map_del_items)
qed (auto simp: inode_tree_def scannable_def intro: bt.at_sorted bt.get_at bt.del_missing
    bt.scan_at bt.frame cow_step_trans)

lemma leaf_tree_ok:
  assumes "read_tree_node D dev (dirty_cache st) a = Ok n" "leaf_node n its" "bt_inv Q 0 lo None (BLeaf a its)"
    and "unat a < unat (next_free_block st)"
  shows "tree_ok Q lo D dev st 0 (BLeaf a its)"
  using assms by (auto simp: tree_ok_def below_def)

section \<open>The properties\<close>

text \<open>C14: insertion implements map update. On a well-formed tree \<open>insert_into_tree\<close> succeeds (with
  a depth bound of 13 or more and room for the new blocks); the new tree is well-formed and
  holds the specified sorted item list; a lookup in it returns the new value for the key and the
  old result for every other key; and lookups at the old root still answer as before.\<close>

theorem insert_into_tree_refines_update:
  assumes "tree_at Q lo D dev st root its" "deep fuel" "room (Suc n) st"
    and "insertable Q lo its k v"
  shows "\<exists>st' root'. insert_into_tree fuel D dev root k v g st = (Ok root', st') \<and>
    tree_at Q lo D dev st' root' (upd_items k v its) \<and>
    (\<forall>k'. lookup_in_tree fuel D dev (dirty_cache st') root' k' = Ok (((kv_map its)(k \<mapsto> v)) k')) \<and>
    (\<forall>k'. lookup_in_tree fuel D dev (dirty_cache st') root k' = Ok (kv_map its k'))"
  using bt.get_after_put [OF assms, of g] bt.get_at [OF assms(1,2)] by auto

definition sample_cow :: cow_state where
  "sample_cow = snd (create_empty_tree 300 1 \<lparr>dirty_cache = [], next_free_block = 301, freed_blocks = []\<rparr>)"

lemma sample_cow: "tree_ok Q lo D dev sample_cow 0 (BLeaf 300 [])" "next_free_block sample_cow = 301"
proof -
  let ?st = "\<lparr>dirty_cache = [], next_free_block = 301, freed_blocks = []\<rparr>"
  have "unat (300 :: u64) < unat (next_free_block ?st)" by simp
  then obtain blk where "create_empty_tree 300 1 ?st = (Ok (), ?st\<lparr>dirty_cache := map_insert 300 blk (dirty_cache ?st)\<rparr>)"
    "tree_ok Q lo D dev (?st\<lparr>dirty_cache := map_insert 300 blk (dirty_cache ?st)\<rparr>) 0 (BLeaf 300 [])"
    by (rule create_empty_tree_spec [where Q = Q and lo = lo and D = D and dev = dev and g = 1])
  then show "tree_ok Q lo D dev sample_cow 0 (BLeaf 300 [])" "next_free_block sample_cow = 301"
    by (simp_all add: sample_cow_def)
qed

lemma data_area_small: "data_area memory_device (memory_disk_new_blocks 3) = 259"
  by (simp add: data_area_def memory_device_def memory_disk_new_blocks_def memory_disk_new_def
      compute_data_area_start_block_def compute_journal_size_in_blocks_def BAFS_JOURNAL_SIZE_MIN_BLOCKS_def
      BAFS_JOURNAL_SIZE_MAX_BLOCKS_def BAFS_JOURNAL_START_BLOCK_ADDRESS_def SECTOR_SIZE_BYTES_def Let_def)

lemma sample_tree_on: "tree_on Q lo memory_device (memory_disk_new_blocks 3) sample_cow 300 [] {300}"
  using tree_onI [OF sample_cow(1), of memory_device "memory_disk_new_blocks 3"] by (simp add: data_area_small)

lemma sample_tree_at: "tree_at Q lo memory_device (memory_disk_new_blocks 3) sample_cow 300 []" "room 5 sample_cow"
  using sample_tree_on [of Q lo] sample_cow(2) by (auto simp: room_def tree_at_def)

theorem insert_into_tree_refines_update_witness:
  "\<exists>st' root'. insert_into_tree 13 memory_device (memory_disk_new_blocks 3) 300 (BafsKey 1 1 0) [7] 1 sample_cow
      = (Ok root', st') \<and>
    lookup_in_tree 13 memory_device (memory_disk_new_blocks 3) (dirty_cache st') root' (BafsKey 1 1 0) = Ok (Some [7])"
proof -
  have "insertable (\<lambda>_. True) None [] (BafsKey 1 1 0) [7]" "deep 13" "room (Suc 4) sample_cow"
    using sample_tree_at(2) by (simp_all add: insertable_def small_value_def anchored_def deep_def)
  from insert_into_tree_refines_update [OF sample_tree_at(1) this(2,3,1), of 1]
  show ?thesis by (auto simp: kv_map_def)
qed

text \<open>C15: deletion implements map removal. Deleting a key that is present succeeds and removes
  exactly that key; deleting a key that is absent reports \<open>NotFound\<close> and changes nothing.\<close>

theorem delete_from_tree_refines_removal:
  assumes "tree_at Q lo D dev st root its" "deep fuel" "room (Suc n) st"
  shows "if kv_map its k = None
    then delete_from_tree fuel D dev root k g st = (Err NotFound, st)
    else \<exists>st' root'. delete_from_tree fuel D dev root k g st = (Ok root', st') \<and>
      tree_at Q lo D dev st' root' (del_items k its) \<and>
      (\<forall>k'. lookup_in_tree fuel D dev (dirty_cache st') root' k' = Ok (((kv_map its)(k := None)) k'))"
proof (cases "kv_map its k = None")
  case True
  with bt.del_missing [OF assms(1,2)] show ?thesis by simp
next
  case False
  with bt.get_after_del [OF assms TrueI False, of g] show ?thesis by auto
qed

theorem delete_from_tree_refines_removal_witness:
  "delete_from_tree 13 memory_device (memory_disk_new_blocks 3) 300 (BafsKey 1 1 0) 1 sample_cow
     = (Err NotFound, sample_cow)"
proof -
  have "deep 13" "room (Suc 4) sample_cow"
    using sample_tree_at(2) by (simp_all add: deep_def)
  from delete_from_tree_refines_removal [OF sample_tree_at(1) [where Q = "\<lambda>_. True" and lo = None] this,
      of "BafsKey 1 1 0" 1]
  show ?thesis by (simp add: kv_map_def)
qed

text \<open>C16: the range scans of the program are complete and ordered. Take a well-formed tree that
  either has a least key that never leaves it (the inode tree, with the root directory's inode), or
  is scanned up to a key that no key of the tree can exceed (the whole-tree scans of the free-extent
  tree and of the checksum tree). \<open>iterate_tree_range\<close> on it returns exactly the stored items with a
  key in the closed range, in ascending key order. For other ranges a leftmost separator may exceed
  the range, and nothing is claimed.\<close>

theorem iterate_tree_range_complete:
  assumes "tree_at Q lo D dev st root its" "deep fuel"
    and least_or_all: "lo \<noteq> None \<or> (\<forall>k. Q k \<longrightarrow> k \<le> mx)"
  shows "iterate_tree_range fuel D dev (dirty_cache st) root mn mx
      = Ok (filter (\<lambda>i. mn \<le> item_key i \<and> item_key i \<le> mx) its) \<and> sorted_items its"
proof -
  have s: "scannable Q lo mx"
    using least_or_all by (simp add: scannable_def)
  have "in_range mn mx = (\<lambda>i. mn \<le> item_key i \<and> item_key i \<le> mx)"
    by (auto simp: in_range_def)
  then show ?thesis
    using tree_at_scan [OF assms(1,2) s] bt.at_sorted [OF assms(1)] by simp
qed

theorem iterate_tree_range_complete_witness:
  "\<exists>st root. insert_into_tree 13 memory_device (memory_disk_new_blocks 3) 300 (BafsKey 1 1 0) [7] 1 sample_cow
      = (Ok root, st) \<and>
    iterate_tree_range 13 memory_device (memory_disk_new_blocks 3) (dirty_cache st) root (BafsKey 1 0 0) MAX_KEY
      = Ok [\<lparr>item_key = BafsKey 1 1 0, item_value = [7]\<rparr>] \<and>
    iterate_tree_range 13 memory_device (memory_disk_new_blocks 3) (dirty_cache st) root (BafsKey 2 0 0) MAX_KEY
      = Ok []"
proof -
  have p: "insertable (\<lambda>_. True) None [] (BafsKey 1 1 0) [7]" "deep 13" "room (Suc 4) sample_cow"
    using sample_tree_at(2) by (simp_all add: insertable_def small_value_def anchored_def deep_def)
  obtain st root where w: "insert_into_tree 13 memory_device (memory_disk_new_blocks 3) 300 (BafsKey 1 1 0) [7] 1 sample_cow
        = (Ok root, st)"
      "tree_at (\<lambda>_. True) None memory_device (memory_disk_new_blocks 3) st root
        [\<lparr>item_key = BafsKey 1 1 0, item_value = [7]\<rparr>]"
    using bt.put_at [OF sample_tree_at(1) [where Q = "\<lambda>_. True" and lo = None] p(2,3,1), of 1] by auto
  have "BafsKey 1 1 0 \<le> MAX_KEY"
    by simp
  with w(1) show ?thesis
    using iterate_tree_range_complete [OF w(2) p(2), of MAX_KEY "BafsKey 1 0 0"]
      iterate_tree_range_complete [OF w(2) p(2), of MAX_KEY "BafsKey 2 0 0"]
    by simp
qed

text \<open>C17: copy-on-write never frees a live block and never loses one. After an insertion the
  blocks newly put on the freed list (apart from a repetition of the old root) are distinct and
  disjoint from the blocks of the new tree, and together with them they are exactly the blocks of
  the old tree and the newly allocated ones.\<close>

theorem insert_frees_only_dead_blocks:
  assumes "tree_on Q lo D dev st root its N" "deep fuel" "room 1 st" "insertable Q lo its k v"
  shows "\<exists>st' root' N' S. insert_into_tree fuel D dev root k v g st = (Ok root', st') \<and>
    tree_on Q lo D dev st' root' (upd_items k v its) N' \<and> freed_blocks st' = freed_blocks st @ S \<and>
    set S \<inter> N' = {} \<and> set S \<union> N' = N \<union> fresh_set st st'"
proof -
  have "room (Suc 0) st" using assms(3) by simp
  from tree_on_put [OF assms(1,2) this assms(4), of g] show ?thesis
    by (fastforce simp: turnover_def)
qed

theorem insert_frees_only_dead_blocks_witness:
  "\<exists>st' root' N' S. insert_into_tree 13 memory_device (memory_disk_new_blocks 3) 300 (BafsKey 1 1 0) [7] 1 sample_cow
      = (Ok root', st') \<and> freed_blocks st' = freed_blocks sample_cow @ S \<and>
      set S \<inter> N' = {} \<and> set S \<union> N' = {300} \<union> fresh_set sample_cow st'"
proof -
  have "insertable (\<lambda>_. True) None [] (BafsKey 1 1 0) [7]" "deep 13" "room 1 sample_cow"
    using sample_tree_at(2) by (simp_all add: insertable_def small_value_def anchored_def room_def deep_def)
  from insert_frees_only_dead_blocks [OF sample_tree_on this(2,3,1), of 1]
  show ?thesis by blast
qed

text \<open>C26: no tree outgrows the recursion. A tree that the operations built (all internal nodes below
  the root wide, all blocks distinct) has height at most 12, so that a depth bound of 13 suffices and
  the 8-bit \<open>level\<close> field cannot overflow; and insertion and deletion keep it so.\<close>

theorem tree_height_bounded:
  assumes "tree_on Q lo D dev st root its N" "deep fuel" "room 1 st"
  shows "(\<exists>t h. tree_ok Q lo D dev st h t \<and> root_of t = root \<and> items_of t = its \<and> h \<le> 12) \<and>
    (insertable Q lo its k v \<longrightarrow> (\<exists>st' t h. insert_into_tree fuel D dev root k v g st = (Ok (root_of t), st') \<and>
       tree_ok Q lo D dev st' h t \<and> h \<le> 12)) \<and>
    (kv_map its k \<noteq> None \<longrightarrow> (\<exists>st' t h. delete_from_tree fuel D dev root k g st = (Ok (root_of t), st') \<and>
       tree_ok Q lo D dev st' h t \<and> h \<le> 12))"
proof -
  have r: "room (Suc 0) st" using assms(3) by simp
  have bound: "\<exists>t h. tree_ok Q lo D dev st' h t \<and> root_of t = root' \<and> items_of t = its' \<and> h \<le> 12"
    if "tree_on Q lo D dev st' root' its' N'" for st' root' its' N'
    using that by (rule tree_onE) blast
  show ?thesis
    using bound [OF assms(1)] tree_on_put [OF assms(1,2) r, of k v g] tree_on_del [OF assms(1,2) r, of k g] bound
    by metis
qed

theorem tree_height_bounded_witness:
  "\<exists>st' t h. insert_into_tree 13 memory_device (memory_disk_new_blocks 3) 300 (BafsKey 1 1 0) [7] 1 sample_cow
      = (Ok (root_of t), st') \<and> tree_ok (\<lambda>_. True) None memory_device (memory_disk_new_blocks 3) st' h t \<and> h \<le> 12"
proof -
  have "insertable (\<lambda>_. True) None [] (BafsKey 1 1 0) [7]" "deep 13" "room 1 sample_cow"
    using sample_tree_at(2) by (simp_all add: insertable_def small_value_def anchored_def room_def deep_def)
  with tree_height_bounded [OF sample_tree_on this(2,3), of "\<lambda>_. True" None "BafsKey 1 1 0" "[7]" 1]
  show ?thesis by blast
qed

text \<open>C20: a root split puts the old root on the freed list twice. When the root is a leaf and the
  insertion overflows it, \<open>split_leaf_node\<close> records the superseded root and \<open>insert_into_tree\<close>
  records it again, so that the caller returns the same block to the free pool two times.\<close>

theorem root_split_frees_root_twice:
  assumes "tree_ok Q lo D dev st 0 t" "0 < fuel" "room 1 st" "insertable Q lo (items_of t) k v"
    and "leaf_serialised_size (upd_items k v (items_of t)) > block_size"
  shows "\<exists>st' root' path. insert_into_tree fuel D dev (root_of t) k v g st = (Ok root', st') \<and>
    freed_blocks st' = freed_blocks st @ path @ [root_of t, root_of t]"
proof -
  have "0 < fuel" "(0::nat) < 255" "unat (next_free_block st) + 2 * (0 + 1) + 1 < 2 ^ 64"
    using assms(2,3) by (auto simp: room_def)
  from insert_into_tree_spec [OF assms(1) _ _ _ this, of k v g] assms(4)
  obtain st' t' h' where i: "insert_into_tree fuel D dev (root_of t) k v g st = (Ok (root_of t'), st')"
    "tree_ok Q lo D dev st' h' t'" "items_of t' = upd_items k v (items_of t)"
    "h' = 0 \<or> root_accounted st st' [root_of t] t t'"
    by (auto simp: insertable_def)
  have "h' \<noteq> 0"
  proof
    assume "h' = 0"
    with i(2) have "leaf_serialised_size (items_of t') \<le> 4096"
      by (cases t') (auto simp: tree_ok_def)
    with i(3) assms(5) show False by simp
  qed
  with i show ?thesis
    by (auto simp: root_accounted_def)
qed

definition full_leaf :: bafs_tree_node where
  "full_leaf = \<lparr>node_checksum = 0, level = 0, node_flags = 0, item_count = 2, self_block_address = 300,
     node_generation = 1,
     leaf_items = [\<lparr>item_key = BafsKey 1 1 0, item_value = replicate 2011 0\<rparr>,
       \<lparr>item_key = BafsKey 2 1 0, item_value = replicate 2011 0\<rparr>],
     internal_items = []\<rparr>"

definition full_cow :: cow_state where
  "full_cow = snd (write_tree_node_to_cache full_leaf
     \<lparr>dirty_cache = [], next_free_block = 301, freed_blocks = []\<rparr>)"

lemma full_leaf: "leaf_node full_leaf (leaf_items full_leaf)" "leaf_serialised_size (leaf_items full_leaf) = 4096"
  by (simp_all add: leaf_node_def full_leaf_def leaf_size)

lemma full_cow:
  "tree_ok (\<lambda>_. True) None D dev full_cow 0 (BLeaf 300 (leaf_items full_leaf))" "room 1 full_cow"
proof -
  let ?st = "\<lparr>dirty_cache = [], next_free_block = 301, freed_blocks = []\<rparr>"
  have fits: "node_fits full_leaf"
    using full_leaf by (intro leaf_node_fits) auto
  have self: "self_block_address full_leaf = 300"
    by (simp add: full_leaf_def)
  obtain blk n' where w: "write_tree_node_to_cache full_leaf ?st
      = (Ok (), ?st\<lparr>dirty_cache := map_insert (self_block_address full_leaf) blk (dirty_cache ?st)\<rparr>)"
    "length blk = 4096" "same_content n' full_leaf"
    "read_tree_node D dev (map_insert (self_block_address full_leaf) blk (dirty_cache ?st))
      = (rd D dev ?st)(self_block_address full_leaf := Ok n')"
    by (rule write_tree_node_rd [OF fits, of ?st D dev])
  have "bt_inv (\<lambda>_. True) 0 None None (BLeaf 300 (leaf_items full_leaf))"
    using full_leaf(2) by (simp add: full_leaf_def small_value_def)
  then show "tree_ok (\<lambda>_. True) None D dev full_cow 0 (BLeaf 300 (leaf_items full_leaf))"
    using w same_content_nodes(1) [OF w(3)] full_leaf(1) self
    by (intro leaf_tree_ok [of _ _ _ _ n']) (simp_all add: full_cow_def)
  show "room 1 full_cow"
    using w(1) by (simp add: full_cow_def room_def)
qed

theorem root_split_frees_root_twice_witness:
  "\<exists>st' root' path. insert_into_tree 1 memory_device (memory_disk_new_blocks 3) 300 (BafsKey 3 1 0) [7] 1 full_cow
      = (Ok root', st') \<and> freed_blocks st' = freed_blocks full_cow @ path @ [300, 300]"
proof -
  let ?t = "BLeaf 300 (leaf_items full_leaf)"
  have "insertable (\<lambda>_. True) None (items_of ?t) (BafsKey 3 1 0) [7]"
    by (simp add: insertable_def small_value_def anchored_def)
  moreover have "leaf_serialised_size (upd_items (BafsKey 3 1 0) [7] (items_of ?t)) > block_size"
    by (simp add: full_leaf_def leaf_size)
  ultimately show ?thesis
    using root_split_frees_root_twice [OF full_cow(1) _ full_cow(2), of 1 "BafsKey 3 1 0" "[7]" memory_device
        "memory_disk_new_blocks 3" 1] by simp
qed

end
