(* ===== verification/Checksum_Tree.thy ===== *)
theory Checksum_Tree
  imports Btree_Map
begin

text \<open>
  \<open>checksum_tree.rs\<close>: the CRC32C of every data block, stored in a tree of its own.

  The lemmas show that a block verifies after its checksum is stored, that a burst of damage in it
  is then reported, and that the entries of other blocks do not change.
\<close>

record bafs_checksum_item =
  ci_block_address :: u64
  crc32c_checksum :: u32
  ci_reserved :: u32

definition serialise_checksum_item_to_bytes :: "bafs_checksum_item \<Rightarrow> bytes" where
  "serialise_checksum_item_to_bytes item =
     to_le (ci_block_address item) @ to_le (crc32c_checksum item) @ to_le (ci_reserved item)"

definition deserialise_checksum_item_from_bytes :: "bytes \<Rightarrow> bafs_checksum_item result" where
  "deserialise_checksum_item_from_bytes bs =
     (if length bs < 16 then Panic
      else Ok \<lparr>ci_block_address = from_le (slice 0 8 bs),
               crc32c_checksum = from_le (slice 8 12 bs),
               ci_reserved = from_le (slice 12 16 bs)\<rparr>)"

definition store_data_block_checksum ::
  "nat \<Rightarrow> 'd block_device \<Rightarrow> 'd \<Rightarrow> u64 \<Rightarrow> u64 \<Rightarrow> bytes \<Rightarrow> u64 \<Rightarrow> (cow_state, u64) sop" where
  "store_data_block_checksum fuel D dev tree_root data_block_address block_data generation =
     (let checksum = compute_crc32c block_data;
          checksum_item = \<lparr>ci_block_address = data_block_address, crc32c_checksum = checksum, ci_reserved = 0\<rparr>;
          key = BafsKey BAFS_CHECKSUM_OBJECT_ID ITEM_TYPE_CHECKSUM_ENTRY data_block_address;
          v = serialise_checksum_item_to_bytes checksum_item
      in insert_into_tree fuel D dev tree_root key v generation)"

definition verify_data_block_checksum ::
  "nat \<Rightarrow> 'd block_device \<Rightarrow> 'd \<Rightarrow> dirty_cache \<Rightarrow> u64 \<Rightarrow> u64 \<Rightarrow> bytes \<Rightarrow> unit result" where
  "verify_data_block_checksum fuel D dev cache tree_root data_block_address block_data =
     (let key = BafsKey BAFS_CHECKSUM_OBJECT_ID ITEM_TYPE_CHECKSUM_ENTRY data_block_address in
      bindR (lookup_in_tree fuel D dev cache tree_root key) (\<lambda>found.
      case found of
        None \<Rightarrow> Ok ()
      | Some value_bytes \<Rightarrow>
          if length value_bytes < 16 then Err CorruptedStructure
          else bindR (deserialise_checksum_item_from_bytes value_bytes) (\<lambda>stored_item.
            if verify_crc32c block_data (crc32c_checksum stored_item) then Ok ()
            else Err (InvalidChecksum data_block_address))))"

section \<open>The codec\<close>

lemma length_checksum_item [simp]: "length (serialise_checksum_item_to_bytes item) = 16"
  by (simp add: serialise_checksum_item_to_bytes_def)

lemma checksum_item_codec [simp]:
  "deserialise_checksum_item_from_bytes (serialise_checksum_item_to_bytes item) = Ok item"
  by (cases item)
    (simp add: deserialise_checksum_item_from_bytes_def serialise_checksum_item_to_bytes_def slice_simps)

section \<open>The tree as a map from blocks to checksums\<close>

definition checksum_key :: "u64 \<Rightarrow> bafs_key" where
  "checksum_key a = BafsKey BAFS_CHECKSUM_OBJECT_ID ITEM_TYPE_CHECKSUM_ENTRY a"

definition checksum_value :: "u64 \<Rightarrow> bytes \<Rightarrow> bytes" where
  "checksum_value a data = serialise_checksum_item_to_bytes
     \<lparr>ci_block_address = a, crc32c_checksum = compute_crc32c data, ci_reserved = 0\<rparr>"

definition verify_item :: "bytes option \<Rightarrow> u64 \<Rightarrow> bytes \<Rightarrow> unit result" where
  "verify_item found a data = (case found of None \<Rightarrow> Ok () | Some v \<Rightarrow>
     if length v < 16 then Err CorruptedStructure
     else if verify_crc32c data (from_le (slice 8 12 v)) then Ok () else Err (InvalidChecksum a))"

lemma verify_at:
  assumes "checksum_tree D dev st root its" "deep fuel"
  shows "verify_data_block_checksum fuel D dev (dirty_cache st) root a data
    = verify_item (kv_map its (checksum_key a)) a data"
proof -
  have "lookup_in_tree fuel D dev (dirty_cache st) root (checksum_key a) = Ok (kv_map its (checksum_key a))"
    by (rule bt.get_at [OF assms])
  then show ?thesis
    by (simp add: verify_data_block_checksum_def verify_item_def deserialise_checksum_item_from_bytes_def
        flip: checksum_key_def split: option.splits)
qed

lemma verify_stored [simp]:
  "verify_item (Some (checksum_value a data)) a data' =
     (if verify_crc32c data' (compute_crc32c data) then Ok () else Err (InvalidChecksum a))"
  by (simp add: verify_item_def checksum_value_def)
    (simp add: serialise_checksum_item_to_bytes_def slice_simps)

lemma store_at:
  assumes "checksum_tree D dev st root its" "deep fuel" "room (Suc n) st"
  shows "\<exists>st' root'. store_data_block_checksum fuel D dev root a data g st = (Ok root', st') \<and>
    checksum_tree D dev st' root' (upd_items (checksum_key a) (checksum_value a data) its) \<and>
    cow_step st st' \<and> room n st'"
  using bt.put_at [OF assms, of "checksum_key a" "checksum_value a data" g]
  by (simp add: store_data_block_checksum_def checksum_key_def checksum_value_def small_value_def)

text \<open>C29: after \<open>store_data_block_checksum\<close> the stored block verifies; the same block with up to
  four consecutive bytes changed is rejected with \<open>InvalidChecksum\<close> naming the block; and what
  verification says of every other block is unchanged.\<close>

theorem data_block_checksum_detects_damage:
  assumes "checksum_tree D dev st root its" "deep fuel" "room 1 st"
    and "length burst' = length burst" "length burst \<le> 4" "burst' \<noteq> burst"
  shows "\<exists>st' root'. store_data_block_checksum fuel D dev root a (pre @ burst @ post) g st = (Ok root', st') \<and>
    verify_data_block_checksum fuel D dev (dirty_cache st') root' a (pre @ burst @ post) = Ok () \<and>
    verify_data_block_checksum fuel D dev (dirty_cache st') root' a (pre @ burst' @ post) = Err (InvalidChecksum a) \<and>
    (\<forall>b data. b \<noteq> a \<longrightarrow> verify_data_block_checksum fuel D dev (dirty_cache st') root' b data
       = verify_data_block_checksum fuel D dev (dirty_cache st) root b data)"
proof -
  let ?data = "pre @ burst @ post"
  have h: "deep fuel" and r: "room (Suc 0) st" using assms(2,3) by simp_all
  obtain st' root' where w: "store_data_block_checksum fuel D dev root a ?data g st = (Ok root', st')"
      "checksum_tree D dev st' root' (upd_items (checksum_key a) (checksum_value a ?data) its)"
    using store_at [OF assms(1) h r] by blast
  have "\<not> verify_crc32c (pre @ burst' @ post) (compute_crc32c ?data)"
    by (rule crc32c_burst [OF _ assms(4-6)]) (simp add: verify_crc32c_def)
  moreover have "verify_crc32c ?data (compute_crc32c ?data)"
    by (simp add: verify_crc32c_def)
  moreover have "checksum_key b \<noteq> checksum_key a" if "b \<noteq> a" for b
    using that by (simp add: checksum_key_def)
  ultimately show ?thesis
    using w(1) by (simp add: verify_at [OF w(2) assms(2)] verify_at [OF assms(1) h]
        kv_map_upd_items [OF bt.at_sorted [OF assms(1)]])
qed

theorem data_block_checksum_detects_damage_witness:
  "\<exists>st' root'. store_data_block_checksum 13 memory_device (memory_disk_new_blocks 3) 300 7 [1, 2, 3] 1 sample_cow
      = (Ok root', st') \<and>
    verify_data_block_checksum 13 memory_device (memory_disk_new_blocks 3) (dirty_cache st') root' 7 [1, 2, 3] = Ok () \<and>
    verify_data_block_checksum 13 memory_device (memory_disk_new_blocks 3) (dirty_cache st') root' 7 [1, 5, 3]
      = Err (InvalidChecksum 7)"
proof -
  have "deep 13" "room 1 sample_cow" "length [5 :: u8] = length [2 :: u8]"
      "length [2 :: u8] \<le> 4" "[5 :: u8] \<noteq> [2]"
    using sample_tree_at(2) by (simp_all add: room_def deep_def)
  from data_block_checksum_detects_damage [OF sample_tree_at(1) this, of 7 "[1]" "[3]" 1]
  show ?thesis by auto
qed

end
