(* ===== verification/Inode.thy ===== *)
theory Inode
  imports Btree_Map
begin

unbundle bit_operations_syntax

text \<open>
  \<open>inode.rs\<close>: the 128-byte inode, its constructors, type tests and codec, and the inode operations
  on the inode tree.

  The lemmas show the codec round trip, that the constructors make inodes of the stated type, and
  that an inode written to a well-formed inode tree is read back while all others stay as they were.
\<close>

definition INODE_MODE_REGULAR_FILE :: u32 where "INODE_MODE_REGULAR_FILE = 0x8000"

definition INODE_MODE_DIRECTORY :: u32 where "INODE_MODE_DIRECTORY = 0x4000"

definition INODE_DEFAULT_FILE_PERMISSIONS :: u32 where "INODE_DEFAULT_FILE_PERMISSIONS = 0x1A4"

definition INODE_DEFAULT_DIRECTORY_PERMISSIONS :: u32 where "INODE_DEFAULT_DIRECTORY_PERMISSIONS = 0x1ED"

record bafs_inode =
  inode_number :: u64
  file_size_in_bytes :: u64
  allocated_block_count :: u64
  inode_generation :: u64
  creation_time_nanoseconds :: u64
  modification_time_nanoseconds :: u64
  status_change_time_nanoseconds :: u64
  access_time_nanoseconds :: u64
  posix_mode :: u32
  owner_uid :: u32
  owner_gid :: u32
  hard_link_count :: u32
  inode_flags :: u32
  compression_algorithm :: u32
  encryption_key_id :: u64
  inode_reserved :: bytes

text \<open>The array type \<open>[u8; 32]\<close>.\<close>

definition wf_inode :: "bafs_inode \<Rightarrow> bool" where
  "wf_inode inode \<longleftrightarrow> length (inode_reserved inode) = 32"

definition new_regular_file :: "u64 \<Rightarrow> u64 \<Rightarrow> u64 \<Rightarrow> bafs_inode" where
  "new_regular_file ino generation timestamp_nanoseconds =
     \<lparr>inode_number = ino, file_size_in_bytes = 0, allocated_block_count = 0,
      inode_generation = generation,
      creation_time_nanoseconds = timestamp_nanoseconds,
      modification_time_nanoseconds = timestamp_nanoseconds,
      status_change_time_nanoseconds = timestamp_nanoseconds,
      access_time_nanoseconds = timestamp_nanoseconds,
      posix_mode = INODE_MODE_REGULAR_FILE OR INODE_DEFAULT_FILE_PERMISSIONS,
      owner_uid = 0, owner_gid = 0, hard_link_count = 1, inode_flags = 0,
      compression_algorithm = 0, encryption_key_id = 0, inode_reserved = replicate 32 0\<rparr>"

definition new_directory :: "u64 \<Rightarrow> u64 \<Rightarrow> u64 \<Rightarrow> bafs_inode" where
  "new_directory ino generation timestamp_nanoseconds =
     \<lparr>inode_number = ino, file_size_in_bytes = 0, allocated_block_count = 0,
      inode_generation = generation,
      creation_time_nanoseconds = timestamp_nanoseconds,
      modification_time_nanoseconds = timestamp_nanoseconds,
      status_change_time_nanoseconds = timestamp_nanoseconds,
      access_time_nanoseconds = timestamp_nanoseconds,
      posix_mode = INODE_MODE_DIRECTORY OR INODE_DEFAULT_DIRECTORY_PERMISSIONS,
      owner_uid = 0, owner_gid = 0, hard_link_count = 2, inode_flags = 0,
      compression_algorithm = 0, encryption_key_id = 0, inode_reserved = replicate 32 0\<rparr>"

definition is_regular_file :: "bafs_inode \<Rightarrow> bool" where
  "is_regular_file inode \<longleftrightarrow> (posix_mode inode AND 0xF000) = INODE_MODE_REGULAR_FILE"

definition is_directory :: "bafs_inode \<Rightarrow> bool" where
  "is_directory inode \<longleftrightarrow> (posix_mode inode AND 0xF000) = INODE_MODE_DIRECTORY"

definition serialise_inode_to_bytes :: "bafs_inode \<Rightarrow> bytes" where
  "serialise_inode_to_bytes inode =
     to_le (inode_number inode) @ to_le (file_size_in_bytes inode)
     @ to_le (allocated_block_count inode) @ to_le (inode_generation inode)
     @ to_le (creation_time_nanoseconds inode) @ to_le (modification_time_nanoseconds inode)
     @ to_le (status_change_time_nanoseconds inode) @ to_le (access_time_nanoseconds inode)
     @ to_le (posix_mode inode) @ to_le (owner_uid inode) @ to_le (owner_gid inode)
     @ to_le (hard_link_count inode) @ to_le (inode_flags inode)
     @ to_le (compression_algorithm inode) @ to_le (encryption_key_id inode) @ inode_reserved inode"

definition deserialise_inode_from_bytes :: "bytes \<Rightarrow> bafs_inode result" where
  "deserialise_inode_from_bytes bs =
     (if length bs < 128 then Panic
      else Ok \<lparr>inode_number = from_le (slice 0 8 bs),
        file_size_in_bytes = from_le (slice 8 16 bs),
        allocated_block_count = from_le (slice 16 24 bs),
        inode_generation = from_le (slice 24 32 bs),
        creation_time_nanoseconds = from_le (slice 32 40 bs),
        modification_time_nanoseconds = from_le (slice 40 48 bs),
        status_change_time_nanoseconds = from_le (slice 48 56 bs),
        access_time_nanoseconds = from_le (slice 56 64 bs),
        posix_mode = from_le (slice 64 68 bs),
        owner_uid = from_le (slice 68 72 bs),
        owner_gid = from_le (slice 72 76 bs),
        hard_link_count = from_le (slice 76 80 bs),
        inode_flags = from_le (slice 80 84 bs),
        compression_algorithm = from_le (slice 84 88 bs),
        encryption_key_id = from_le (slice 88 96 bs),
        inode_reserved = slice 96 128 bs\<rparr>)"

definition read_inode_from_tree ::
  "nat \<Rightarrow> 'd block_device \<Rightarrow> 'd \<Rightarrow> dirty_cache \<Rightarrow> u64 \<Rightarrow> u64 \<Rightarrow> bafs_inode result" where
  "read_inode_from_tree fuel D dev cache root ino =
     (let search_key = BafsKey ino ITEM_TYPE_INODE 0 in
      bindR (lookup_in_tree fuel D dev cache root search_key) (\<lambda>found.
      case found of
        Some value_bytes \<Rightarrow>
          if length value_bytes < 128 then Err CorruptedStructure
          else deserialise_inode_from_bytes value_bytes
      | None \<Rightarrow> Err NotFound))"

definition write_inode_to_tree ::
  "nat \<Rightarrow> 'd block_device \<Rightarrow> 'd \<Rightarrow> u64 \<Rightarrow> bafs_inode \<Rightarrow> u64 \<Rightarrow> (cow_state, u64) sop" where
  "write_inode_to_tree fuel D dev root inode generation =
     (let key = BafsKey (inode_number inode) ITEM_TYPE_INODE 0;
          v = serialise_inode_to_bytes inode
      in insert_into_tree fuel D dev root key v generation)"

definition allocate_next_inode_number :: "u64 \<Rightarrow> u64 result" where
  "allocate_next_inode_number current_inode_count = add_u current_inode_count 1"

section \<open>Codec and types\<close>

lemma length_serialise_inode [simp]: "wf_inode inode \<Longrightarrow> length (serialise_inode_to_bytes inode) = 128"
  by (simp add: serialise_inode_to_bytes_def wf_inode_def)

lemma inode_codec: "wf_inode inode \<Longrightarrow> deserialise_inode_from_bytes (serialise_inode_to_bytes inode) = Ok inode"
  by (cases inode)
    (simp add: deserialise_inode_from_bytes_def wf_inode_def serialise_inode_to_bytes_def slice_simps)

lemma inode_codec_inverse:
  assumes "length bs = 128"
  shows "\<exists>inode. deserialise_inode_from_bytes bs = Ok inode \<and> wf_inode inode \<and> serialise_inode_to_bytes inode = bs"
  using assms
  by (simp add: deserialise_inode_from_bytes_def serialise_inode_to_bytes_def wf_inode_def
      to_le_from_le_sized slice_join slice_all)

lemma new_inodes [simp]:
  "wf_inode (new_regular_file i g t)" "wf_inode (new_directory i g t)"
  "inode_number (new_regular_file i g t) = i" "inode_number (new_directory i g t) = i"
  by (simp_all add: wf_inode_def new_regular_file_def new_directory_def)

text \<open>C28: the inode codec loses nothing in either direction: every inode with the reserved area of
  its type serialises to 128 bytes that read back as the same inode, and every 128 bytes read as such
  an inode that serialises to the same bytes. The constructors make inodes of exactly the stated
  type: a new regular file is a regular file with one link and no data, a new directory is a
  directory with two links.\<close>

theorem inode_constructors_and_codec:
  "(wf_inode inode \<longrightarrow> length (serialise_inode_to_bytes inode) = 128 \<and>
     deserialise_inode_from_bytes (serialise_inode_to_bytes inode) = Ok inode) \<and>
   (length bs = 128 \<longrightarrow> (\<exists>inode'. deserialise_inode_from_bytes bs = Ok inode' \<and> wf_inode inode' \<and>
     serialise_inode_to_bytes inode' = bs)) \<and>
   wf_inode (new_regular_file i g t) \<and> wf_inode (new_directory i g t) \<and>
   file_size_in_bytes (new_regular_file i g t) = 0 \<and>
   is_regular_file (new_regular_file i g t) \<and> \<not> is_directory (new_regular_file i g t) \<and>
   is_directory (new_directory i g t) \<and> \<not> is_regular_file (new_directory i g t) \<and>
   hard_link_count (new_regular_file i g t) = 1 \<and> hard_link_count (new_directory i g t) = 2"
  by (simp add: inode_codec inode_codec_inverse) (simp add: is_regular_file_def is_directory_def
      new_regular_file_def new_directory_def INODE_MODE_REGULAR_FILE_def INODE_MODE_DIRECTORY_def
      INODE_DEFAULT_FILE_PERMISSIONS_def INODE_DEFAULT_DIRECTORY_PERMISSIONS_def)

theorem inode_constructors_and_codec_witness:
  "deserialise_inode_from_bytes (serialise_inode_to_bytes
       ((new_regular_file 7 1 5)\<lparr>file_size_in_bytes := 300, owner_uid := 12\<rparr>))
     = Ok ((new_regular_file 7 1 5)\<lparr>file_size_in_bytes := 300, owner_uid := 12\<rparr>) \<and>
   (\<exists>inode. deserialise_inode_from_bytes (replicate 128 9) = Ok inode \<and>
     serialise_inode_to_bytes inode = replicate 128 9)"
  using inode_constructors_and_codec
      [of "(new_regular_file 7 1 5)\<lparr>file_size_in_bytes := 300, owner_uid := 12\<rparr>" "replicate 128 9" 7 1 5]
  by (auto simp: wf_inode_def)

section \<open>Inodes in the inode tree\<close>

definition inode_key :: "u64 \<Rightarrow> bafs_key" where
  "inode_key ino = BafsKey ino ITEM_TYPE_INODE 0"

text \<open>Every inode item of the list is a 128-byte inode; \<open>inode_at\<close> is the inode map of the list.\<close>

definition inode_at :: "bafs_leaf_item list \<Rightarrow> u64 \<Rightarrow> bafs_inode option" where
  "inode_at its ino = (case kv_map its (inode_key ino) of
     Some v \<Rightarrow> (case deserialise_inode_from_bytes v of Ok inode \<Rightarrow> Some inode | _ \<Rightarrow> None)
   | None \<Rightarrow> None)"

lemma root_key_le_inode_key: "1 \<le> ino \<Longrightarrow> ROOT_KEY \<le> inode_key ino"
  by (auto simp: ROOT_KEY_def inode_key_def BAFS_ROOT_INODE_NUMBER_def)

lemma small_inode: "wf_inode inode \<Longrightarrow> small_value (serialise_inode_to_bytes inode)"
  by (simp add: small_value_def)

lemma read_inode_at:
  assumes "inode_tree D dev st root its" "deep fuel" "inode_at its ino = Some inode"
  shows "read_inode_from_tree fuel D dev (dirty_cache st) root ino = Ok inode"
proof -
  have "lookup_in_tree fuel D dev (dirty_cache st) root (inode_key ino) = Ok (kv_map its (inode_key ino))"
    by (rule it.get_at [OF assms(1,2)])
  with assms(3) show ?thesis
    by (auto simp: read_inode_from_tree_def inode_at_def deserialise_inode_from_bytes_def
        simp flip: inode_key_def split: option.splits if_splits)
qed

lemma read_inode_missing:
  assumes "inode_tree D dev st root its" "deep fuel" "kv_map its (inode_key ino) = None"
  shows "read_inode_from_tree fuel D dev (dirty_cache st) root ino = Err NotFound"
  using it.get_at [OF assms(1,2), of "inode_key ino"] assms(3)
  by (simp add: read_inode_from_tree_def flip: inode_key_def)

lemma inode_at_upd:
  assumes "sorted_items its" "wf_inode inode"
  shows "inode_at (upd_items (inode_key (inode_number inode)) (serialise_inode_to_bytes inode) its)
    = (inode_at its)(inode_number inode \<mapsto> inode)"
  using assms by (auto simp: inode_at_def kv_map_upd_items inode_codec fun_eq_iff inode_key_def)

lemma inode_at_upd_other:
  "sorted_items its \<Longrightarrow> item_type k \<noteq> ITEM_TYPE_INODE \<Longrightarrow> inode_at (upd_items k v its) = inode_at its"
  by (auto simp: inode_at_def kv_map_upd_items fun_eq_iff inode_key_def)

lemma write_inode_at:
  assumes "inode_tree D dev st root its" "deep fuel" "room (Suc n) st"
    and "wf_inode inode" "1 \<le> inode_number inode"
  shows "\<exists>st' root'. write_inode_to_tree fuel D dev root inode g st = (Ok root', st') \<and>
    inode_tree D dev st' root'
      (upd_items (inode_key (inode_number inode)) (serialise_inode_to_bytes inode) its) \<and>
    cow_step st st' \<and> room n st'"
  using it.put_at [OF assms(1-3), of "inode_key (inode_number inode)" "serialise_inode_to_bytes inode" g]
    assms(4,5)
  by (simp add: write_inode_to_tree_def inode_insertable_def small_inode root_key_le_inode_key
      flip: inode_key_def)

text \<open>C27: an inode written to a well-formed inode tree is read back, and every other inode reads
  as before; reading an inode number without an item reports \<open>NotFound\<close>.\<close>

theorem inode_read_after_write:
  assumes "inode_tree D dev st root its" "deep fuel" "room 1 st"
    and "wf_inode inode" "1 \<le> inode_number inode"
  shows "\<exists>st' root'. write_inode_to_tree fuel D dev root inode g st = (Ok root', st') \<and>
    read_inode_from_tree fuel D dev (dirty_cache st') root' (inode_number inode) = Ok inode \<and>
    (\<forall>ino. ino \<noteq> inode_number inode \<longrightarrow>
       read_inode_from_tree fuel D dev (dirty_cache st') root' ino
         = read_inode_from_tree fuel D dev (dirty_cache st) root ino)"
proof -
  let ?k = "inode_key (inode_number inode)" and ?v = "serialise_inode_to_bytes inode"
  have h: "deep fuel" and r: "room (Suc 0) st" using assms(2,3) by simp_all
  obtain st' root' where w: "write_inode_to_tree fuel D dev root inode g st = (Ok root', st')"
      "inode_tree D dev st' root' (upd_items ?k ?v its)"
    using write_inode_at [OF assms(1) h r assms(4,5)] by blast
  have s: "sorted_items its"
    by (rule it.at_sorted [OF assms(1)])
  have "inode_at (upd_items ?k ?v its) (inode_number inode) = Some inode"
    by (simp add: inode_at_upd [OF s assms(4)])
  note own = read_inode_at [OF w(2) assms(2) this]
  have "read_inode_from_tree fuel D dev (dirty_cache st') root' ino
      = read_inode_from_tree fuel D dev (dirty_cache st) root ino" if "ino \<noteq> inode_number inode" for ino
  proof -
    have "kv_map (upd_items ?k ?v its) (inode_key ino) = kv_map its (inode_key ino)"
      using that by (simp add: kv_map_upd_items [OF s] inode_key_def)
    then have "lookup_in_tree fuel D dev (dirty_cache st') root' (inode_key ino)
        = lookup_in_tree fuel D dev (dirty_cache st) root (inode_key ino)"
      using it.get_at [OF w(2) assms(2)] it.get_at [OF assms(1) h] by simp
    then show ?thesis
      by (simp add: read_inode_from_tree_def flip: inode_key_def)
  qed
  with own w(1) show ?thesis by blast
qed

text \<open>A small inode tree: only the root directory.\<close>

definition sample_dev :: memory_disk where
  "sample_dev = memory_disk_new_blocks 3"

definition sample_written :: "u64 result \<times> cow_state" where
  "sample_written = write_inode_to_tree 13 memory_device sample_dev 300 (new_directory 1 1 0) 1 sample_cow"

definition sample_inode_root :: u64 where
  "sample_inode_root = (case fst sample_written of Ok r \<Rightarrow> r | _ \<Rightarrow> 0)"

definition sample_inode_cow :: cow_state where
  "sample_inode_cow = snd sample_written"

lemma sample_room: "n \<le> 1000 \<Longrightarrow> room n sample_cow"
  using sample_cow(2) by (simp add: room_def)

lemma sample_inode_tree:
  "inode_tree memory_device sample_dev sample_inode_cow sample_inode_root
     [\<lparr>item_key = ROOT_KEY, item_value = serialise_inode_to_bytes (new_directory 1 1 0)\<rparr>]"
  "room 900 sample_inode_cow"
proof -
  let ?v = "serialise_inode_to_bytes (new_directory 1 1 0)"
  have k: "BafsKey 1 ITEM_TYPE_INODE 0 = ROOT_KEY"
    by (simp add: ROOT_KEY_def BAFS_ROOT_INODE_NUMBER_def)
  have "insertable (\<lambda>_. True) (Some ROOT_KEY) [] ROOT_KEY ?v" "deep 13" "room (Suc 900) sample_cow"
    by (simp_all add: insertable_def anchored_def small_inode sample_room deep_def)
  from bt.put_at [OF sample_tree_at(1) [folded sample_dev_def] this(2,3,1), of 1]
  obtain st r where w: "sample_written = (Ok r, st)"
      "tree_at (\<lambda>_. True) (Some ROOT_KEY) memory_device sample_dev st r [\<lparr>item_key = ROOT_KEY, item_value = ?v\<rparr>]"
      "room 900 st"
    by (auto simp: sample_written_def write_inode_to_tree_def k)
  from w(2,3) show "inode_tree memory_device sample_dev sample_inode_cow sample_inode_root
      [\<lparr>item_key = ROOT_KEY, item_value = ?v\<rparr>]" "room 900 sample_inode_cow"
    unfolding sample_inode_root_def sample_inode_cow_def w(1) by (simp_all add: inode_tree_def kv_map_def)
qed

theorem inode_read_after_write_witness:
  "\<exists>st' root'. write_inode_to_tree 13 memory_device sample_dev sample_inode_root (new_regular_file 2 1 5) 1 sample_inode_cow
      = (Ok root', st') \<and>
    read_inode_from_tree 13 memory_device sample_dev (dirty_cache st') root' 2 = Ok (new_regular_file 2 1 5)"
proof -
  have "room 1 sample_inode_cow" "deep 13"
    using sample_inode_tree(2) by (simp_all add: room_def deep_def)
  from inode_read_after_write [OF sample_inode_tree(1) this(2,1), of "new_regular_file 2 1 5" 1]
  show ?thesis by (auto simp: word_le_nat_alt)
qed

end
