(* ===== verification/Extent.thy ===== *)
theory Extent
  imports Inode
begin

text \<open>
  \<open>extent.rs\<close>: the file extents kept in the inode tree and the free-extent tree with the
  allocator over it.

  The abstract view of the free-extent tree is the set of free blocks. \<open>allocate_blocks\<close> is shown
  to take a contiguous run out of that set or to report \<open>OutOfSpace\<close>, \<open>free_blocks\<close> to put a run
  back, and both to keep the extents disjoint and coalesced.
\<close>

section \<open>Structures\<close>

record bafs_extent_data =
  logical_byte_offset :: u64
  first_disk_block :: u64
  ed_block_count :: u64
  extent_flags :: u32
  ed_reserved :: u32

record bafs_free_extent =
  fe_block_address :: u64
  fe_block_count :: u64

definition serialise_extent_data_to_bytes :: "bafs_extent_data \<Rightarrow> bytes" where
  "serialise_extent_data_to_bytes extent =
     to_le (logical_byte_offset extent) @ to_le (first_disk_block extent) @ to_le (ed_block_count extent)
     @ to_le (extent_flags extent) @ to_le (ed_reserved extent)"

definition deserialise_extent_data_from_bytes :: "bytes \<Rightarrow> bafs_extent_data result" where
  "deserialise_extent_data_from_bytes bs =
     (if length bs < 32 then Panic
      else Ok \<lparr>logical_byte_offset = from_le (slice 0 8 bs),
               first_disk_block = from_le (slice 8 16 bs),
               ed_block_count = from_le (slice 16 24 bs),
               extent_flags = from_le (slice 24 28 bs),
               ed_reserved = from_le (slice 28 32 bs)\<rparr>)"

definition serialise_free_extent_to_bytes :: "bafs_free_extent \<Rightarrow> bytes" where
  "serialise_free_extent_to_bytes free_extent =
     to_le (fe_block_address free_extent) @ to_le (fe_block_count free_extent)"

definition deserialise_free_extent_from_bytes :: "bytes \<Rightarrow> bafs_free_extent result" where
  "deserialise_free_extent_from_bytes bs =
     (if length bs < 16 then Panic
      else Ok \<lparr>fe_block_address = from_le (slice 0 8 bs), fe_block_count = from_le (slice 8 16 bs)\<rparr>)"

section \<open>File extents in the inode tree\<close>

definition write_extent_data_to_inode_tree ::
  "nat \<Rightarrow> 'd block_device \<Rightarrow> 'd \<Rightarrow> u64 \<Rightarrow> u64 \<Rightarrow> bafs_extent_data \<Rightarrow> u64 \<Rightarrow> (cow_state, u64) sop" where
  "write_extent_data_to_inode_tree fuel D dev root ino extent generation =
     (let key = BafsKey ino ITEM_TYPE_EXTENT_DATA (logical_byte_offset extent);
          v = serialise_extent_data_to_bytes extent
      in insert_into_tree fuel D dev root key v generation)"

text \<open>The loop over the scanned items: the first extent whose byte range contains the offset.\<close>

fun covering_extent :: "u64 \<Rightarrow> bafs_leaf_item list \<Rightarrow> bafs_extent_data option result" where
  "covering_extent file_byte_offset [] = Ok None"
| "covering_extent file_byte_offset (item # items) =
     bindR (deserialise_extent_data_from_bytes (item_value item)) (\<lambda>extent.
     bindR (mul_u (ed_block_count extent) (ucast BAFS_DEFAULT_BLOCK_SIZE_BYTES)) (\<lambda>len.
     bindR (add_u (logical_byte_offset extent) len) (\<lambda>extent_end_byte.
     if logical_byte_offset extent \<le> file_byte_offset \<and> file_byte_offset < extent_end_byte
     then Ok (Some extent)
     else covering_extent file_byte_offset items)))"

definition read_extent_data_for_file_offset ::
  "nat \<Rightarrow> 'd block_device \<Rightarrow> 'd \<Rightarrow> dirty_cache \<Rightarrow> u64 \<Rightarrow> u64 \<Rightarrow> u64 \<Rightarrow> bafs_extent_data option result" where
  "read_extent_data_for_file_offset fuel D dev cache root ino file_byte_offset =
     (let min_key = BafsKey ino ITEM_TYPE_EXTENT_DATA 0;
          max_key = BafsKey ino ITEM_TYPE_EXTENT_DATA (- 1)
      in bindR (iterate_tree_range fuel D dev cache root min_key max_key)
           (covering_extent file_byte_offset))"

section \<open>The allocator\<close>

definition insert_free_extent_into_tree ::
  "nat \<Rightarrow> 'd block_device \<Rightarrow> 'd \<Rightarrow> u64 \<Rightarrow> u64 \<Rightarrow> u64 \<Rightarrow> u64 \<Rightarrow> (cow_state, u64) sop" where
  "insert_free_extent_into_tree fuel D dev root address cnt generation =
     (let free_extent = \<lparr>fe_block_address = address, fe_block_count = cnt\<rparr>;
          key = BafsKey BAFS_FREE_EXTENT_OBJECT_ID ITEM_TYPE_EXTENT_DATA address;
          v = serialise_free_extent_to_bytes free_extent
      in insert_into_tree fuel D dev root key v generation)"

text \<open>\<open>Iterator::find\<close> with a predicate that may panic.\<close>

fun find_item :: "('a \<Rightarrow> bool result) \<Rightarrow> 'a list \<Rightarrow> 'a option result" where
  "find_item p [] = Ok None"
| "find_item p (x # xs) = bindR (p x) (\<lambda>b. if b then Ok (Some x) else find_item p xs)"

definition free_extent_of :: "bafs_leaf_item \<Rightarrow> bafs_free_extent result" where
  "free_extent_of item = deserialise_free_extent_from_bytes (item_value item)"

definition scan_free_extents ::
  "nat \<Rightarrow> 'd block_device \<Rightarrow> 'd \<Rightarrow> u64 \<Rightarrow> (cow_state, bafs_leaf_item list) sop" where
  "scan_free_extents fuel D dev root =
     bindS (getS dirty_cache) (\<lambda>cache.
     liftS (iterate_tree_range fuel D dev cache root
       (BafsKey BAFS_FREE_EXTENT_OBJECT_ID ITEM_TYPE_EXTENT_DATA 0)
       (BafsKey BAFS_FREE_EXTENT_OBJECT_ID ITEM_TYPE_EXTENT_DATA (- 1))))"

definition allocate_blocks ::
  "nat \<Rightarrow> 'd block_device \<Rightarrow> 'd \<Rightarrow> u64 \<Rightarrow> u64 \<Rightarrow> u64 \<Rightarrow> (cow_state, u64 \<times> u64) sop" where
  "allocate_blocks fuel D dev root requested_block_count generation =
     bindS (scan_free_extents fuel D dev root) (\<lambda>all_free_items.
     bindS (liftS (find_item
       (\<lambda>item. bindR (free_extent_of item) (\<lambda>extent. Ok (requested_block_count \<le> fe_block_count extent)))
       (rev all_free_items))) (\<lambda>found.
     bindS (liftS (ok_or found OutOfSpace)) (\<lambda>chosen_free_extent.
     bindS (liftS (free_extent_of chosen_free_extent)) (\<lambda>free_extent.
     bindS (liftS (add_u (fe_block_address free_extent) (fe_block_count free_extent))) (\<lambda>extent_end.
     bindS (liftS (sub_u extent_end requested_block_count)) (\<lambda>allocated_block_address.
     bindS (delete_from_tree fuel D dev root (item_key chosen_free_extent) generation) (\<lambda>current_root.
     if fe_block_address free_extent < allocated_block_address then
       bindS (liftS (sub_u allocated_block_address (fe_block_address free_extent))) (\<lambda>remainder_count.
       bindS (insert_free_extent_into_tree fuel D dev current_root (fe_block_address free_extent)
         remainder_count generation) (\<lambda>current_root.
       retS (allocated_block_address, current_root)))
     else retS (allocated_block_address, current_root))))))))"

text \<open>\<open>free_blocks\<close> in three parts: absorb the free extent that ends where the run starts, absorb
  the one that starts where the run ends, insert the merged extent.\<close>

definition merge_predecessor ::
  "nat \<Rightarrow> 'd block_device \<Rightarrow> 'd \<Rightarrow> u64 \<Rightarrow> u64 \<Rightarrow> u64 \<Rightarrow> u64 \<Rightarrow> (cow_state, u64 \<times> u64 \<times> u64) sop" where
  "merge_predecessor fuel D dev root address cnt generation =
     bindS (scan_free_extents fuel D dev root) (\<lambda>all_free_items.
     bindS (liftS (find_item
       (\<lambda>item. bindR (free_extent_of item) (\<lambda>extent.
          bindR (add_u (fe_block_address extent) (fe_block_count extent)) (\<lambda>e. Ok (e = address))))
       all_free_items)) (\<lambda>predecessor.
     case predecessor of
         None \<Rightarrow> retS (address, cnt, root)
       | Some predecessor_item \<Rightarrow>
           bindS (liftS (free_extent_of predecessor_item)) (\<lambda>predecessor_extent.
           bindS (liftS (add_u cnt (fe_block_count predecessor_extent))) (\<lambda>merged_count.
           bindS (delete_from_tree fuel D dev root (item_key predecessor_item) generation) (\<lambda>current_root.
           retS (fe_block_address predecessor_extent, merged_count, current_root))))))"

definition merge_successor ::
  "nat \<Rightarrow> 'd block_device \<Rightarrow> 'd \<Rightarrow> u64 \<Rightarrow> u64 \<Rightarrow> u64 \<Rightarrow> u64 \<Rightarrow> (cow_state, u64 \<times> u64) sop" where
  "merge_successor fuel D dev current_root merged_start merged_count generation =
     bindS (scan_free_extents fuel D dev current_root) (\<lambda>updated_free_items.
     bindS (liftS (find_item
       (\<lambda>item. bindR (free_extent_of item) (\<lambda>extent.
          bindR (add_u merged_start merged_count) (\<lambda>e. Ok (fe_block_address extent = e))))
       updated_free_items)) (\<lambda>successor.
     case successor of
         None \<Rightarrow> retS (merged_count, current_root)
       | Some successor_item \<Rightarrow>
           bindS (liftS (free_extent_of successor_item)) (\<lambda>successor_extent.
           bindS (liftS (add_u merged_count (fe_block_count successor_extent))) (\<lambda>merged_count.
           bindS (delete_from_tree fuel D dev current_root (item_key successor_item) generation) (\<lambda>current_root.
           retS (merged_count, current_root))))))"

definition free_blocks ::
  "nat \<Rightarrow> 'd block_device \<Rightarrow> 'd \<Rightarrow> u64 \<Rightarrow> u64 \<Rightarrow> u64 \<Rightarrow> u64 \<Rightarrow> (cow_state, u64) sop" where
  "free_blocks fuel D dev root address cnt generation =
     bindS (merge_predecessor fuel D dev root address cnt generation) (\<lambda>(merged_start, merged_count, current_root).
     bindS (merge_successor fuel D dev current_root merged_start merged_count generation)
       (\<lambda>(merged_count, current_root).
     insert_free_extent_into_tree fuel D dev current_root merged_start merged_count generation))"

section \<open>Codecs\<close>

lemma length_extent_data [simp]: "length (serialise_extent_data_to_bytes extent) = 32"
  by (simp add: serialise_extent_data_to_bytes_def)

lemma extent_data_codec [simp]:
  "deserialise_extent_data_from_bytes (serialise_extent_data_to_bytes extent) = Ok extent"
  by (cases extent)
    (simp add: deserialise_extent_data_from_bytes_def serialise_extent_data_to_bytes_def slice_simps)

lemma length_free_extent [simp]: "length (serialise_free_extent_to_bytes extent) = 16"
  by (simp add: serialise_free_extent_to_bytes_def)

lemma free_extent_codec [simp]:
  "deserialise_free_extent_from_bytes (serialise_free_extent_to_bytes extent) = Ok extent"
  by (cases extent)
    (simp add: deserialise_free_extent_from_bytes_def serialise_free_extent_to_bytes_def slice_simps)

section \<open>Sets of extents\<close>

type_synonym extent = "u64 \<times> u64"

definition run :: "u64 \<Rightarrow> u64 \<Rightarrow> nat set" where
  "run a n = {unat a..<unat a + unat n}"

definition space :: "extent set \<Rightarrow> nat set" where
  "space E = (\<Union>(a, n)\<in>E. run a n)"

definition ext_ok :: "extent set \<Rightarrow> bool" where
  "ext_ok E \<longleftrightarrow> (\<forall>a n. (a, n) \<in> E \<longrightarrow> 0 < unat n \<and> unat a + unat n < 2 ^ 64) \<and>
     (\<forall>a n b m. (a, n) \<in> E \<longrightarrow> (b, m) \<in> E \<longrightarrow> (a, n) \<noteq> (b, m) \<longrightarrow> run a n \<inter> run b m = {})"

definition coalesced :: "extent set \<Rightarrow> bool" where
  "coalesced E \<longleftrightarrow> (\<forall>a n b m. (a, n) \<in> E \<longrightarrow> (b, m) \<in> E \<longrightarrow> unat a + unat n \<noteq> unat b)"

lemma space_simps [simp]: "space {} = {}" "space (insert (a, n) E) = run a n \<union> space E"
  by (auto simp: space_def)

lemma ext_okD:
  assumes "ext_ok E" "(a, n) \<in> E"
  shows "0 < unat n" "unat a + unat n < 2 ^ 64" "unat a \<in> run a n" "run a n \<subseteq> space E"
proof -
  show n: "0 < unat n" and "unat a + unat n < 2 ^ 64"
    using assms unfolding ext_ok_def by blast+
  show "unat a \<in> run a n" "run a n \<subseteq> space E"
    using n assms(2) by (auto simp: run_def space_def)
qed

lemma ext_ok_key:
  assumes "ext_ok E" "(a, n) \<in> E" "(a, m) \<in> E"
  shows "n = m"
proof (rule ccontr)
  assume "n \<noteq> m"
  then have "run a n \<inter> run a m = {}"
    using assms unfolding ext_ok_def by blast
  then show False
    using ext_okD(3) [OF assms(1,2)] ext_okD(3) [OF assms(1,3)] by blast
qed

lemma ext_ok_remove:
  assumes "ext_ok E" "(a, n) \<in> E"
  shows "ext_ok (E - {(a, n)})" "space (E - {(a, n)}) = space E - run a n"
proof -
  show "ext_ok (E - {(a, n)})"
    using assms(1) unfolding ext_ok_def by blast
  have "run a n \<inter> run b m = {}" if "(b, m) \<in> E - {(a, n)}" for b m
    using assms that unfolding ext_ok_def by blast
  then show "space (E - {(a, n)}) = space E - run a n"
    by (fastforce simp: space_def)
qed

lemma ext_ok_insert:
  assumes "ext_ok E" "0 < unat n" "unat a + unat n < 2 ^ 64" "run a n \<inter> space E = {}"
  shows "ext_ok (insert (a, n) E)" "\<forall>m. (a, m) \<notin> E"
proof -
  have d: "run a n \<inter> run b m = {}" if "(b, m) \<in> E" for b m
    using assms(4) that unfolding space_def by blast
  show "ext_ok (insert (a, n) E)"
    using assms(1-3) d unfolding ext_ok_def by blast
  show "\<forall>m. (a, m) \<notin> E"
  proof safe
    fix m assume *: "(a, m) \<in> E"
    have "unat a \<in> run a n" using assms(2) by (simp add: run_def)
    then show False using d [OF *] ext_okD(3) [OF assms(1) *] by blast
  qed
qed

lemma coalesced_remove: "coalesced E \<Longrightarrow> coalesced (E - F)"
  unfolding coalesced_def by blast

lemma coalesced_insert:
  assumes "coalesced E" "0 < unat n"
    and "\<forall>b m. (b, m) \<in> E \<longrightarrow> unat b + unat m \<noteq> unat a"
    and "\<forall>b m. (b, m) \<in> E \<longrightarrow> unat b \<noteq> unat a + unat n"
  shows "coalesced (insert (a, n) E)"
  unfolding coalesced_def
proof (intro allI impI)
  fix c k b m assume "(c, k) \<in> insert (a, n) E" "(b, m) \<in> insert (a, n) E"
  then consider "(c, k) = (a, n)" "(b, m) = (a, n)" | "(c, k) = (a, n)" "(b, m) \<in> E"
    | "(c, k) \<in> E" "(b, m) = (a, n)" | "(c, k) \<in> E" "(b, m) \<in> E" by blast
  then show "unat c + unat k \<noteq> unat b"
  proof cases
    case 2
    then have "unat b \<noteq> unat a + unat n" using assms(4) by blast
    then show ?thesis using 2 by simp
  next
    case 3
    then show ?thesis using assms(3) by simp
  next
    case 4
    then show ?thesis using assms(1) unfolding coalesced_def by blast
  qed (use assms(2) in simp)
qed

section \<open>The free-extent tree as a set of extents\<close>

definition free_key :: "u64 \<Rightarrow> bafs_key" where
  "free_key a = BafsKey BAFS_FREE_EXTENT_OBJECT_ID ITEM_TYPE_EXTENT_DATA a"

definition free_item :: "extent \<Rightarrow> bafs_leaf_item" where
  "free_item e = \<lparr>item_key = free_key (fst e),
     item_value = serialise_free_extent_to_bytes \<lparr>fe_block_address = fst e, fe_block_count = snd e\<rparr>\<rparr>"

definition free_at :: "'d block_device \<Rightarrow> 'd \<Rightarrow> cow_state \<Rightarrow> u64 \<Rightarrow> extent set \<Rightarrow> bool" where
  "free_at D dev st root E \<longleftrightarrow>
     (\<exists>its. free_tree D dev st root its \<and> set its = free_item ` E) \<and> ext_ok E"

lemma free_item_simps [simp]:
  "item_key (free_item e) = free_key (fst e)"
  "free_extent_of (free_item e) = Ok \<lparr>fe_block_address = fst e, fe_block_count = snd e\<rparr>"
  "free_key a = free_key b \<longleftrightarrow> a = b"
  by (simp_all add: free_item_def free_extent_of_def free_key_def)

lemma find_item_find:
  "\<forall>x\<in>set xs. p x = Ok (P x) \<Longrightarrow> find_item p xs = Ok (find P xs)"
  by (induction xs) auto

lemma find_item_extents:
  assumes "set its = free_item ` E"
    and "\<forall>e\<in>E. p (free_item e) = Ok (P e)"
  shows "(\<exists>e\<in>E. P e \<and> find_item p its = Ok (Some (free_item e))) \<or>
    (\<forall>e\<in>E. \<not> P e) \<and> find_item p its = Ok None"
proof -
  define Q where "Q x = (p x = Ok True)" for x
  have f: "find_item p its = Ok (find Q its)"
    using assms by (intro find_item_find) (auto simp: Q_def)
  have Q: "\<forall>e\<in>E. Q (free_item e) = P e"
    using assms(2) by (auto simp: Q_def)
  show ?thesis
  proof (cases "find Q its")
    case None
    then have "\<forall>e\<in>E. \<not> P e" using assms(1) Q by (auto simp: find_None_iff)
    with None f show ?thesis by simp
  next
    case (Some x)
    then have "x \<in> set its" "Q x" by (auto simp: find_Some_iff)
    then obtain e where "e \<in> E" "x = free_item e" using assms(1) by auto
    with Some f Q \<open>Q x\<close> show ?thesis by auto
  qed
qed

lemma scan_free_extents_at:
  assumes "free_tree D dev st root its" "deep fuel"
    and "set its = free_item ` E"
  shows "scan_free_extents fuel D dev root st = (Ok its, st)"
proof -
  have "filter (in_range (free_key 0) (free_key (- 1))) its = its"
    using assms(3) by (auto simp: filter_id_conv keys_of_def free_key_def)
  then show ?thesis
    using bt.scan_at [OF assms(1,2), of "free_key (- 1)" "free_key 0"]
    by (simp add: scan_free_extents_def free_key_def)
qed

lemma delete_free_extent:
  assumes "free_at D dev st root E" "deep fuel" "room (Suc n) st" "(a, m) \<in> E"
  shows "\<exists>st' root'. delete_from_tree fuel D dev root (free_key a) g st = (Ok root', st') \<and>
    free_at D dev st' root' (E - {(a, m)}) \<and> cow_step st st' \<and> room n st'"
proof -
  obtain its where its: "free_tree D dev st root its" "set its = free_item ` E" and ok: "ext_ok E"
    using assms(1) by (auto simp: free_at_def)
  have "kv_map its (free_key a) \<noteq> None"
    unfolding kv_map_None its(2) image_image using assms(4) by force
  then obtain st' root' where d: "delete_from_tree fuel D dev root (free_key a) g st = (Ok root', st')"
      "free_tree D dev st' root' (del_items (free_key a) its)" "cow_step st st'" "room n st'"
    using bt.del_at [OF its(1) assms(2,3)] by blast
  have "set (del_items (free_key a) its) = free_item ` (E - {(a, m)})"
    using its(2) ext_ok_key [OF ok assms(4)] by (auto simp: del_items_def)
  with d ext_ok_remove(1) [OF ok assms(4)] show ?thesis
    by (auto simp: free_at_def)
qed

lemma insert_free_extent:
  assumes "free_at D dev st root E" "deep fuel" "room (Suc n) st"
    and "0 < unat m" "unat a + unat m < 2 ^ 64" "run a m \<inter> space E = {}"
  shows "\<exists>st' root'. insert_free_extent_into_tree fuel D dev root a m g st = (Ok root', st') \<and>
    free_at D dev st' root' (insert (a, m) E) \<and> cow_step st st' \<and> room n st'"
proof -
  obtain its where its: "free_tree D dev st root its" "set its = free_item ` E" and ok: "ext_ok E"
    using assms(1) by (auto simp: free_at_def)
  let ?v = "item_value (free_item (a, m))"
  obtain st' root' where p: "insert_into_tree fuel D dev root (free_key a) ?v g st = (Ok root', st')"
      "free_tree D dev st' root' (upd_items (free_key a) ?v its)" "cow_step st st'" "room n st'"
    using bt.put_at [OF its(1) assms(2,3), of "free_key a" ?v g]
    by (auto simp: free_key_def free_item_def small_value_def)
  have "set (upd_items (free_key a) ?v its) = free_item ` insert (a, m) E"
    using its(2) ext_ok_insert(2) [OF ok assms(4-6)]
    by (subst set_upd_items [OF bt.at_sorted [OF its(1)]]) (auto simp: free_item_def)
  with p ext_ok_insert(1) [OF ok assms(4-6)] show ?thesis
    by (auto simp: free_at_def insert_free_extent_into_tree_def free_item_def free_key_def)
qed

section \<open>The allocator refines a set of free blocks\<close>

lemma add_run: "unat a + unat n < 2 ^ 64 \<Longrightarrow> unat (a + n) = unat a + unat n" for a n :: u64
  by (simp add: unat_word_ariths)

lemma sub_run: "n \<le> a \<Longrightarrow> unat (a - n) = unat a - unat n" for a n :: u64
  by (rule unat_sub)

text \<open>Taking \<open>req\<close> blocks off the high end of the extent \<open>(b, m)\<close>; what is left is \<open>run b (a - b)\<close>.\<close>

lemma shrink_extent:
  assumes ok: "ext_ok E" "(b, m) \<in> E" and "unat req \<le> unat m" "unat a = unat b + unat m - unat req" "b < a"
  shows "0 < unat (a - b)" "unat b + unat (a - b) < 2 ^ 64" "run b (a - b) \<inter> space (E - {(b, m)}) = {}"
    and "space (insert (b, a - b) (E - {(b, m)})) = space E - run a req"
    and "coalesced E \<Longrightarrow> coalesced (insert (b, a - b) (E - {(b, m)}))"
proof -
  note m = ext_okD [OF ok] and rem = ext_ok_remove [OF ok]
  have ab: "unat (a - b) = unat a - unat b" "unat b < unat a"
    using assms(5) sub_run [of b a] by (simp_all add: word_less_nat_alt word_le_nat_alt)
  have rest: "run b (a - b) = run b m - run a req"
    using assms(3,4) ab by (auto simp: run_def)
  show pos: "0 < unat (a - b)" and "unat b + unat (a - b) < 2 ^ 64"
    and "run b (a - b) \<inter> space (E - {(b, m)}) = {}"
    using ab assms(4) m(2) rem(2) rest by auto
  have "run a req \<subseteq> run b m" unfolding run_def assms(4) using assms(3) by auto
  then show "space (insert (b, a - b) (E - {(b, m)})) = space E - run a req"
    using rest rem(2) m(4) by auto
  assume c: "coalesced E"
  show "coalesced (insert (b, a - b) (E - {(b, m)}))"
  proof (rule coalesced_insert [OF coalesced_remove [OF c] pos])
    show "\<forall>c k. (c, k) \<in> E - {(b, m)} \<longrightarrow> unat c + unat k \<noteq> unat b"
      using c ok(2) unfolding coalesced_def by blast
    have "unat c \<noteq> unat a" if *: "(c, k) \<in> E - {(b, m)}" for c k
    proof
      assume ca: "unat c = unat a"
      have "unat b + unat m \<noteq> unat c"
        using c * ok(2) unfolding coalesced_def by blast
      then have "unat c \<in> run b m" using ca ab assms(3,4) unfolding run_def by auto
      moreover have "unat c \<in> run c k" "run c k \<inter> run b m = {}"
        using * ok ext_okD(3) [OF ok(1), of c k] unfolding ext_ok_def by blast+
      ultimately show False by blast
    qed
    then show "\<forall>c k. (c, k) \<in> E - {(b, m)} \<longrightarrow> unat c \<noteq> unat b + unat (a - b)"
      using ab by auto
  qed
qed

lemma allocate_blocks_at:
  assumes "free_at D dev st root E" "deep fuel" "room (Suc (Suc n)) st"
    and "(x, y) \<in> E" "req \<le> y"
  shows "\<exists>a root' st' E'. allocate_blocks fuel D dev root req g st = (Ok (a, root'), st') \<and>
    free_at D dev st' root' E' \<and> run a req \<subseteq> space E \<and> space E' = space E - run a req \<and>
    (coalesced E \<longrightarrow> coalesced E') \<and> cow_step st st' \<and> room n st'"
proof -
  obtain its where its: "free_tree D dev st root its" "set its = free_item ` E" and ok: "ext_ok E"
    using assms(1) by (auto simp: free_at_def)
  let ?p = "\<lambda>item. bindR (free_extent_of item) (\<lambda>extent. Ok (req \<le> fe_block_count extent))"
  have "(\<exists>e\<in>E. req \<le> snd e \<and> find_item ?p (rev its) = Ok (Some (free_item e))) \<or>
      (\<forall>e\<in>E. \<not> req \<le> snd e) \<and> find_item ?p (rev its) = Ok None"
    using its(2) by (intro find_item_extents) simp_all
  then obtain b m where e: "(b, m) \<in> E" "req \<le> m" "find_item ?p (rev its) = Ok (Some (free_item (b, m)))"
    using assms(4,5) by fastforce
  define a where "a = b + m - req"
  have m: "0 < unat m" "unat b + unat m < 2 ^ 64" "run b m \<subseteq> space E"
    using ext_okD [OF ok e(1)] by simp_all
  have bm: "unat (b + m) = unat b + unat m" by (rule add_run [OF m(2)])
  have rm: "unat req \<le> unat m" using e(2) by (simp add: word_le_nat_alt)
  have le: "req \<le> b + m" using rm bm by (simp add: word_le_nat_alt)
  have a: "unat a = unat b + unat m - unat req" unfolding a_def sub_run [OF le] bm ..
  have arith: "add_u b m = Ok (b + m)" "sub_u (b + m) req = Ok a"
    using add_u_Ok m(2) le by (auto simp: sub_u_def a_def)
  have sub: "run a req \<subseteq> run b m" unfolding run_def a using rm by auto
  obtain st1 r1 where d: "delete_from_tree fuel D dev root (free_key b) g st = (Ok r1, st1)"
      "free_at D dev st1 r1 (E - {(b, m)})" "cow_step st st1" "room (Suc n) st1"
    using delete_free_extent [OF assms(1-3) e(1)] by blast
  note rem = ext_ok_remove [OF ok e(1)]
  have pre: "allocate_blocks fuel D dev root req g st =
      (if b < a then bindS (liftS (sub_u a b)) (\<lambda>remainder_count.
         bindS (insert_free_extent_into_tree fuel D dev r1 b remainder_count g) (\<lambda>current_root.
         retS (a, current_root))) st1
       else (Ok (a, r1), st1))"
    unfolding allocate_blocks_def
    by (simp add: scan_free_extents_at [OF its(1) assms(2) its(2)] e(3) ok_or_def arith d(1))
  show ?thesis
  proof (cases "b < a")
    case True
    note shrink = shrink_extent [OF ok e(1) rm a True]
    obtain st2 r2 where i: "insert_free_extent_into_tree fuel D dev r1 b (a - b) g st1 = (Ok r2, st2)"
        "free_at D dev st2 r2 (insert (b, a - b) (E - {(b, m)}))" "cow_step st1 st2" "room n st2"
      using insert_free_extent [OF d(2) assms(2) d(4) shrink(1-3)] by blast
    have "allocate_blocks fuel D dev root req g st = (Ok (a, r2), st2)"
      using pre True less_imp_le [OF True] i(1) by (simp add: sub_u_def)
    then show ?thesis
      using i(2-4) shrink(4,5) d(3) sub m(3) cow_step_trans [OF d(3) i(3)] by blast
  next
    case False
    then have "run a req = run b m"
      using a rm by (auto simp: run_def word_less_nat_alt)
    moreover have "room n st1"
      using d(4) by (simp add: room_def)
    ultimately show ?thesis
      using pre False d(2,3) rem(2) m(3) coalesced_remove [of E] by auto
  qed
qed

lemma allocate_blocks_full:
  assumes "free_at D dev st root E" "deep fuel" "\<forall>x y. (x, y) \<in> E \<longrightarrow> y < req"
  shows "allocate_blocks fuel D dev root req g st = (Err OutOfSpace, st)"
proof -
  obtain its where its: "free_tree D dev st root its" "set its = free_item ` E"
    using assms(1) by (auto simp: free_at_def)
  let ?p = "\<lambda>item. bindR (free_extent_of item) (\<lambda>extent. Ok (req \<le> fe_block_count extent))"
  have "(\<exists>e\<in>E. req \<le> snd e \<and> find_item ?p (rev its) = Ok (Some (free_item e))) \<or>
      (\<forall>e\<in>E. \<not> req \<le> snd e) \<and> find_item ?p (rev its) = Ok None"
    using its(2) by (intro find_item_extents) simp_all
  moreover have "\<not> req \<le> snd e" if "e \<in> E" for e
    using assms(3) that by (cases e) (auto simp: not_le)
  ultimately have "find_item ?p (rev its) = Ok None"
    by blast
  then show ?thesis
    unfolding allocate_blocks_def
    by (simp add: scan_free_extents_at [OF its(1) assms(2) its(2)] ok_or_def bindS_def)
qed

text \<open>Merging a run with the extent that ends where it starts, or with the one that starts where
  it ends.\<close>

lemma merge_before:
  assumes ok: "ext_ok E" "(b, m) \<in> E" and "unat b + unat m = unat a"
    and "unat a + unat n < 2 ^ 64" "run a n \<inter> space E = {}"
  shows "unat (n + m) = unat n + unat m" "unat b + unat (n + m) = unat a + unat n"
    and "run b (n + m) \<inter> space (E - {(b, m)}) = {}"
    and "run b (n + m) \<union> space (E - {(b, m)}) = run a n \<union> space E"
proof -
  show u: "unat (n + m) = unat n + unat m"
    using assms(3,4) by (intro add_run) simp
  then show "unat b + unat (n + m) = unat a + unat n"
    using assms(3) by simp
  have "run b (n + m) = run b m \<union> run a n"
    unfolding run_def u using assms(3) by auto
  then show "run b (n + m) \<inter> space (E - {(b, m)}) = {}"
    and "run b (n + m) \<union> space (E - {(b, m)}) = run a n \<union> space E"
    using ext_ok_remove(2) [OF ok] ext_okD(4) [OF ok] assms(5) by auto
qed

lemma merge_after:
  assumes ok: "ext_ok E" "(b, m) \<in> E" and "unat a + unat n = unat b" "run a n \<inter> space E = {}"
  shows "unat (n + m) = unat n + unat m" "unat a + unat (n + m) = unat b + unat m"
    and "run a (n + m) \<inter> space (E - {(b, m)}) = {}"
    and "run a (n + m) \<union> space (E - {(b, m)}) = run a n \<union> space E"
proof -
  show u: "unat (n + m) = unat n + unat m"
    using assms(3) ext_okD(2) [OF ok] by (intro add_run) simp
  then show "unat a + unat (n + m) = unat b + unat m"
    using assms(3) by simp
  have "run a (n + m) = run a n \<union> run b m"
    unfolding run_def u using assms(3) by auto
  then show "run a (n + m) \<inter> space (E - {(b, m)}) = {}"
    and "run a (n + m) \<union> space (E - {(b, m)}) = run a n \<union> space E"
    using ext_ok_remove(2) [OF ok] ext_okD(4) [OF ok] assms(4) by auto
qed

text \<open>The state after a merge: the run still to insert is disjoint from the extents left, covers
  the same blocks together with them, and no extent left touches its checked ends.\<close>

definition merged :: "extent set \<Rightarrow> u64 \<Rightarrow> u64 \<Rightarrow> extent set \<Rightarrow> u64 \<Rightarrow> u64 \<Rightarrow> bool" where
  "merged E a n F s c \<longleftrightarrow> F \<subseteq> E \<and> run s c \<inter> space F = {} \<and> run s c \<union> space F = run a n \<union> space E \<and>
     0 < unat c \<and> unat s + unat c < 2 ^ 64 \<and>
     (coalesced E \<longrightarrow> (\<forall>b m. (b, m) \<in> F \<longrightarrow> unat b + unat m \<noteq> unat s))"

lemma scan_find:
  assumes "free_at D dev st root E" "deep fuel"
    and "\<And>b m. (b, m) \<in> E \<Longrightarrow> p (free_item (b, m)) = Ok (P b m)"
  obtains its b m where "scan_free_extents fuel D dev root st = (Ok its, st)"
      "(b, m) \<in> E" "P b m" "find_item p its = Ok (Some (free_item (b, m)))"
    | its where "scan_free_extents fuel D dev root st = (Ok its, st)"
      "\<forall>b m. (b, m) \<in> E \<longrightarrow> \<not> P b m" "find_item p its = Ok None"
proof -
  obtain its where its: "free_tree D dev st root its" "set its = free_item ` E"
    using assms(1) by (auto simp: free_at_def)
  note sc = scan_free_extents_at [OF its(1) assms(2) its(2)]
  have "(\<exists>e\<in>E. P (fst e) (snd e) \<and> find_item p its = Ok (Some (free_item e))) \<or>
      (\<forall>e\<in>E. \<not> P (fst e) (snd e)) \<and> find_item p its = Ok None"
    using its(2) assms(3) by (intro find_item_extents) auto
  then show thesis
  proof (elim disjE bexE conjE)
    fix e assume "e \<in> E" "P (fst e) (snd e)" "find_item p its = Ok (Some (free_item e))"
    then show thesis using that(1) [OF sc, of "fst e" "snd e"] by simp
  next
    assume "\<forall>e\<in>E. \<not> P (fst e) (snd e)" "find_item p its = Ok None"
    then show thesis by (intro that(2) [OF sc]) fastforce+
  qed
qed

lemma merge_predecessor_at:
  assumes "free_at D dev st root E" "deep fuel" "room (Suc k) st"
    and "0 < unat n" "unat a + unat n < 2 ^ 64" "run a n \<inter> space E = {}"
  shows "\<exists>s c root' st' F. merge_predecessor fuel D dev root a n g st = (Ok (s, c, root'), st') \<and>
    free_at D dev st' root' F \<and> merged E a n F s c \<and> cow_step st st' \<and> room k st'"
proof -
  have ok: "ext_ok E" using assms(1) by (simp add: free_at_def)
  have add: "add_u b m = Ok (b + m)" "unat (b + m) = unat b + unat m" if "(b, m) \<in> E" for b m
    using ext_okD(2) [OF ok that] add_run [of b m] by simp_all
  let ?p = "\<lambda>item. bindR (free_extent_of item) (\<lambda>extent.
      bindR (add_u (fe_block_address extent) (fe_block_count extent)) (\<lambda>e. Ok (e = a)))"
  have p: "?p (free_item (b, m)) = Ok (unat b + unat m = unat a)" if "(b, m) \<in> E" for b m
    using add [OF that] by (simp add: word_unat_eq_iff)
  show ?thesis
  proof (rule scan_find [OF assms(1,2), where p = ?p, OF p])
    fix its b m
    assume f: "scan_free_extents fuel D dev root st = (Ok its, st)" "(b, m) \<in> E" "unat b + unat m = unat a"
      "find_item ?p its = Ok (Some (free_item (b, m)))"
    note mg = merge_before [OF ok f(2,3) assms(5,6)]
    obtain st' r' where d: "delete_from_tree fuel D dev root (free_key b) g st = (Ok r', st')"
        "free_at D dev st' r' (E - {(b, m)})" "cow_step st st'" "room k st'"
      using delete_free_extent [OF assms(1-3) f(2)] by blast
    have "add_u n m = Ok (n + m)"
      using mg(1) unat_bound [of "n + m"] by simp
    then have "merge_predecessor fuel D dev root a n g st = (Ok (b, n + m, r'), st')"
      by (simp add: merge_predecessor_def f(1,4) d(1))
    moreover have "\<forall>x y. (x, y) \<in> E - {(b, m)} \<longrightarrow> unat x + unat y \<noteq> unat b" if "coalesced E"
      using that f(2) unfolding coalesced_def by blast
    then have "merged E a n (E - {(b, m)}) b (n + m)"
      using mg assms(4,5) by (auto simp: merged_def)
    ultimately show ?thesis using d(2-4) by blast
  next
    fix its
    assume f: "scan_free_extents fuel D dev root st = (Ok its, st)"
      "\<forall>b m. (b, m) \<in> E \<longrightarrow> unat b + unat m \<noteq> unat a" "find_item ?p its = Ok None"
    then have "merge_predecessor fuel D dev root a n g st = (Ok (a, n, root), st)"
      by (simp add: merge_predecessor_def)
    moreover have "merged E a n E a n"
      using assms(4-6) f(2) by (auto simp: merged_def)
    moreover have "room k st" using assms(3) by (simp add: room_def)
    ultimately show ?thesis using assms(1) bt.step_refl by blast
  qed
qed

lemma merge_successor_at:
  assumes "free_at D dev st root F" "deep fuel" "room (Suc k) st" "merged E a n F s c"
  shows "\<exists>c' root' st' F'. merge_successor fuel D dev root s c g st = (Ok (c', root'), st') \<and>
    free_at D dev st' root' F' \<and> merged E a n F' s c' \<and>
    (coalesced E \<longrightarrow> (\<forall>b m. (b, m) \<in> F' \<longrightarrow> unat b \<noteq> unat s + unat c')) \<and>
    cow_step st st' \<and> room k st'"
proof -
  have ok: "ext_ok F" using assms(1) by (simp add: free_at_def)
  have mg: "run s c \<inter> space F = {}" "0 < unat c" "unat s + unat c < 2 ^ 64" "F \<subseteq> E"
    using assms(4) by (simp_all add: merged_def)
  have add: "add_u s c = Ok (s + c)" "unat (s + c) = unat s + unat c"
    using mg(3) add_run [of s c] by simp_all
  let ?p = "\<lambda>item. bindR (free_extent_of item) (\<lambda>extent.
      bindR (add_u s c) (\<lambda>e. Ok (fe_block_address extent = e)))"
  have p: "?p (free_item (b, m)) = Ok (unat s + unat c = unat b)" if "(b, m) \<in> F" for b m
    using add by (auto simp: word_unat_eq_iff)
  show ?thesis
  proof (rule scan_find [OF assms(1,2), where p = ?p, OF p])
    fix its b m
    assume f: "scan_free_extents fuel D dev root st = (Ok its, st)" "(b, m) \<in> F" "unat s + unat c = unat b"
      "find_item ?p its = Ok (Some (free_item (b, m)))"
    note ma = merge_after [OF ok f(2,3) mg(1)]
    obtain st' r' where d: "delete_from_tree fuel D dev root (free_key b) g st = (Ok r', st')"
        "free_at D dev st' r' (F - {(b, m)})" "cow_step st st'" "room k st'"
      using delete_free_extent [OF assms(1-3) f(2)] by blast
    have "add_u c m = Ok (c + m)"
      using ma(1) unat_bound [of "c + m"] by simp
    then have "merge_successor fuel D dev root s c g st = (Ok (c + m, r'), st')"
      by (simp add: merge_successor_def f(1,4) d(1))
    moreover have "merged E a n (F - {(b, m)}) s (c + m)"
      using ma assms(4) ext_okD(2) [OF ok f(2)] by (auto simp: merged_def)
    moreover have "unat x \<noteq> unat s + unat (c + m)" if "coalesced E" "(x, y) \<in> F - {(b, m)}" for x y
    proof -
      have "unat b + unat m \<noteq> unat x"
        using that f(2) mg(4) unfolding coalesced_def by blast
      then show ?thesis using ma(2) by simp
    qed
    ultimately show ?thesis using d(2-4) by blast
  next
    fix its
    assume f: "scan_free_extents fuel D dev root st = (Ok its, st)"
      "\<forall>b m. (b, m) \<in> F \<longrightarrow> unat s + unat c \<noteq> unat b" "find_item ?p its = Ok None"
    then have "merge_successor fuel D dev root s c g st = (Ok (c, root), st)"
      by (simp add: merge_successor_def)
    moreover have "\<forall>b m. (b, m) \<in> F \<longrightarrow> unat b \<noteq> unat s + unat c" using f(2) by metis
    moreover have "room k st" using assms(3) by (simp add: room_def)
    ultimately show ?thesis using assms(1,4) bt.step_refl by blast
  qed
qed

lemma free_blocks_at:
  assumes "free_at D dev st root E" "deep fuel" "room (Suc (Suc (Suc k))) st"
    and "0 < unat n" "unat a + unat n < 2 ^ 64" "run a n \<inter> space E = {}"
  shows "\<exists>root' st' E'. free_blocks fuel D dev root a n g st = (Ok root', st') \<and>
    free_at D dev st' root' E' \<and> space E' = space E \<union> run a n \<and>
    (coalesced E \<longrightarrow> coalesced E') \<and> cow_step st st' \<and> room k st'"
proof -
  obtain s c r1 st1 F where p: "merge_predecessor fuel D dev root a n g st = (Ok (s, c, r1), st1)"
      "free_at D dev st1 r1 F" "merged E a n F s c" "cow_step st st1" "room (Suc (Suc k)) st1"
    using merge_predecessor_at [OF assms] by blast
  obtain c' r2 st2 F' where q: "merge_successor fuel D dev r1 s c g st1 = (Ok (c', r2), st2)"
      "free_at D dev st2 r2 F'" "merged E a n F' s c'"
      "coalesced E \<longrightarrow> (\<forall>b m. (b, m) \<in> F' \<longrightarrow> unat b \<noteq> unat s + unat c')"
      "cow_step st1 st2" "room (Suc k) st2"
    using merge_successor_at [OF p(2) assms(2) p(5,3)] by blast
  have hyp: "0 < unat c'" "unat s + unat c' < 2 ^ 64" "run s c' \<inter> space F' = {}"
    using q(3) by (simp_all add: merged_def)
  obtain st3 r3 where i: "insert_free_extent_into_tree fuel D dev r2 s c' g st2 = (Ok r3, st3)"
      "free_at D dev st3 r3 (insert (s, c') F')" "cow_step st2 st3" "room k st3"
    using insert_free_extent [OF q(2) assms(2) q(6) hyp] by blast
  have "free_blocks fuel D dev root a n g st = (Ok r3, st3)"
    by (simp add: free_blocks_def p(1) q(1) i(1))
  moreover have "space (insert (s, c') F') = space E \<union> run a n"
    using q(3) by (auto simp: merged_def)
  moreover have "coalesced (insert (s, c') F')" if c: "coalesced E"
  proof (rule coalesced_insert [OF _ hyp(1)])
    show "coalesced F'" using c q(3) unfolding coalesced_def merged_def by blast
  qed (use c q(3,4) in \<open>auto simp: merged_def\<close>)
  ultimately show ?thesis
    using i(2,4) cow_step_trans [OF p(4) cow_step_trans [OF q(5) i(3)]] by blast
qed

section \<open>The allocator interface\<close>

text \<open>What a client of the allocator relies on: allocation takes a run out of the set of free
  blocks or reports \<open>OutOfSpace\<close> without a change, and releasing puts a run back.\<close>

locale block_allocator =
  fixes holds :: "'s \<Rightarrow> 'r \<Rightarrow> nat set \<Rightarrow> bool"
    and budget :: "nat \<Rightarrow> 's \<Rightarrow> bool"
    and ready :: bool
    and alloc :: "'r \<Rightarrow> u64 \<Rightarrow> ('s, u64 \<times> 'r) sop"
    and release :: "'r \<Rightarrow> u64 \<Rightarrow> u64 \<Rightarrow> ('s, 'r) sop"
  assumes alloc_holds: "holds st r S \<Longrightarrow> ready \<Longrightarrow> budget (Suc (Suc n)) st \<Longrightarrow>
      alloc r req st = (Err OutOfSpace, st) \<or>
      (\<exists>a r' st'. alloc r req st = (Ok (a, r'), st') \<and> run a req \<subseteq> S \<and>
         holds st' r' (S - run a req) \<and> budget n st')"
    and release_holds: "holds st r S \<Longrightarrow> ready \<Longrightarrow> budget (Suc (Suc (Suc n))) st \<Longrightarrow>
      0 < unat c \<Longrightarrow> unat a + unat c < 2 ^ 64 \<Longrightarrow> run a c \<inter> S = {} \<Longrightarrow>
      \<exists>r' st'. release r a c st = (Ok r', st') \<and> holds st' r' (S \<union> run a c) \<and> budget n st'"
    and holds_bound: "holds st r S \<Longrightarrow> x \<in> S \<Longrightarrow> x + 1 < 2 ^ 64"
begin

lemma alloc_Ok:
  assumes "holds st r S" "ready" "budget (Suc (Suc n)) st" "alloc r req st = (Ok (a, r'), st')"
  shows "run a req \<subseteq> S \<and> holds st' r' (S - run a req) \<and> budget n st'"
  using alloc_holds [OF assms(1-3), of req] assms(4) by auto

text \<open>Two allocations never overlap.\<close>

lemma allocations_disjoint:
  assumes "holds st r S" "ready" "budget (Suc (Suc (Suc (Suc n)))) st"
    and "alloc r req st = (Ok (a, r'), st')" "alloc r' req' st' = (Ok (b, r''), st'')"
  shows "run a req \<inter> run b req' = {}"
proof -
  have "ready" using assms(2) by simp
  from alloc_Ok [OF assms(1) this assms(3,4)]
  have "holds st' r' (S - run a req)" "budget (Suc (Suc n)) st'" by simp_all
  from alloc_Ok [OF this(1) assms(2) this(2) assms(5)] show ?thesis by auto
qed

text \<open>Allocating a run and releasing it again restores the free blocks.\<close>

lemma release_undoes_alloc:
  assumes "holds st r S" "ready" "budget (Suc (Suc (Suc (Suc (Suc n))))) st"
    and "alloc r req st = (Ok (a, r'), st')" "0 < unat req"
  shows "\<exists>r'' st''. release r' a req st' = (Ok r'', st'') \<and> holds st'' r'' S \<and> budget n st''"
proof -
  have "ready" using assms(2) by simp
  from alloc_Ok [OF assms(1) this assms(3,4)]
  have *: "holds st' r' (S - run a req)" "budget (Suc (Suc (Suc n))) st'" "run a req \<subseteq> S"
    by simp_all
  have "unat a + unat req - 1 \<in> run a req" using assms(5) by (simp add: run_def)
  then have "unat a + unat req < 2 ^ 64"
    using holds_bound [OF assms(1)] *(3) assms(5) by fastforce
  from release_holds [OF *(1) assms(2) *(2) assms(5) this] *(3) show ?thesis
    by (auto simp: Un_absorb2)
qed

end

definition free_space :: "'d block_device \<Rightarrow> 'd \<Rightarrow> cow_state \<Rightarrow> u64 \<Rightarrow> nat set \<Rightarrow> bool" where
  "free_space D dev st root S \<longleftrightarrow> (\<exists>E. free_at D dev st root E \<and> coalesced E \<and> space E = S)"

interpretation fa: block_allocator "free_space D dev" room "deep fuel"
    "\<lambda>r req. allocate_blocks fuel D dev r req g" "\<lambda>r a c. free_blocks fuel D dev r a c g"
  for D dev fuel g
proof unfold_locales
  fix st r S n req
  assume "free_space D dev st r S" and hn: "deep fuel" "room (Suc (Suc n)) st"
  then obtain E where E: "free_at D dev st r E" "coalesced E" "space E = S"
    by (auto simp: free_space_def)
  show "allocate_blocks fuel D dev r req g st = (Err OutOfSpace, st) \<or>
      (\<exists>a r' st'. allocate_blocks fuel D dev r req g st = (Ok (a, r'), st') \<and> run a req \<subseteq> S \<and>
         free_space D dev st' r' (S - run a req) \<and> room n st')"
  proof (cases "\<forall>x y. (x, y) \<in> E \<longrightarrow> y < req")
    case True
    then show ?thesis using allocate_blocks_full [OF E(1) hn(1)] by blast
  next
    case False
    then obtain x y where "(x, y) \<in> E" "req \<le> y" by (auto simp: not_less)
    from allocate_blocks_at [OF E(1) hn this] E(2,3) show ?thesis
      by (fastforce simp: free_space_def)
  qed
next
  fix st r S n and c a :: u64
  assume "free_space D dev st r S" and hyp: "deep fuel" "room (Suc (Suc (Suc n))) st"
    "0 < unat c" "unat a + unat c < 2 ^ 64" "run a c \<inter> S = {}"
  then obtain E where E: "free_at D dev st r E" "coalesced E" "space E = S"
    by (auto simp: free_space_def)
  from free_blocks_at [OF E(1) hyp(1-4)] hyp(5) E(2,3)
  show "\<exists>r' st'. free_blocks fuel D dev r a c g st = (Ok r', st') \<and>
      free_space D dev st' r' (S \<union> run a c) \<and> room n st'"
    by (fastforce simp: free_space_def)
next
  fix st r S x
  assume "free_space D dev st r S" "x \<in> S"
  then obtain E a n where "ext_ok E" "(a, n) \<in> E" "x \<in> run a n"
    by (auto simp: free_space_def free_at_def space_def)
  with ext_okD(2) show "x + 1 < 2 ^ 64" by (fastforce simp: run_def)
qed

text \<open>C30: the allocator implements a set of free blocks. On a free-extent tree with disjoint,
  coalesced extents, \<open>allocate_blocks\<close> either reports \<open>OutOfSpace\<close>, exactly when no extent is large
  enough and then without any change, or returns a contiguous run of free blocks and a tree whose
  free blocks are the remaining ones.\<close>

theorem allocate_blocks_refines_free_set:
  assumes "free_at D dev st root E" "deep fuel" "room 2 st"
  shows "if \<exists>(x, y)\<in>E. req \<le> y
    then \<exists>a root' st' E'. allocate_blocks fuel D dev root req g st = (Ok (a, root'), st') \<and>
      free_at D dev st' root' E' \<and> run a req \<subseteq> space E \<and> space E' = space E - run a req \<and>
      (coalesced E \<longrightarrow> coalesced E')
    else allocate_blocks fuel D dev root req g st = (Err OutOfSpace, st)"
proof (cases "\<exists>(x, y)\<in>E. req \<le> y")
  case True
  then obtain x y where "(x, y) \<in> E" "req \<le> y" by blast
  moreover have "room (Suc (Suc 0)) st" using assms(3) by (simp add: numeral_2_eq_2)
  ultimately show ?thesis
    using True allocate_blocks_at [OF assms(1,2)] by (simp del: split_paired_Ex) blast
next
  case False
  then show ?thesis
    using allocate_blocks_full [OF assms(1,2), of req g] by (fastforce simp: not_le)
qed

text \<open>C31: \<open>free_blocks\<close> returns a run to the pool: for a run that is not free, the new tree's free
  blocks are the old ones and the run, its extents are disjoint, and no two of them touch when none
  did before: neighbours on both sides have been merged.\<close>

theorem free_blocks_refines_free_set:
  assumes "free_at D dev st root E" "deep fuel" "room 3 st"
    and "0 < unat n" "unat a + unat n < 2 ^ 64" "run a n \<inter> space E = {}"
  shows "\<exists>root' st' E'. free_blocks fuel D dev root a n g st = (Ok root', st') \<and>
    free_at D dev st' root' E' \<and> space E' = space E \<union> run a n \<and> (coalesced E \<longrightarrow> coalesced E')"
proof -
  have "room (Suc (Suc (Suc 0))) st" using assms(3) by (simp add: numeral_3_eq_3)
  from free_blocks_at [OF assms(1,2) this assms(4-6)] show ?thesis by blast
qed

text \<open>Freeing what was just allocated restores the set of free blocks.\<close>

theorem free_blocks_undoes_allocate:
  assumes "free_space D dev st root S" "deep fuel" "room 5 st"
    and "allocate_blocks fuel D dev root req g st = (Ok (a, root'), st')" "0 < unat req"
  shows "\<exists>root'' st''. free_blocks fuel D dev root' a req g st' = (Ok root'', st'') \<and>
    free_space D dev st'' root'' S"
proof -
  have "room (Suc (Suc (Suc (Suc (Suc 0))))) st" using assms(3) by (simp add: room_def)
  from fa.release_undoes_alloc [OF assms(1,2) this assms(4,5)] show ?thesis by blast
qed

text \<open>Two allocations in a row never hand out the same block.\<close>

theorem allocate_blocks_disjoint:
  assumes "free_space D dev st root S" "deep fuel" "room 4 st"
    and "allocate_blocks fuel D dev root req g st = (Ok (a, root'), st')"
    and "allocate_blocks fuel D dev root' req' g st' = (Ok (b, root''), st'')"
  shows "run a req \<inter> run b req' = {}"
proof -
  have "room (Suc (Suc (Suc (Suc 0)))) st" using assms(3) by (simp add: room_def)
  from fa.allocations_disjoint [OF assms(1,2) this assms(4,5)] show ?thesis .
qed

section \<open>A concrete pool\<close>

definition sample_pool :: "u64 result \<times> cow_state" where
  "sample_pool = insert_free_extent_into_tree 13 memory_device (memory_disk_new_blocks 3) 300 1000 50 1 sample_cow"

definition sample_pool_root :: u64 where
  "sample_pool_root = (case fst sample_pool of Ok r \<Rightarrow> r | _ \<Rightarrow> 0)"

lemma sample_pool_at:
  "free_at memory_device (memory_disk_new_blocks 3) (snd sample_pool) sample_pool_root {(1000, 50)}"
  "room 5 (snd sample_pool)"
proof -
  have "free_at memory_device (memory_disk_new_blocks 3) sample_cow 300 {}"
    using sample_tree_at(1) by (auto simp: free_at_def ext_ok_def)
  moreover have "room (Suc 5) sample_cow" "deep 13" "0 < unat (50 :: u64)"
      "unat (1000 :: u64) + unat (50 :: u64) < 2 ^ 64" "run 1000 50 \<inter> space {} = {}"
    using sample_cow(2) by (simp_all add: room_def deep_def)
  ultimately obtain st' r' where p: "sample_pool = (Ok r', st')"
      "free_at memory_device (memory_disk_new_blocks 3) st' r' {(1000, 50)}" "room 5 st'"
    using insert_free_extent [of memory_device "memory_disk_new_blocks 3" sample_cow 300 "{}" 13 5 50 1000 1]
    unfolding sample_pool_def by blast
  then show "free_at memory_device (memory_disk_new_blocks 3) (snd sample_pool) sample_pool_root {(1000, 50)}"
      "room 5 (snd sample_pool)"
    unfolding sample_pool_root_def p(1) by simp_all
qed

lemma sample_pool_space:
  "free_space memory_device (memory_disk_new_blocks 3) (snd sample_pool) sample_pool_root {1000..<1050}"
proof -
  have "coalesced {(1000, 50)}" "space {(1000, 50)} = {1000..<1050}"
    by (simp_all add: coalesced_def run_def)
  with sample_pool_at(1) show ?thesis unfolding free_space_def by blast
qed

theorem allocate_blocks_refines_free_set_witness:
  "(\<exists>a root' st' E'. allocate_blocks 13 memory_device (memory_disk_new_blocks 3) sample_pool_root 8 1 (snd sample_pool)
      = (Ok (a, root'), st') \<and> free_at memory_device (memory_disk_new_blocks 3) st' root' E' \<and>
      run a 8 \<subseteq> {1000..<1050} \<and> space E' = {1000..<1050} - run a 8) \<and>
   allocate_blocks 13 memory_device (memory_disk_new_blocks 3) sample_pool_root 51 1 (snd sample_pool)
      = (Err OutOfSpace, snd sample_pool)"
proof -
  have hn: "deep 13" "room 2 (snd sample_pool)" "space {(1000, 50)} = {1000..<1050}"
    using sample_pool_at(2) by (simp_all add: room_def run_def deep_def)
  have c: "(\<exists>(x, y)\<in>{(1000 :: u64, 50 :: u64)}. 8 \<le> y) = True" "(\<exists>(x, y)\<in>{(1000 :: u64, 50 :: u64)}. 51 \<le> y) = False"
    by simp_all
  show ?thesis
    using allocate_blocks_refines_free_set [OF sample_pool_at(1) hn(1,2), of 8 1]
      allocate_blocks_refines_free_set [OF sample_pool_at(1) hn(1,2), of 51 1]
    unfolding c hn(3) if_True if_False by blast
qed

theorem free_blocks_refines_free_set_witness:
  "\<exists>root' st' E'. free_blocks 13 memory_device (memory_disk_new_blocks 3) sample_pool_root 1050 10 1 (snd sample_pool)
      = (Ok root', st') \<and>
    free_at memory_device (memory_disk_new_blocks 3) st' root' E' \<and> space E' = {1000..<1060} \<and> coalesced E'"
proof -
  have hyp: "deep 13" "room 3 (snd sample_pool)" "0 < unat (10 :: u64)"
      "unat (1050 :: u64) + unat (10 :: u64) < 2 ^ 64" "run 1050 10 \<inter> space {(1000, 50)} = {}"
    using sample_pool_at(2) by (auto simp: room_def run_def deep_def)
  have "coalesced {(1000, 50)}" "space {(1000, 50)} \<union> run 1050 10 = {1000..<1060}"
    by (auto simp: coalesced_def run_def)
  with free_blocks_refines_free_set [OF sample_pool_at(1) hyp, of 1] show ?thesis
    by auto
qed

theorem free_blocks_undoes_allocate_witness:
  "\<exists>a root' st' root'' st''.
    allocate_blocks 13 memory_device (memory_disk_new_blocks 3) sample_pool_root 8 1 (snd sample_pool)
      = (Ok (a, root'), st') \<and>
    free_blocks 13 memory_device (memory_disk_new_blocks 3) root' a 8 1 st' = (Ok root'', st'') \<and>
    free_space memory_device (memory_disk_new_blocks 3) st'' root'' {1000..<1050}"
proof -
  have hn: "deep 13" "deep 13" "room (Suc (Suc 3)) (snd sample_pool)"
      "(1000, 50) \<in> {(1000 :: u64, 50 :: u64)}" "(8 :: u64) \<le> 50"
    using sample_pool_at(2) by (simp_all add: room_def deep_def)
  obtain a root' st' where
    "allocate_blocks 13 memory_device (memory_disk_new_blocks 3) sample_pool_root 8 1 (snd sample_pool)
      = (Ok (a, root'), st')"
    using allocate_blocks_at [OF sample_pool_at(1) hn(1,3,4,5), of 1] by blast
  moreover have "0 < unat (8 :: u64)" by simp
  ultimately show ?thesis
    using free_blocks_undoes_allocate [OF sample_pool_space hn(2) sample_pool_at(2)] by blast
qed

lemma pool_not_empty:
  assumes "space E = {1000..<1050} - run a 8" "ext_ok E"
  obtains x y where "(x, y) \<in> E" "1 \<le> y"
proof -
  have "card (run a 8) < card {1000..<1050 :: nat}" by (simp add: run_def)
  then have "space E \<noteq> {}"
    using assms(1) card_mono [of "run a 8" "{1000..<1050}"] by (auto simp: run_def)
  then obtain x y where "(x, y) \<in> E" by (auto simp: space_def)
  moreover from this have "1 \<le> y"
    using ext_okD(1) [OF assms(2)] by (simp add: word_le_nat_alt Suc_le_eq)
  ultimately show thesis by (rule that)
qed

theorem allocate_blocks_disjoint_witness:
  "\<exists>a root' st' b root'' st''.
    allocate_blocks 13 memory_device (memory_disk_new_blocks 3) sample_pool_root 8 1 (snd sample_pool)
      = (Ok (a, root'), st') \<and>
    allocate_blocks 13 memory_device (memory_disk_new_blocks 3) root' 1 1 st' = (Ok (b, root''), st'') \<and>
    run a 8 \<inter> run b 1 = {}"
proof -
  have hn: "deep 13" "deep 13" "room (Suc (Suc 3)) (snd sample_pool)"
      "(1000, 50) \<in> {(1000 :: u64, 50 :: u64)}" "(8 :: u64) \<le> 50" "room 4 (snd sample_pool)"
    using sample_pool_at(2) by (simp_all add: room_def deep_def)
  obtain a root' st' E' where al:
    "allocate_blocks 13 memory_device (memory_disk_new_blocks 3) sample_pool_root 8 1 (snd sample_pool)
      = (Ok (a, root'), st')" "free_at memory_device (memory_disk_new_blocks 3) st' root' E'"
      "space E' = space {(1000, 50)} - run a 8" "room 3 st'"
    using allocate_blocks_at [OF sample_pool_at(1) hn(1,3,4,5), of 1] by blast
  have "space E' = {1000..<1050} - run a 8" "ext_ok E'"
    using al(2,3) by (simp_all add: free_at_def run_def)
  then obtain x y where xy: "(x, y) \<in> E'" "1 \<le> y" by (rule pool_not_empty)
  have "room (Suc (Suc 0)) st'" using al(4) by (simp add: room_def)
  from allocate_blocks_at [OF al(2) hn(2) this xy]
  obtain b root'' st'' where
    "allocate_blocks 13 memory_device (memory_disk_new_blocks 3) root' 1 1 st' = (Ok (b, root''), st'')"
    by blast
  with allocate_blocks_disjoint [OF sample_pool_space hn(2,6) al(1) this] al(1) show ?thesis by blast
qed

section \<open>The extents of a file\<close>

definition extent_key :: "u64 \<Rightarrow> u64 \<Rightarrow> bafs_key" where
  "extent_key ino off = BafsKey ino ITEM_TYPE_EXTENT_DATA off"

definition extent_end :: "bafs_extent_data \<Rightarrow> nat" where
  "extent_end e = unat (logical_byte_offset e) + unat (ed_block_count e) * 4096"

definition covers :: "bafs_extent_data \<Rightarrow> u64 \<Rightarrow> bool" where
  "covers e off \<longleftrightarrow> unat (logical_byte_offset e) \<le> unat off \<and> unat off < extent_end e"

text \<open>A file's extent items are well formed when each holds the encoding of an extent that starts
  at the key's offset and ends below \<open>2 ^ 64\<close>.\<close>

definition extent_item :: "u64 \<Rightarrow> bafs_leaf_item \<Rightarrow> bafs_extent_data \<Rightarrow> bool" where
  "extent_item ino i e \<longleftrightarrow> i = \<lparr>item_key = extent_key ino (logical_byte_offset e),
     item_value = serialise_extent_data_to_bytes e\<rparr> \<and> extent_end e < 2 ^ 64"

definition extents_wf :: "bafs_leaf_item list \<Rightarrow> u64 \<Rightarrow> bool" where
  "extents_wf its ino \<longleftrightarrow> (\<forall>i\<in>set its. keys_of ino ITEM_TYPE_EXTENT_DATA (item_key i) \<longrightarrow> (\<exists>e. extent_item ino i e))"

definition file_extents :: "bafs_leaf_item list \<Rightarrow> u64 \<Rightarrow> bafs_extent_data set" where
  "file_extents its ino = {e. \<exists>i\<in>set its. extent_item ino i e}"

lemma covering_step:
  assumes "extent_item ino i e"
  shows "covering_extent off (i # is') = (if covers e off then Ok (Some e) else covering_extent off is')"
proof -
  have e: "unat (logical_byte_offset e) + unat (ed_block_count e) * 4096 < 2 ^ 64"
    using assms by (simp add: extent_item_def extent_end_def)
  have c: "unat (ucast BAFS_DEFAULT_BLOCK_SIZE_BYTES :: u64) = 4096"
    by (simp add: BAFS_DEFAULT_BLOCK_SIZE_BYTES_def)
  define l where "l = ed_block_count e * ucast BAFS_DEFAULT_BLOCK_SIZE_BYTES"
  have m: "mul_u (ed_block_count e) (ucast BAFS_DEFAULT_BLOCK_SIZE_BYTES) = Ok l"
    using e c by (simp add: mul_u_def l_def)
  have l: "unat l = unat (ed_block_count e) * 4096"
    using conjunct2 [OF mul_u_OkD [OF m]] unfolding c .
  have a: "add_u (logical_byte_offset e) l = Ok (logical_byte_offset e + l)"
      "unat (logical_byte_offset e + l) = unat (logical_byte_offset e) + unat l"
    using e l by (simp_all add: add_run)
  show ?thesis
    using assms m a by (simp add: extent_item_def covers_def extent_end_def word_le_nat_alt word_less_nat_alt l)
qed

lemma serialise_inj:
  "serialise_extent_data_to_bytes e = serialise_extent_data_to_bytes e' \<Longrightarrow> e = e'"
  by (metis extent_data_codec result.inject(1))

lemma covering_extent_spec:
  assumes "\<forall>i\<in>set is'. \<exists>e. extent_item ino i e" "sorted_items is'"
  shows "(\<exists>e\<in>file_extents is' ino. covering_extent off is' = Ok (Some e) \<and> covers e off \<and>
      (\<forall>e'\<in>file_extents is' ino. covers e' off \<longrightarrow> logical_byte_offset e \<le> logical_byte_offset e')) \<or>
    covering_extent off is' = Ok None \<and> (\<forall>e\<in>file_extents is' ino. \<not> covers e off)"
  using assms
proof (induction is')
  case Nil
  then show ?case by (simp add: file_extents_def)
next
  case (Cons i is')
  obtain e where e: "extent_item ino i e" using Cons.prems(1) by auto
  have ex: "file_extents (i # is') ino = insert e (file_extents is' ino)"
    using e serialise_inj by (auto simp: file_extents_def extent_item_def)
  have lt: "logical_byte_offset e < logical_byte_offset e'" if "e' \<in> file_extents is' ino" for e'
    using that e Cons.prems(2) by (auto simp: file_extents_def extent_item_def extent_key_def)
  show ?case
  proof (cases "covers e off")
    case True
    then have "covering_extent off (i # is') = Ok (Some e)"
      using covering_step [OF e] by simp
    moreover have "logical_byte_offset e \<le> logical_byte_offset e'" if "e' \<in> file_extents (i # is') ino" for e'
      using that lt [of e'] by (auto simp: ex)
    ultimately show ?thesis
      using True by (auto simp: ex simp del: covering_extent.simps)
  next
    case False
    then have "covering_extent off (i # is') = covering_extent off is'"
      using covering_step [OF e] by simp
    with False show ?thesis
      using Cons.IH Cons.prems by (auto simp: ex simp del: covering_extent.simps)
  qed
qed

lemma file_extents_filter:
  "file_extents (filter (\<lambda>i. keys_of ino ITEM_TYPE_EXTENT_DATA (item_key i)) its) ino = file_extents its ino"
  by (auto simp: file_extents_def extent_item_def extent_key_def keys_of_def)

lemma read_extent_at:
  assumes "inode_tree D dev st root its" "deep fuel" "extents_wf its ino"
  shows "(\<exists>e\<in>file_extents its ino.
      read_extent_data_for_file_offset fuel D dev (dirty_cache st) root ino off = Ok (Some e) \<and> covers e off \<and>
      (\<forall>e'\<in>file_extents its ino. covers e' off \<longrightarrow> logical_byte_offset e \<le> logical_byte_offset e')) \<or>
    read_extent_data_for_file_offset fuel D dev (dirty_cache st) root ino off = Ok None \<and>
      (\<forall>e\<in>file_extents its ino. \<not> covers e off)"
proof -
  let ?xs = "filter (\<lambda>i. keys_of ino ITEM_TYPE_EXTENT_DATA (item_key i)) its"
  have "iterate_tree_range fuel D dev (dirty_cache st) root (BafsKey ino ITEM_TYPE_EXTENT_DATA 0)
      (BafsKey ino ITEM_TYPE_EXTENT_DATA (- 1)) = Ok ?xs"
    using it.scan_at [OF assms(1,2), of "BafsKey ino ITEM_TYPE_EXTENT_DATA 0" "BafsKey ino ITEM_TYPE_EXTENT_DATA (- 1)"]
    by simp
  then have "read_extent_data_for_file_offset fuel D dev (dirty_cache st) root ino off = covering_extent off ?xs"
    by (simp add: read_extent_data_for_file_offset_def)
  moreover have "\<forall>i\<in>set ?xs. \<exists>e. extent_item ino i e"
    using assms(3) by (simp add: extents_wf_def)
  moreover have "sorted_items ?xs"
    by (rule sorted_items_filter [OF it.at_sorted [OF assms(1)]])
  ultimately show ?thesis
    using covering_extent_spec [of ?xs ino off] by (simp add: file_extents_filter)
qed

lemma file_extents_upd:
  assumes "sorted_items its" "extents_wf its ino" "extent_end e < 2 ^ 64"
  shows "extents_wf (upd_items (extent_key ino (logical_byte_offset e)) (serialise_extent_data_to_bytes e) its) ino"
    and "file_extents (upd_items (extent_key ino (logical_byte_offset e)) (serialise_extent_data_to_bytes e) its) ino
      = insert e {e' \<in> file_extents its ino. logical_byte_offset e' \<noteq> logical_byte_offset e}"
  using assms(2,3) serialise_inj
  by (auto simp: extents_wf_def file_extents_def set_upd_items [OF assms(1)] extent_item_def extent_key_def)

lemma write_extent_at:
  assumes "inode_tree D dev st root its" "deep fuel" "room (Suc n) st" "1 \<le> ino"
  shows "\<exists>st' root'. write_extent_data_to_inode_tree fuel D dev root ino e g st = (Ok root', st') \<and>
    inode_tree D dev st' root'
      (upd_items (extent_key ino (logical_byte_offset e)) (serialise_extent_data_to_bytes e) its) \<and>
    cow_step st st' \<and> room n st'"
proof -
  have "inode_insertable its (extent_key ino (logical_byte_offset e)) (serialise_extent_data_to_bytes e)"
    using assms(4) by (auto simp: inode_insertable_def small_value_def ROOT_KEY_def extent_key_def
        BAFS_ROOT_INODE_NUMBER_def ITEM_TYPE_INODE_def ITEM_TYPE_EXTENT_DATA_def)
  from it.put_at [OF assms(1-3) this] show ?thesis
    by (simp add: write_extent_data_to_inode_tree_def extent_key_def)
qed

text \<open>C32: the extent lookup of a file. For a file whose extent items are well formed,
  \<open>read_extent_data_for_file_offset\<close> returns the extent with the lowest logical offset among those
  that contain the offset, and \<open>None\<close> exactly when none does; after \<open>write_extent_data_to_inode_tree\<close>
  the same holds with the new extent in place of the one with its logical offset.\<close>

theorem read_extent_after_write:
  assumes "inode_tree D dev st root its" "deep fuel" "room 1 st" "1 \<le> ino"
    and "extents_wf its ino" "extent_end e < 2 ^ 64"
  shows "\<exists>st' root'. write_extent_data_to_inode_tree fuel D dev root ino e g st = (Ok root', st') \<and>
    (let X = insert e {e' \<in> file_extents its ino. logical_byte_offset e' \<noteq> logical_byte_offset e} in
     \<forall>off. case read_extent_data_for_file_offset fuel D dev (dirty_cache st') root' ino off of
         Ok (Some x) \<Rightarrow> x \<in> X \<and> covers x off \<and>
           (\<forall>y\<in>X. covers y off \<longrightarrow> logical_byte_offset x \<le> logical_byte_offset y)
       | Ok None \<Rightarrow> \<forall>x\<in>X. \<not> covers x off
       | _ \<Rightarrow> False)"
proof -
  have "deep fuel" "room (Suc 0) st" using assms(2,3) by simp_all
  from write_extent_at [OF assms(1) this assms(4)]
  obtain st' root' where w: "write_extent_data_to_inode_tree fuel D dev root ino e g st = (Ok root', st')"
      "inode_tree D dev st' root'
        (upd_items (extent_key ino (logical_byte_offset e)) (serialise_extent_data_to_bytes e) its)" by blast
  note u = file_extents_upd [OF it.at_sorted [OF assms(1)] assms(5,6)]
  let ?X = "insert e {e' \<in> file_extents its ino. logical_byte_offset e' \<noteq> logical_byte_offset e}"
  have "case read_extent_data_for_file_offset fuel D dev (dirty_cache st') root' ino off of
         Ok (Some x) \<Rightarrow> x \<in> ?X \<and> covers x off \<and>
           (\<forall>y\<in>?X. covers y off \<longrightarrow> logical_byte_offset x \<le> logical_byte_offset y)
       | Ok None \<Rightarrow> \<forall>x\<in>?X. \<not> covers x off
       | _ \<Rightarrow> False" for off
    using read_extent_at [OF w(2) assms(2) u(1), of off] unfolding u(2)
    by (elim disjE bexE conjE) simp_all
  with w(1) show ?thesis unfolding Let_def by blast
qed

theorem read_extent_after_write_witness:
  "\<exists>st' root'. write_extent_data_to_inode_tree 13 memory_device sample_dev sample_inode_root 2
      \<lparr>logical_byte_offset = 0, first_disk_block = 700, ed_block_count = 1, extent_flags = 0, ed_reserved = 0\<rparr>
      1 sample_inode_cow = (Ok root', st') \<and>
    read_extent_data_for_file_offset 13 memory_device sample_dev (dirty_cache st') root' 2 4095
      = Ok (Some \<lparr>logical_byte_offset = 0, first_disk_block = 700, ed_block_count = 1, extent_flags = 0, ed_reserved = 0\<rparr>) \<and>
    read_extent_data_for_file_offset 13 memory_device sample_dev (dirty_cache st') root' 2 4096 = Ok None"
proof -
  let ?e = "\<lparr>logical_byte_offset = 0, first_disk_block = 700, ed_block_count = 1, extent_flags = 0, ed_reserved = 0\<rparr>"
  let ?its = "[\<lparr>item_key = ROOT_KEY, item_value = serialise_inode_to_bytes (new_directory 1 1 0)\<rparr>]"
  have X: "insert ?e {e' \<in> file_extents ?its 2. logical_byte_offset e' \<noteq> logical_byte_offset ?e} = {?e}"
    by (auto simp: file_extents_def extent_item_def extent_key_def ROOT_KEY_def BAFS_ROOT_INODE_NUMBER_def)
  have "deep 13" "room 1 sample_inode_cow" "(1 :: u64) \<le> 2" "extents_wf ?its 2" "extent_end ?e < 2 ^ 64"
    using sample_inode_tree(2) by (simp_all add: room_def deep_def extents_wf_def keys_of_def ROOT_KEY_def extent_end_def
        BAFS_ROOT_INODE_NUMBER_def)
  from read_extent_after_write [OF sample_inode_tree(1) this, of 1]
  obtain st' root' where w: "write_extent_data_to_inode_tree 13 memory_device sample_dev sample_inode_root 2 ?e
        1 sample_inode_cow = (Ok root', st')"
    and r: "\<And>off. case read_extent_data_for_file_offset 13 memory_device sample_dev (dirty_cache st') root' 2 off of
         Ok (Some x) \<Rightarrow> x \<in> {?e} \<and> covers x off \<and> (\<forall>y\<in>{?e}. covers y off \<longrightarrow> logical_byte_offset x \<le> logical_byte_offset y)
       | Ok None \<Rightarrow> \<forall>x\<in>{?e}. \<not> covers x off | _ \<Rightarrow> False"
    unfolding X Let_def by blast
  have "covers ?e 4095" "\<not> covers ?e 4096"
    by (simp_all add: covers_def extent_end_def)
  with w r [of 4095] r [of 4096] show ?thesis
    by (auto split: result.splits option.splits)
qed

end
