(* ===== verification/Dir.thy ===== *)
theory Dir
  imports Inode
begin

unbundle bit_operations_syntax

text \<open>
  \<open>dir.rs\<close>: xxHash-64, the directory entry codec with the standard library's lossy UTF-8 decoding,
  and the directory operations on the inode tree. A \<open>&str\<close> is the list of its bytes.

  The abstract view of a directory is a map from names to entries. Lookup, creation, removal and
  listing are shown to implement it; creation under a hash collision is shown to overwrite.
\<close>

definition CHILD_TYPE_DIRECTORY :: u8 where "CHILD_TYPE_DIRECTORY = 4"

definition CHILD_TYPE_REGULAR_FILE :: u8 where "CHILD_TYPE_REGULAR_FILE = 8"

section \<open>xxHash-64\<close>

definition XXH64_PRIME_1 :: u64 where "XXH64_PRIME_1 = 0x9E3779B185EBCA87"

definition XXH64_PRIME_2 :: u64 where "XXH64_PRIME_2 = 0xC2B2AE3D27D4EB4F"

definition XXH64_PRIME_3 :: u64 where "XXH64_PRIME_3 = 0x165667B19E3779F9"

definition XXH64_PRIME_4 :: u64 where "XXH64_PRIME_4 = 0x85EBCA77C2B2AE63"

definition XXH64_PRIME_5 :: u64 where "XXH64_PRIME_5 = 0x27D4EB2F165667C5"

definition rotate_left_64 :: "u64 \<Rightarrow> nat \<Rightarrow> u64" where
  "rotate_left_64 v rotation_amount = word_rotl rotation_amount v"

definition xxh64_round :: "u64 \<Rightarrow> u64 \<Rightarrow> u64" where
  "xxh64_round accumulator lane_value =
     word_rotl 31 (accumulator + lane_value * XXH64_PRIME_2) * XXH64_PRIME_1"

definition xxh64_merge_accumulator :: "u64 \<Rightarrow> u64 \<Rightarrow> u64" where
  "xxh64_merge_accumulator hash_state accumulator =
     (let merged = hash_state XOR xxh64_round 0 accumulator
      in merged * XXH64_PRIME_1 + XXH64_PRIME_4)"

text \<open>The loops take the bytes that the read cursor has not passed.\<close>

function xxh64_stripes :: "u64 \<times> u64 \<times> u64 \<times> u64 \<Rightarrow> bytes \<Rightarrow> (u64 \<times> u64 \<times> u64 \<times> u64) \<times> bytes" where
  "xxh64_stripes (a0, a1, a2, a3) bs =
     (if 32 \<le> length bs
      then xxh64_stripes
        (xxh64_round a0 (from_le (slice 0 8 bs)), xxh64_round a1 (from_le (slice 8 16 bs)),
         xxh64_round a2 (from_le (slice 16 24 bs)), xxh64_round a3 (from_le (slice 24 32 bs))) (drop 32 bs)
      else ((a0, a1, a2, a3), bs))"
  by pat_completeness auto
termination by (relation "measure (length \<circ> snd)") auto

function xxh64_lanes :: "u64 \<Rightarrow> bytes \<Rightarrow> u64 \<times> bytes" where
  "xxh64_lanes hash_state bs =
     (if 8 \<le> length bs
      then xxh64_lanes
        (rotate_left_64 (hash_state XOR xxh64_round 0 (from_le (slice 0 8 bs))) 27 * XXH64_PRIME_1 + XXH64_PRIME_4)
        (drop 8 bs)
      else (hash_state, bs))"
  by pat_completeness auto
termination by (relation "measure (length \<circ> snd)") auto

declare xxh64_stripes.simps [simp del] xxh64_lanes.simps [simp del]

definition xxh64_half_lane :: "u64 \<Rightarrow> bytes \<Rightarrow> u64 \<times> bytes" where
  "xxh64_half_lane hash_state bs =
     (if 4 \<le> length bs
      then (rotate_left_64 (hash_state XOR ucast (from_le (slice 0 4 bs) :: u32) * XXH64_PRIME_1) 23
              * XXH64_PRIME_2 + XXH64_PRIME_3, drop 4 bs)
      else (hash_state, bs))"

primrec xxh64_tail :: "u64 \<Rightarrow> bytes \<Rightarrow> u64" where
  "xxh64_tail hash_state [] = hash_state"
| "xxh64_tail hash_state (b # bs) =
     xxh64_tail (rotate_left_64 (hash_state XOR ucast b * XXH64_PRIME_5) 11 * XXH64_PRIME_1) bs"

definition xxh64_avalanche :: "u64 \<Rightarrow> u64" where
  "xxh64_avalanche h0 =
     (let h1 = (h0 XOR drop_bit 33 h0) * XXH64_PRIME_2;
          h2 = (h1 XOR drop_bit 29 h1) * XXH64_PRIME_3
      in h2 XOR drop_bit 32 h2)"

definition xxh64_start :: "bytes \<Rightarrow> u64 \<times> bytes" where
  "xxh64_start input_bytes =
     (if 32 \<le> length input_bytes then
        (case xxh64_stripes (0 + XXH64_PRIME_1 + XXH64_PRIME_2, 0 + XXH64_PRIME_2, 0, 0 - XXH64_PRIME_1) input_bytes of
           ((a0, a1, a2, a3), rest) \<Rightarrow>
             (let h = rotate_left_64 a0 1 + rotate_left_64 a1 7 + rotate_left_64 a2 12 + rotate_left_64 a3 18;
                  h = xxh64_merge_accumulator h a0;
                  h = xxh64_merge_accumulator h a1;
                  h = xxh64_merge_accumulator h a2
              in (xxh64_merge_accumulator h a3, rest)))
      else (0 + XXH64_PRIME_5, input_bytes))"

definition xxhash64_with_seed_zero :: "bytes \<Rightarrow> u64" where
  "xxhash64_with_seed_zero input_bytes =
     (case xxh64_start input_bytes of (h, rest) \<Rightarrow>
      case xxh64_lanes (h + of_nat (length input_bytes)) rest of (h, rest) \<Rightarrow>
      case xxh64_half_lane h rest of (h, rest) \<Rightarrow>
        xxh64_avalanche (xxh64_tail h rest))"

section \<open>UTF-8\<close>

text \<open>The byte ranges of well-formed UTF-8 as in \<open>core::str\<close>: the number of continuation bytes that
  a lead byte asks for, and the range of the first of them.\<close>

definition utf8_continuation :: "u8 \<Rightarrow> bool" where
  "utf8_continuation b \<longleftrightarrow> b AND 0xC0 = 0x80"

definition utf8_second :: "u8 \<Rightarrow> u8 \<Rightarrow> bool" where
  "utf8_second lead b \<longleftrightarrow>
     (if lead = 0xE0 then 0xA0 \<le> b \<and> b \<le> 0xBF
      else if lead = 0xED then 0x80 \<le> b \<and> b \<le> 0x9F
      else if lead = 0xF0 then 0x90 \<le> b \<and> b \<le> 0xBF
      else if lead = 0xF4 then 0x80 \<le> b \<and> b \<le> 0x8F
      else 0x80 \<le> b \<and> b \<le> 0xBF)"

definition utf8_char_width :: "u8 \<Rightarrow> nat" where
  "utf8_char_width b =
     (if b < 0x80 then 1 else if b < 0xC2 then 0 else if b < 0xE0 then 2
      else if b < 0xF0 then 3 else if b < 0xF5 then 4 else 0)"

text \<open>\<open>utf8_step lead rest\<close>: whether the character at the front is well formed, and how many of the
  bytes after the lead it (or the ill-formed prefix) takes.\<close>

fun utf8_follow :: "nat \<Rightarrow> bytes \<Rightarrow> bool \<times> nat" where
  "utf8_follow 0 bs = (True, 0)"
| "utf8_follow (Suc n) [] = (False, 0)"
| "utf8_follow (Suc n) (b # bs) =
     (if utf8_continuation b then (case utf8_follow n bs of (ok, m) \<Rightarrow> (ok, Suc m)) else (False, 0))"

definition utf8_step :: "u8 \<Rightarrow> bytes \<Rightarrow> bool \<times> nat" where
  "utf8_step lead rest =
     (let w = utf8_char_width lead in
      if w = 0 then (False, 0)
      else if w \<le> 2 then utf8_follow (w - 1) rest
      else (case rest of
              [] \<Rightarrow> (False, 0)
            | b # bs \<Rightarrow> if utf8_second lead b
                then (case utf8_follow (w - 2) bs of (ok, m) \<Rightarrow> (ok, Suc m)) else (False, 0)))"

text \<open>\<open>String::from_utf8_lossy\<close>: each maximal ill-formed prefix becomes U+FFFD.\<close>

function from_utf8_lossy :: "bytes \<Rightarrow> bytes" where
  "from_utf8_lossy [] = []"
| "from_utf8_lossy (b # bs) =
     (case utf8_step b bs of (ok, m) \<Rightarrow>
        (if ok then b # take m bs else [0xEF, 0xBF, 0xBD]) @ from_utf8_lossy (drop m bs))"
  by pat_completeness auto
termination by (relation "measure length") auto

function valid_utf8 :: "bytes \<Rightarrow> bool" where
  "valid_utf8 [] = True"
| "valid_utf8 (b # bs) = (case utf8_step b bs of (ok, m) \<Rightarrow> ok \<and> valid_utf8 (drop m bs))"
  by pat_completeness auto
termination by (relation "measure length") auto

section \<open>Directory entries\<close>

record bafs_dir_entry =
  child_inode_number :: u64
  child_type :: u8
  name_length_bytes :: u8
  filename :: bytes

definition serialise_dir_entry_to_bytes :: "bafs_dir_entry \<Rightarrow> bytes" where
  "serialise_dir_entry_to_bytes entry =
     to_le (child_inode_number entry) @ [child_type entry, name_length_bytes entry, 0, 0] @ filename entry"

definition deserialise_dir_entry_from_bytes :: "bytes \<Rightarrow> bafs_dir_entry result" where
  "deserialise_dir_entry_from_bytes bs =
     (if length bs < 12 then Err CorruptedStructure
      else let name_end = 12 + unat (bs ! 9) in
        if length bs < name_end then Err CorruptedStructure
        else Ok \<lparr>child_inode_number = from_le (slice 0 8 bs), child_type = bs ! 8,
                 name_length_bytes = bs ! 9, filename = from_utf8_lossy (slice 12 name_end bs)\<rparr>)"

definition make_directory_entry_key :: "u64 \<Rightarrow> bytes \<Rightarrow> bafs_key" where
  "make_directory_entry_key parent name =
     BafsKey parent ITEM_TYPE_DIRECTORY_ENTRY (xxhash64_with_seed_zero name)"

fun find_entry :: "bytes \<Rightarrow> bafs_leaf_item list \<Rightarrow> bafs_dir_entry option result" where
  "find_entry target_filename [] = Ok None"
| "find_entry target_filename (item # items) =
     bindR (deserialise_dir_entry_from_bytes (item_value item)) (\<lambda>entry.
     if filename entry = target_filename then Ok (Some entry) else find_entry target_filename items)"

definition directory_lookup_entry ::
  "nat \<Rightarrow> 'd block_device \<Rightarrow> 'd \<Rightarrow> dirty_cache \<Rightarrow> u64 \<Rightarrow> u64 \<Rightarrow> bytes \<Rightarrow> bafs_dir_entry option result" where
  "directory_lookup_entry fuel D dev cache root parent target_filename =
     (let target_hash = xxhash64_with_seed_zero target_filename;
          search_key = BafsKey parent ITEM_TYPE_DIRECTORY_ENTRY target_hash
      in bindR (iterate_tree_range fuel D dev cache root search_key search_key) (find_entry target_filename))"

definition directory_create_entry ::
  "nat \<Rightarrow> 'd block_device \<Rightarrow> 'd \<Rightarrow> u64 \<Rightarrow> u64 \<Rightarrow> bytes \<Rightarrow> u64 \<Rightarrow> u8 \<Rightarrow> u64 \<Rightarrow> (cow_state, u64) sop" where
  "directory_create_entry fuel D dev root parent child_filename child_inode ctype generation =
     (if child_filename = [] \<or> 255 < length child_filename then failS InvalidArgument
      else
        bindS (getS dirty_cache) (\<lambda>cache.
        bindS (liftS (directory_lookup_entry fuel D dev cache root parent child_filename)) (\<lambda>existing.
        if existing \<noteq> None then failS AlreadyExists
        else
          let entry = \<lparr>child_inode_number = child_inode, child_type = ctype,
                       name_length_bytes = of_nat (length child_filename), filename = child_filename\<rparr>;
              key = make_directory_entry_key parent child_filename;
              v = serialise_dir_entry_to_bytes entry
          in insert_into_tree fuel D dev root key v generation)))"

definition directory_unlink_entry ::
  "nat \<Rightarrow> 'd block_device \<Rightarrow> 'd \<Rightarrow> u64 \<Rightarrow> u64 \<Rightarrow> bytes \<Rightarrow> u64 \<Rightarrow> (cow_state, u64) sop" where
  "directory_unlink_entry fuel D dev root parent target_filename generation =
     (let key = make_directory_entry_key parent target_filename in
      bindS (getS dirty_cache) (\<lambda>cache.
      bindS (liftS (directory_lookup_entry fuel D dev cache root parent target_filename)) (\<lambda>existing_entry.
      if existing_entry = None then failS NotFound
      else delete_from_tree fuel D dev root key generation)))"

definition scan_directory ::
  "nat \<Rightarrow> 'd block_device \<Rightarrow> 'd \<Rightarrow> dirty_cache \<Rightarrow> u64 \<Rightarrow> u64 \<Rightarrow> bafs_leaf_item list result" where
  "scan_directory fuel D dev cache root parent =
     iterate_tree_range fuel D dev cache root (BafsKey parent ITEM_TYPE_DIRECTORY_ENTRY 0)
       (BafsKey parent ITEM_TYPE_DIRECTORY_ENTRY (- 1))"

definition directory_iterate ::
  "nat \<Rightarrow> 'd block_device \<Rightarrow> 'd \<Rightarrow> dirty_cache \<Rightarrow> u64 \<Rightarrow> u64 \<Rightarrow> nat \<Rightarrow> bafs_dir_entry option result" where
  "directory_iterate fuel D dev cache root parent entry_index =
     bindR (scan_directory fuel D dev cache root parent) (\<lambda>all_entries.
     if length all_entries \<le> entry_index then Ok None
     else bindR (deserialise_dir_entry_from_bytes (item_value (all_entries ! entry_index))) (\<lambda>entry. Ok (Some entry)))"

fun collect_entries :: "bafs_leaf_item list \<Rightarrow> bafs_dir_entry list result" where
  "collect_entries [] = Ok []"
| "collect_entries (item # items) =
     bindR (deserialise_dir_entry_from_bytes (item_value item)) (\<lambda>entry.
     bindR (collect_entries items) (\<lambda>entries. Ok (entry # entries)))"

definition directory_list_all_entries ::
  "nat \<Rightarrow> 'd block_device \<Rightarrow> 'd \<Rightarrow> dirty_cache \<Rightarrow> u64 \<Rightarrow> u64 \<Rightarrow> bafs_dir_entry list result" where
  "directory_list_all_entries fuel D dev cache root parent =
     bindR (scan_directory fuel D dev cache root parent) collect_entries"

section \<open>The hash and the codec\<close>

lemma from_le_fold [code]: "from_le bs = foldr (\<lambda>b w. ucast b + 256 * w) bs 0"
  by (induction bs) (simp_all add: from_le_def)

text \<open>The hash agrees with the published xxHash-64 test vectors on an empty, a short and a
  more than 32 bytes long input, so every phase of the algorithm is exercised.\<close>

theorem xxhash64_reference_vectors:
  "xxhash64_with_seed_zero [] = 0xEF46DB3751D8E999 \<and>
   xxhash64_with_seed_zero [0x61, 0x62, 0x63] = 0x44BC2CF5AD770999 \<and>
   xxhash64_with_seed_zero
     [0x4E, 0x6F, 0x62, 0x6F, 0x64, 0x79, 0x20, 0x69, 0x6E, 0x73, 0x70, 0x65, 0x63, 0x74, 0x73, 0x20, 0x74, 0x68,
      0x65, 0x20, 0x73, 0x70, 0x61, 0x6D, 0x6D, 0x69, 0x73, 0x68, 0x20, 0x72, 0x65, 0x70, 0x65, 0x74, 0x69, 0x74,
      0x69, 0x6F, 0x6E] = 0xFBCEA83C8A378BF1"
  by code_simp

lemma from_utf8_lossy_valid: "valid_utf8 bs \<Longrightarrow> from_utf8_lossy bs = bs"
proof (induction bs rule: from_utf8_lossy.induct)
  case (2 b bs)
  obtain ok m where s: "utf8_step b bs = (ok, m)" by (cases "utf8_step b bs")
  with 2 show ?case by (simp add: append_take_drop_id)
qed simp

definition valid_name :: "bytes \<Rightarrow> bool" where
  "valid_name n \<longleftrightarrow> n \<noteq> [] \<and> length n \<le> 255 \<and> valid_utf8 n"

definition entry_ok :: "bafs_dir_entry \<Rightarrow> bool" where
  "entry_ok e \<longleftrightarrow> valid_name (filename e) \<and> unat (name_length_bytes e) = length (filename e)"

definition new_entry :: "u64 \<Rightarrow> u8 \<Rightarrow> bytes \<Rightarrow> bafs_dir_entry" where
  "new_entry child ctype n = \<lparr>child_inode_number = child, child_type = ctype,
     name_length_bytes = of_nat (length n), filename = n\<rparr>"

lemma new_entry_ok [simp]: "valid_name n \<Longrightarrow> entry_ok (new_entry child ctype n)" "filename (new_entry child ctype n) = n"
  by (simp_all add: entry_ok_def new_entry_def valid_name_def unat_of_nat)

lemma dir_entry_codec:
  assumes "entry_ok e"
  shows "deserialise_dir_entry_from_bytes (serialise_dir_entry_to_bytes e) = Ok e"
proof -
  have "length (to_le (child_inode_number e)) = 8" by simp
  then show ?thesis
    using assms
    by (cases e) (auto simp: deserialise_dir_entry_from_bytes_def serialise_dir_entry_to_bytes_def entry_ok_def
        valid_name_def from_utf8_lossy_valid nth_append slice_simps slice_def Let_def)
qed

lemma dir_entry_inj:
  "entry_ok e \<Longrightarrow> entry_ok e' \<Longrightarrow> serialise_dir_entry_to_bytes e = serialise_dir_entry_to_bytes e' \<Longrightarrow> e = e'"
  by (metis dir_entry_codec result.inject(1))

lemma small_dir_entry: "entry_ok e \<Longrightarrow> small_value (serialise_dir_entry_to_bytes e)"
  by (simp add: small_value_def serialise_dir_entry_to_bytes_def entry_ok_def valid_name_def)

section \<open>A directory as a map from names to entries\<close>

definition dir_item :: "u64 \<Rightarrow> bafs_leaf_item \<Rightarrow> bafs_dir_entry \<Rightarrow> bool" where
  "dir_item p i e \<longleftrightarrow> i = \<lparr>item_key = make_directory_entry_key p (filename e),
     item_value = serialise_dir_entry_to_bytes e\<rparr> \<and> entry_ok e"

definition dir_wf :: "bafs_leaf_item list \<Rightarrow> u64 \<Rightarrow> bool" where
  "dir_wf its p \<longleftrightarrow> (\<forall>i\<in>set its. keys_of p ITEM_TYPE_DIRECTORY_ENTRY (item_key i) \<longrightarrow> (\<exists>e. dir_item p i e))"

definition dir_map :: "bafs_leaf_item list \<Rightarrow> u64 \<Rightarrow> bytes \<Rightarrow> bafs_dir_entry option" where
  "dir_map its p n = (case kv_map its (make_directory_entry_key p n) of
     None \<Rightarrow> None
   | Some v \<Rightarrow> (case deserialise_dir_entry_from_bytes v of
       Ok e \<Rightarrow> if filename e = n then Some e else None | _ \<Rightarrow> None))"

lemma dir_wf_value:
  assumes "sorted_items its" "dir_wf its p" "kv_map its (make_directory_entry_key p n) = Some v"
  obtains e where "v = serialise_dir_entry_to_bytes e" "entry_ok e"
    "make_directory_entry_key p (filename e) = make_directory_entry_key p n"
proof -
  obtain i where i: "i \<in> set its" "item_key i = make_directory_entry_key p n" "item_value i = v"
    using assms(1,3) kv_map_Some by blast
  then have "keys_of p ITEM_TYPE_DIRECTORY_ENTRY (item_key i)"
    by (simp add: keys_of_def make_directory_entry_key_def)
  with assms(2) i(1) obtain e where "dir_item p i e" by (auto simp: dir_wf_def)
  with i that show thesis by (auto simp: dir_item_def)
qed

lemma dir_map_Some:
  assumes "sorted_items its" "dir_wf its p"
  shows "dir_map its p n = Some e \<longleftrightarrow>
    filename e = n \<and> entry_ok e \<and> kv_map its (make_directory_entry_key p n) = Some (serialise_dir_entry_to_bytes e)"
proof (cases "kv_map its (make_directory_entry_key p n)")
  case None
  then show ?thesis by (simp add: dir_map_def)
next
  case (Some v)
  then obtain e' where "v = serialise_dir_entry_to_bytes e'" "entry_ok e'"
    using dir_wf_value [OF assms] by blast
  with Some show ?thesis by (auto simp: dir_map_def dir_entry_codec dest: dir_entry_inj)
qed

lemma scan_single:
  "sorted_items its \<Longrightarrow> filter (in_range k k) its =
     (case kv_map its k of None \<Rightarrow> [] | Some v \<Rightarrow> [\<lparr>item_key = k, item_value = v\<rparr>])"
proof (induction its)
  case Nil
  then show ?case by (simp add: kv_map_def)
next
  case (Cons i its)
  show ?case
  proof (cases "item_key i = k")
    case True
    then have "filter (in_range k k) its = []"
      using Cons.prems by (auto simp: filter_empty_conv in_range_def)
    moreover have "in_range k k i" using True by (simp add: in_range_def)
    ultimately show ?thesis using True by (cases i) (simp add: kv_map_def)
  next
    case False
    then have "\<not> in_range k k i" by (auto simp: in_range_def)
    with False Cons show ?thesis by (simp add: kv_map_def)
  qed
qed

lemma lookup_entry_at:
  assumes "inode_tree D dev st root its" "deep fuel" "dir_wf its p"
  shows "directory_lookup_entry fuel D dev (dirty_cache st) root p n = Ok (dir_map its p n)"
proof -
  let ?k = "make_directory_entry_key p n"
  note s = it.at_sorted [OF assms(1)]
  have "iterate_tree_range fuel D dev (dirty_cache st) root ?k ?k = Ok (filter (in_range ?k ?k) its)"
    by (rule it.scan_at [OF assms(1,2)]) simp
  then have "directory_lookup_entry fuel D dev (dirty_cache st) root p n = find_entry n (filter (in_range ?k ?k) its)"
    by (simp add: directory_lookup_entry_def make_directory_entry_key_def Let_def)
  also have "\<dots> = Ok (dir_map its p n)"
  proof (cases "kv_map its ?k")
    case None
    then show ?thesis by (simp add: scan_single [OF s] dir_map_def)
  next
    case (Some v)
    then obtain e where "v = serialise_dir_entry_to_bytes e" "entry_ok e"
      using dir_wf_value [OF s assms(3)] by blast
    with Some show ?thesis by (simp add: scan_single [OF s] dir_map_def dir_entry_codec)
  qed
  finally show ?thesis .
qed

lemma dir_key_simps [simp]:
  "make_directory_entry_key p n = make_directory_entry_key p' n' \<longleftrightarrow>
     p = p' \<and> xxhash64_with_seed_zero n = xxhash64_with_seed_zero n'"
  "keys_of p' ty (make_directory_entry_key p n) \<longleftrightarrow> p' = p \<and> ty = ITEM_TYPE_DIRECTORY_ENTRY"
  "item_type (make_directory_entry_key p n) = ITEM_TYPE_DIRECTORY_ENTRY"
  by (auto simp: make_directory_entry_key_def keys_of_def)

lemma dir_insertable:
  "1 \<le> p \<Longrightarrow> entry_ok e \<Longrightarrow> inode_insertable its (make_directory_entry_key p n) (serialise_dir_entry_to_bytes e)"
  by (auto simp: inode_insertable_def small_dir_entry make_directory_entry_key_def ROOT_KEY_def
      BAFS_ROOT_INODE_NUMBER_def ITEM_TYPE_INODE_def ITEM_TYPE_DIRECTORY_ENTRY_def)

lemma dir_upd:
  assumes "sorted_items its" "dir_wf its p" "entry_ok e" "filename e = n"
  shows "dir_wf (upd_items (make_directory_entry_key p n) (serialise_dir_entry_to_bytes e) its) p"
    and "dir_map (upd_items (make_directory_entry_key p n) (serialise_dir_entry_to_bytes e) its) p
      = (\<lambda>n'. if n' = n then Some e else if xxhash64_with_seed_zero n' = xxhash64_with_seed_zero n then None
               else dir_map its p n')"
  using assms(2-4)
  by (auto simp: dir_wf_def set_upd_items [OF assms(1)] dir_item_def dir_map_def kv_map_upd_items [OF assms(1)]
      dir_entry_codec fun_eq_iff)

lemma dir_upd_other:
  assumes "sorted_items its" "\<not> keys_of p ITEM_TYPE_DIRECTORY_ENTRY k"
  shows "dir_wf (upd_items k v its) p \<longleftrightarrow> dir_wf its p" "dir_map (upd_items k v its) p = dir_map its p"
proof -
  have "make_directory_entry_key p n \<noteq> k" for n
    using assms(2) by auto
  then show "dir_map (upd_items k v its) p = dir_map its p"
    by (simp add: dir_map_def kv_map_upd_items [OF assms(1)] fun_eq_iff)
  show "dir_wf (upd_items k v its) p \<longleftrightarrow> dir_wf its p"
    using assms(2) by (auto simp: dir_wf_def set_upd_items [OF assms(1)])
qed

lemma dir_del:
  assumes "sorted_items its" "dir_wf its p" "dir_map its p n \<noteq> None"
  shows "dir_wf (del_items (make_directory_entry_key p n) its) p"
    and "dir_map (del_items (make_directory_entry_key p n) its) p = (dir_map its p)(n := None)"
proof -
  show "dir_wf (del_items (make_directory_entry_key p n) its) p"
    using assms(2) by (auto simp: dir_wf_def del_items_def)
  obtain e where e: "filename e = n" "entry_ok e"
      "kv_map its (make_directory_entry_key p n) = Some (serialise_dir_entry_to_bytes e)"
    using assms(3) dir_map_Some [OF assms(1,2)] by blast
  have "dir_map its p n' = None" if "n' \<noteq> n" "xxhash64_with_seed_zero n' = xxhash64_with_seed_zero n" for n'
  proof -
    have k: "make_directory_entry_key p n' = make_directory_entry_key p n" using that(2) by simp
    show ?thesis unfolding dir_map_def k using e that(1) by (auto simp: dir_entry_codec)
  qed
  then show "dir_map (del_items (make_directory_entry_key p n) its) p = (dir_map its p)(n := None)"
    by (auto simp: fun_eq_iff dir_map_def kv_map_del_items)
qed

section \<open>The operations\<close>

lemma create_entry_at:
  assumes "inode_tree D dev st root its" "deep fuel" "room (Suc k) st" "dir_wf its p" "1 \<le> p"
    and "valid_name n" "dir_map its p n = None"
  shows "\<exists>st' root'. directory_create_entry fuel D dev root p n child ctype g st = (Ok root', st') \<and>
    inode_tree D dev st' root'
      (upd_items (make_directory_entry_key p n) (serialise_dir_entry_to_bytes (new_entry child ctype n)) its) \<and>
    cow_step st st' \<and> room k st'"
proof -
  have "directory_create_entry fuel D dev root p n child ctype g st =
      insert_into_tree fuel D dev root (make_directory_entry_key p n)
        (serialise_dir_entry_to_bytes (new_entry child ctype n)) g st"
    using assms(6,7)
    by (auto simp: directory_create_entry_def lookup_entry_at [OF assms(1,2,4)] valid_name_def new_entry_def)
  with it.put_at [OF assms(1-3) dir_insertable [OF assms(5) new_entry_ok(1) [OF assms(6)]]]
  show ?thesis by simp
qed

lemma create_entry_exists:
  assumes "inode_tree D dev st root its" "deep fuel" "dir_wf its p" "valid_name n" "dir_map its p n \<noteq> None"
  shows "directory_create_entry fuel D dev root p n child ctype g st = (Err AlreadyExists, st)"
  using assms(4,5) by (auto simp: directory_create_entry_def lookup_entry_at [OF assms(1-3)] valid_name_def)

lemma unlink_entry_at:
  assumes "inode_tree D dev st root its" "deep fuel" "room (Suc k) st" "dir_wf its p"
    and "dir_map its p n \<noteq> None"
  shows "\<exists>st' root'. directory_unlink_entry fuel D dev root p n g st = (Ok root', st') \<and>
    inode_tree D dev st' root' (del_items (make_directory_entry_key p n) its) \<and> cow_step st st' \<and> room k st'"
proof -
  have "directory_unlink_entry fuel D dev root p n g st
      = delete_from_tree fuel D dev root (make_directory_entry_key p n) g st"
    using assms(5) by (auto simp: directory_unlink_entry_def lookup_entry_at [OF assms(1,2,4)])
  moreover have "kv_map its (make_directory_entry_key p n) \<noteq> None" "make_directory_entry_key p n \<noteq> ROOT_KEY"
    using assms(5) by (auto simp: dir_map_def make_directory_entry_key_def ROOT_KEY_def ITEM_TYPE_INODE_def
        ITEM_TYPE_DIRECTORY_ENTRY_def split: option.splits)
  ultimately show ?thesis
    using it.del_at [OF assms(1-3)] by simp
qed

lemma unlink_entry_missing:
  assumes "inode_tree D dev st root its" "deep fuel" "dir_wf its p" "dir_map its p n = None"
  shows "directory_unlink_entry fuel D dev root p n g st = (Err NotFound, st)"
  using assms(4) by (simp add: directory_unlink_entry_def lookup_entry_at [OF assms(1-3)])

lemma collect_entries_at:
  "\<forall>i\<in>set xs. \<exists>e. dir_item p i e \<Longrightarrow> \<exists>es. collect_entries xs = Ok es \<and> list_all2 (dir_item p) xs es"
proof (induction xs)
  case (Cons i xs)
  then obtain e es where "dir_item p i e" "collect_entries xs = Ok es" "list_all2 (dir_item p) xs es" by auto
  moreover have "deserialise_dir_entry_from_bytes (item_value i) = Ok e"
    using \<open>dir_item p i e\<close> by (auto simp: dir_item_def dir_entry_codec)
  ultimately show ?case by auto
qed simp

lemma kv_map_item:
  assumes "sorted_items its"
  shows "kv_map its k = Some v \<longleftrightarrow> \<lparr>item_key = k, item_value = v\<rparr> \<in> set its"
proof -
  have "i = \<lparr>item_key = k, item_value = v\<rparr> \<longleftrightarrow> item_key i = k \<and> item_value i = v" for i :: bafs_leaf_item
    by (cases i) simp
  then show ?thesis unfolding kv_map_Some [OF assms] by metis
qed

lemma scan_directory_at:
  assumes "inode_tree D dev st root its" "deep fuel" "dir_wf its p"
  shows "\<exists>xs es. scan_directory fuel D dev (dirty_cache st) root p = Ok xs \<and> collect_entries xs = Ok es \<and>
    list_all2 (dir_item p) xs es \<and> distinct (map filename es) \<and>
    (\<forall>e. e \<in> set es \<longleftrightarrow> dir_map its p (filename e) = Some e)"
proof -
  let ?xs = "filter (\<lambda>i. keys_of p ITEM_TYPE_DIRECTORY_ENTRY (item_key i)) its"
  note s = it.at_sorted [OF assms(1)]
  have sc: "scan_directory fuel D dev (dirty_cache st) root p = Ok ?xs"
    using it.scan_at [OF assms(1,2), of "BafsKey p ITEM_TYPE_DIRECTORY_ENTRY 0" "BafsKey p ITEM_TYPE_DIRECTORY_ENTRY (- 1)"]
    by (simp add: scan_directory_def)
  have "\<forall>i\<in>set ?xs. \<exists>e. dir_item p i e" using assms(3) by (simp add: dir_wf_def)
  then obtain es where es: "collect_entries ?xs = Ok es" "list_all2 (dir_item p) ?xs es"
    using collect_entries_at by blast
  have keys: "map item_key ?xs = map (make_directory_entry_key p \<circ> filename) es"
    using es(2) by (induction rule: list_all2_induct) (auto simp: dir_item_def)
  have "sorted_items ?xs" by (rule sorted_items_filter [OF s])
  then have "distinct (map item_key ?xs)"
    by (simp add: sorted_items_def strict_sorted_iff)
  then have "distinct (map filename es)"
    unfolding keys by (simp add: distinct_map comp_inj_on_iff [symmetric] inj_on_def)
  moreover have "e \<in> set es \<longleftrightarrow> dir_map its p (filename e) = Some e" for e
  proof -
    have "e \<in> set es \<longleftrightarrow> (\<exists>i\<in>set ?xs. dir_item p i e)"
      using es(2) by (induction rule: list_all2_induct) (auto simp: dir_item_def dest: dir_entry_inj)
    also have "\<dots> \<longleftrightarrow> entry_ok e \<and> kv_map its (make_directory_entry_key p (filename e)) = Some (serialise_dir_entry_to_bytes e)"
      by (auto simp: dir_item_def kv_map_item [OF s])
    finally show ?thesis by (simp add: dir_map_Some [OF s assms(3)])
  qed
  ultimately show ?thesis using sc es by blast
qed

section \<open>The directory interface\<close>

text \<open>What a client of a directory relies on. A name that hashes like a new name is dropped when the
  new name is created.\<close>

locale directory =
  fixes holds :: "'s \<Rightarrow> 'r \<Rightarrow> (bytes \<Rightarrow> bafs_dir_entry option) \<Rightarrow> bool"
    and budget :: "nat \<Rightarrow> 's \<Rightarrow> bool"
    and ready :: bool
    and hash :: "bytes \<Rightarrow> u64"
    and find :: "'s \<Rightarrow> 'r \<Rightarrow> bytes \<Rightarrow> bafs_dir_entry option result"
    and create :: "'r \<Rightarrow> bytes \<Rightarrow> u64 \<Rightarrow> u8 \<Rightarrow> ('s, 'r) sop"
    and unlink :: "'r \<Rightarrow> bytes \<Rightarrow> ('s, 'r) sop"
  assumes find_holds: "holds st r m \<Longrightarrow> ready \<Longrightarrow> find st r n = Ok (m n)"
    and create_holds: "holds st r m \<Longrightarrow> ready \<Longrightarrow> budget (Suc k) st \<Longrightarrow> valid_name n \<Longrightarrow> m n = None \<Longrightarrow>
      \<exists>st' r'. create r n c t st = (Ok r', st') \<and> budget k st' \<and>
        holds st' r' (\<lambda>n'. if n' = n then Some (new_entry c t n) else if hash n' = hash n then None else m n')"
    and create_taken: "holds st r m \<Longrightarrow> ready \<Longrightarrow> valid_name n \<Longrightarrow> m n \<noteq> None \<Longrightarrow>
      create r n c t st = (Err AlreadyExists, st)"
    and unlink_holds: "holds st r m \<Longrightarrow> ready \<Longrightarrow> budget (Suc k) st \<Longrightarrow> m n \<noteq> None \<Longrightarrow>
      \<exists>st' r'. unlink r n st = (Ok r', st') \<and> budget k st' \<and> holds st' r' (m(n := None))"
    and unlink_missing: "holds st r m \<Longrightarrow> ready \<Longrightarrow> m n = None \<Longrightarrow> unlink r n st = (Err NotFound, st)"
begin

lemma create_update:
  assumes "holds st r m" "ready" "budget (Suc k) st" "valid_name n" "\<forall>n'\<in>dom m. hash n' \<noteq> hash n"
  shows "\<exists>st' r'. create r n c t st = (Ok r', st') \<and> budget k st' \<and> holds st' r' (m(n \<mapsto> new_entry c t n))"
proof -
  have "m n = None" and "m n' = None" if "hash n' = hash n" for n'
    using assms(5) that by auto
  then have "(\<lambda>n'. if n' = n then Some (new_entry c t n) else if hash n' = hash n then None else m n')
      = m(n \<mapsto> new_entry c t n)" "m n = None"
    by auto
  with create_holds [OF assms(1-4), of c t] show ?thesis by simp
qed

lemma create_then_unlink:
  assumes "holds st r m" "ready" "budget (Suc (Suc k)) st" "valid_name n" "\<forall>n'\<in>dom m. hash n' \<noteq> hash n"
  shows "\<exists>st' r' st'' r''. create r n c t st = (Ok r', st') \<and> unlink r' n st' = (Ok r'', st'') \<and>
    budget k st'' \<and> holds st'' r'' m"
proof -
  have "ready" using assms(2) by simp
  from create_update [OF assms(1) this assms(3-5)]
  obtain st' r' where c: "create r n c t st = (Ok r', st')" "budget (Suc k) st'"
      "holds st' r' (m(n \<mapsto> new_entry c t n))"
    by blast
  have "m n = None" using assms(5) by auto
  then have "(m(n \<mapsto> new_entry c t n))(n := None) = m" by auto
  with c show ?thesis
    using unlink_holds [OF c(3) assms(2) c(2), of n] by auto
qed

end

definition dir_holds :: "'d block_device \<Rightarrow> 'd \<Rightarrow> u64 \<Rightarrow> cow_state \<Rightarrow> u64 \<Rightarrow> (bytes \<Rightarrow> bafs_dir_entry option) \<Rightarrow> bool" where
  "dir_holds D dev p st root m \<longleftrightarrow>
     (\<exists>its. inode_tree D dev st root its \<and> dir_wf its p \<and> dir_map its p = m) \<and> 1 \<le> p"

interpretation de: directory "dir_holds D dev p" room "deep fuel" xxhash64_with_seed_zero
    "\<lambda>st r n. directory_lookup_entry fuel D dev (dirty_cache st) r p n"
    "\<lambda>r n c t. directory_create_entry fuel D dev r p n c t g"
    "\<lambda>r n. directory_unlink_entry fuel D dev r p n g"
  for D dev p fuel g
proof unfold_locales
  fix st r m k n and c :: u64 and t :: u8
  assume "dir_holds D dev p st r m" and a: "deep fuel" "room (Suc k) st" "valid_name n" "m n = None"
  then obtain its where i: "inode_tree D dev st r its" "dir_wf its p" "dir_map its p = m" "1 \<le> p"
    by (auto simp: dir_holds_def)
  have "dir_map its p n = None" using i(3) a(4) by simp
  from create_entry_at [OF i(1) a(1,2) i(2,4) a(3) this, of c t g]
    dir_upd [OF it.at_sorted [OF i(1)] i(2) new_entry_ok(1) [OF a(3)] new_entry_ok(2), of c t] i(3,4)
  show "\<exists>st' r'. directory_create_entry fuel D dev r p n c t g st = (Ok r', st') \<and> room k st' \<and>
      dir_holds D dev p st' r' (\<lambda>n'. if n' = n then Some (new_entry c t n)
        else if xxhash64_with_seed_zero n' = xxhash64_with_seed_zero n then None else m n')"
    unfolding dir_holds_def by blast
next
  fix st r m k n
  assume "dir_holds D dev p st r m" and a: "deep fuel" "room (Suc k) st" "m n \<noteq> None"
  then obtain its where i: "inode_tree D dev st r its" "dir_wf its p" "dir_map its p = m" "1 \<le> p"
    by (auto simp: dir_holds_def)
  have "dir_map its p n \<noteq> None" using i(3) a(3) by simp
  from unlink_entry_at [OF i(1) a(1,2) i(2) this, of g] dir_del [OF it.at_sorted [OF i(1)] i(2) this] i(3,4)
  show "\<exists>st' r'. directory_unlink_entry fuel D dev r p n g st = (Ok r', st') \<and> room k st' \<and>
      dir_holds D dev p st' r' (m(n := None))"
    unfolding dir_holds_def by blast
qed (auto simp: dir_holds_def intro: lookup_entry_at create_entry_exists unlink_entry_missing)

text \<open>C33: a directory implements a map from names to entries, up to hash collisions. Creating a
  name that is not there makes the new entry visible under it, leaves every name with another hash
  as it was, and removes the other names with the same hash; creating a name that is there reports \<open>AlreadyExists\<close>, and a name that is empty or longer than
  255 bytes \<open>InvalidArgument\<close>, both without a change.\<close>

theorem directory_create_refines_update:
  assumes "dir_holds D dev p st root m" "deep fuel" "room 1 st"
  shows "(valid_name n \<and> m n = None \<longrightarrow>
      (\<exists>st' root'. directory_create_entry fuel D dev root p n c t g st = (Ok root', st') \<and>
        directory_lookup_entry fuel D dev (dirty_cache st') root' p n = Ok (Some (new_entry c t n)) \<and>
        (\<forall>n'. n' \<noteq> n \<longrightarrow> directory_lookup_entry fuel D dev (dirty_cache st') root' p n'
           = Ok (if xxhash64_with_seed_zero n' = xxhash64_with_seed_zero n then None else m n')))) \<and>
    (valid_name n \<and> m n \<noteq> None \<longrightarrow> directory_create_entry fuel D dev root p n c t g st = (Err AlreadyExists, st)) \<and>
    (n = [] \<or> 255 < length n \<longrightarrow> directory_create_entry fuel D dev root p n c t g st = (Err InvalidArgument, st))"
proof -
  have h: "deep fuel" and r: "room (Suc 0) st" using assms(2,3) by simp_all
  have "\<exists>st' root'. directory_create_entry fuel D dev root p n c t g st = (Ok root', st') \<and>
        directory_lookup_entry fuel D dev (dirty_cache st') root' p n = Ok (Some (new_entry c t n)) \<and>
        (\<forall>n'. n' \<noteq> n \<longrightarrow> directory_lookup_entry fuel D dev (dirty_cache st') root' p n'
           = Ok (if xxhash64_with_seed_zero n' = xxhash64_with_seed_zero n then None else m n'))"
    if "valid_name n" "m n = None"
    using de.create_holds [OF assms(1) h r that, of c t g] de.find_holds [OF _ assms(2)] by fastforce
  moreover have "directory_create_entry fuel D dev root p n c t g st = (Err AlreadyExists, st)"
    if "valid_name n" "m n \<noteq> None"
    by (rule de.create_taken [OF assms(1) h that])
  moreover have "directory_create_entry fuel D dev root p n c t g st = (Err InvalidArgument, st)"
    if "n = [] \<or> 255 < length n"
    using that by (auto simp: directory_create_entry_def)
  ultimately show ?thesis by blast
qed

text \<open>C34: creating an entry whose name hashes like another entry of the directory overwrites that
  entry: the other name is gone afterwards.\<close>

theorem directory_collision_overwrites:
  assumes "dir_holds D dev p st root m" "deep fuel" "room 1 st"
    and "valid_name n" "m n = None" "m n' \<noteq> None" "xxhash64_with_seed_zero n' = xxhash64_with_seed_zero n"
  shows "\<exists>st' root'. directory_create_entry fuel D dev root p n c t g st = (Ok root', st') \<and>
    directory_lookup_entry fuel D dev (dirty_cache st) root p n' = Ok (m n') \<and>
    directory_lookup_entry fuel D dev (dirty_cache st') root' p n' = Ok None"
proof -
  have h: "deep fuel" and r: "room (Suc 0) st" and ne: "n' \<noteq> n" using assms by auto
  show ?thesis
    using de.create_holds [OF assms(1) h r assms(4,5), of c t g] de.find_holds [OF _ assms(2)]
      de.find_holds [OF assms(1) h] ne assms(7) by fastforce
qed

text \<open>C35: unlinking a name removes exactly that name, unlinking a name that is not there reports
  \<open>NotFound\<close> without a change, and unlinking a name just created (when no name of the directory
  hashes like it) gives back the directory as it was.\<close>

theorem directory_unlink_refines_removal:
  assumes "dir_holds D dev p st root m" "deep fuel" "room 2 st"
  shows "(m n \<noteq> None \<longrightarrow>
      (\<exists>st' root'. directory_unlink_entry fuel D dev root p n g st = (Ok root', st') \<and>
        dir_holds D dev p st' root' (m(n := None)))) \<and>
    (m n = None \<longrightarrow> directory_unlink_entry fuel D dev root p n g st = (Err NotFound, st)) \<and>
    (valid_name n \<and> (\<forall>n'\<in>dom m. xxhash64_with_seed_zero n' \<noteq> xxhash64_with_seed_zero n) \<longrightarrow>
      (\<exists>st' root' st'' root''. directory_create_entry fuel D dev root p n c t g st = (Ok root', st') \<and>
        directory_unlink_entry fuel D dev root' p n g st' = (Ok root'', st'') \<and>
        dir_holds D dev p st'' root'' m))"
proof -
  have h: "deep fuel" and r: "room (Suc 0) st" "room (Suc (Suc 0)) st"
    using assms(2,3) by (simp_all add: room_def)
  show ?thesis
    using de.unlink_holds [OF assms(1) h r(1), of n g] de.unlink_missing [OF assms(1) h, of n g]
      de.create_then_unlink [OF assms(1,2) r(2), of n c t g] by blast
qed

text \<open>C36: listing a directory returns every entry exactly once, in no order but that of the hashes,
  and \<open>directory_iterate\<close> at index \<open>i\<close> returns the \<open>i\<close>-th entry of that list, then \<open>None\<close>.\<close>

theorem directory_listing_complete:
  assumes "dir_holds D dev p st root m" "deep fuel"
  shows "\<exists>es. directory_list_all_entries fuel D dev (dirty_cache st) root p = Ok es \<and>
    distinct (map filename es) \<and> (\<forall>e. e \<in> set es \<longleftrightarrow> m (filename e) = Some e) \<and>
    (\<forall>i. directory_iterate fuel D dev (dirty_cache st) root p i = Ok (if i < length es then Some (es ! i) else None))"
proof -
  obtain its where i: "inode_tree D dev st root its" "dir_wf its p" "dir_map its p = m"
    using assms(1) by (auto simp: dir_holds_def)
  obtain xs es where sc: "scan_directory fuel D dev (dirty_cache st) root p = Ok xs" "collect_entries xs = Ok es"
      "list_all2 (dir_item p) xs es" "distinct (map filename es)"
      "\<forall>e. e \<in> set es \<longleftrightarrow> dir_map its p (filename e) = Some e"
    using scan_directory_at [OF i(1) assms(2) i(2)] by blast
  have "deserialise_dir_entry_from_bytes (item_value (xs ! j)) = Ok (es ! j)" if "j < length es" for j
    using list_all2_nthD2 [OF sc(3) that] by (auto simp: dir_item_def dir_entry_codec)
  moreover have "length xs = length es" by (rule list_all2_lengthD [OF sc(3)])
  ultimately show ?thesis
    using sc i(3) by (intro exI [of _ es]) (auto simp: directory_list_all_entries_def directory_iterate_def)
qed

section \<open>A concrete directory\<close>

lemma sample_dir: "dir_holds memory_device sample_dev 1 sample_inode_cow sample_inode_root Map.empty"
proof -
  let ?its = "[\<lparr>item_key = ROOT_KEY, item_value = serialise_inode_to_bytes (new_directory 1 1 0)\<rparr>]"
  have "dir_wf ?its 1" "dir_map ?its 1 = Map.empty"
    by (auto simp: dir_wf_def dir_map_def kv_map_def keys_of_def ROOT_KEY_def make_directory_entry_key_def
        ITEM_TYPE_INODE_def ITEM_TYPE_DIRECTORY_ENTRY_def fun_eq_iff)
  then show ?thesis
    using sample_inode_tree(1) unfolding dir_holds_def by fastforce
qed

text \<open>The file names \<open>WCYBvSceMT6xhGjm\<close> and \<open>siuAtd9CuLOizypl\<close>, which have the same xxHash-64.\<close>

definition sample_name_1 :: bytes where
  "sample_name_1 = [87, 67, 89, 66, 118, 83, 99, 101, 77, 84, 54, 120, 104, 71, 106, 109]"

definition sample_name_2 :: bytes where
  "sample_name_2 = [115, 105, 117, 65, 116, 100, 57, 67, 117, 76, 79, 105, 122, 121, 112, 108]"

lemma sample_names:
  "valid_name sample_name_1" "valid_name sample_name_2" "sample_name_1 \<noteq> sample_name_2"
  "xxhash64_with_seed_zero sample_name_1 = xxhash64_with_seed_zero sample_name_2"
  by code_simp+

lemma sample_limits: "deep 13" "room 1 sample_inode_cow" "room 2 sample_inode_cow"
  "deep 13" "room (Suc 4) sample_inode_cow"
  using sample_inode_tree(2) by (simp_all add: room_def deep_def)

theorem directory_create_refines_update_witness:
  "\<exists>st' root'. directory_create_entry 13 memory_device sample_dev sample_inode_root 1 sample_name_1 7 8 1 sample_inode_cow
      = (Ok root', st') \<and>
    directory_lookup_entry 13 memory_device sample_dev (dirty_cache st') root' 1 sample_name_1
      = Ok (Some (new_entry 7 8 sample_name_1))"
  using directory_create_refines_update [OF sample_dir sample_limits(1,2), of sample_name_1 7 8 1] sample_names(1)
  by auto

lemma sample_dir_one:
  "\<exists>st root. dir_holds memory_device sample_dev 1 st root [sample_name_1 \<mapsto> new_entry 7 8 sample_name_1] \<and> room 4 st"
  using de.create_update [OF sample_dir sample_limits(4,5) sample_names(1), of 7 8 1]
  by (auto simp: numeral_2_eq_2)

theorem directory_collision_overwrites_witness:
  "\<exists>st root st' root'.
    directory_lookup_entry 13 memory_device sample_dev (dirty_cache st) root 1 sample_name_1
      = Ok (Some (new_entry 7 8 sample_name_1)) \<and>
    directory_create_entry 13 memory_device sample_dev root 1 sample_name_2 9 8 1 st = (Ok root', st') \<and>
    directory_lookup_entry 13 memory_device sample_dev (dirty_cache st') root' 1 sample_name_1 = Ok None"
proof -
  obtain st root where d: "dir_holds memory_device sample_dev 1 st root [sample_name_1 \<mapsto> new_entry 7 8 sample_name_1]"
      "room 4 st"
    using sample_dir_one by blast
  have "deep 13" "room 1 st" "[sample_name_1 \<mapsto> new_entry 7 8 sample_name_1] sample_name_2 = None"
      "[sample_name_1 \<mapsto> new_entry 7 8 sample_name_1] sample_name_1 \<noteq> None"
    using d(2) sample_names(3) by (simp_all add: room_def deep_def)
  from directory_collision_overwrites [OF d(1) this(1,2) sample_names(2) this(3,4) sample_names(4), of 9 8 1]
  show ?thesis by auto
qed

theorem directory_unlink_refines_removal_witness:
  "(\<exists>st' root' st'' root''. directory_create_entry 13 memory_device sample_dev sample_inode_root 1 sample_name_1 7 8 1
      sample_inode_cow = (Ok root', st') \<and>
    directory_unlink_entry 13 memory_device sample_dev root' 1 sample_name_1 1 st' = (Ok root'', st'') \<and>
    dir_holds memory_device sample_dev 1 st'' root'' Map.empty) \<and>
   directory_unlink_entry 13 memory_device sample_dev sample_inode_root 1 sample_name_1 1 sample_inode_cow
     = (Err NotFound, sample_inode_cow)"
  using directory_unlink_refines_removal [OF sample_dir sample_limits(1,3), of sample_name_1 1 7 8] sample_names(1)
  by (auto simp: numeral_2_eq_2)

theorem directory_listing_complete_witness:
  "\<exists>st root. dir_holds memory_device sample_dev 1 st root [sample_name_1 \<mapsto> new_entry 7 8 sample_name_1] \<and>
    directory_list_all_entries 13 memory_device sample_dev (dirty_cache st) root 1 = Ok [new_entry 7 8 sample_name_1]"
proof -
  let ?e = "new_entry 7 8 sample_name_1"
  obtain st root where d: "dir_holds memory_device sample_dev 1 st root [sample_name_1 \<mapsto> ?e]"
    using sample_dir_one by blast
  have "deep 13" by (simp add: deep_def)
  from directory_listing_complete [OF d this]
  obtain es where es: "directory_list_all_entries 13 memory_device sample_dev (dirty_cache st) root 1 = Ok es"
      "distinct (map filename es)" "\<forall>e. e \<in> set es \<longleftrightarrow> [sample_name_1 \<mapsto> ?e] (filename e) = Some e" by blast
  have "set es = {?e}" using es(3) by (auto split: if_splits)
  then have "es = [?e]"
    using es(2) by (cases es rule: remdups_adj.cases) auto
  with es(1) d show ?thesis by blast
qed

end
