(* ===== verification/Journal.thy ===== *)
theory Journal
  imports Btree_Map
begin

text \<open>
  \<open>journal.rs\<close>: the commit record, the commit of a transaction and the recovery on mount.

  The lemmas show that a complete record is parsed back to the transaction it was made from, and that
  a commit performs a prefix of a fixed sequence of block writes: the record, the dirty blocks, the
  backup superblock, the primary superblock. What survives a crash is the subject of
  \<open>Journal_Recovery\<close>.
\<close>

section \<open>The operations\<close>

text \<open>The ASCII string \<open>BAFSJRNL\<close>.\<close>

definition JOURNAL_COMMIT_RECORD_MAGIC :: bytes where
  "JOURNAL_COMMIT_RECORD_MAGIC = [0x42, 0x41, 0x46, 0x53, 0x4A, 0x52, 0x4E, 0x4C]"

definition JOURNAL_COMMIT_RECORD_HEADER_SIZE_BYTES :: nat where
  "JOURNAL_COMMIT_RECORD_HEADER_SIZE_BYTES = 24"

record bafs_transaction =
  transaction_id :: u64

definition begin_transaction :: "u64 \<Rightarrow> bafs_transaction" where
  "begin_transaction next_transaction_id = \<lparr>transaction_id = next_transaction_id\<rparr>"

text \<open>Step (a): the record in memory. A block that is not 4096 bytes long, or more than \<open>2 ^ 32\<close> blocks,
  run into a failed slice copy. The body is computed with a 24-byte header of which the fields fill
  only 20 bytes, so that four zero bytes stay at its end.\<close>

definition build_commit_record :: "u64 \<Rightarrow> dirty_cache \<Rightarrow> bytes result" where
  "build_commit_record txid cache =
     (let dirty_block_count = (of_nat (length cache) :: u32);
          n = unat dirty_block_count;
          record_body_size = JOURNAL_COMMIT_RECORD_HEADER_SIZE_BYTES + 8 * n + block_size * n
      in if n \<noteq> length cache \<or> (\<exists>e\<in>set cache. length (snd e) \<noteq> block_size) then Panic
      else
        let filled = JOURNAL_COMMIT_RECORD_MAGIC @ to_le txid @ to_le dirty_block_count
              @ concat (map (\<lambda>e. to_le (fst e)) cache) @ concat (map snd cache);
            body = filled @ replicate (record_body_size - length filled) 0
        in Ok (body @ to_le (compute_crc32c body)))"

function write_journal_chunks :: "'d block_device \<Rightarrow> u64 \<Rightarrow> bytes \<Rightarrow> ('d, unit) sop" where
  "write_journal_chunks D current_block data =
     (if data = [] then retS ()
      else
        let chunk_size = min (length data) block_size;
            block_buffer = write_slice (replicate block_size 0) 0 (take chunk_size data)
        in bindS (write_device_block D current_block block_buffer) (\<lambda>_.
           bindS (liftS (add_u current_block 1)) (\<lambda>next_block.
           write_journal_chunks D next_block (drop chunk_size data))))"
  by pat_completeness auto
termination by (relation "measure (\<lambda>(D, b, data). length data)") (auto simp: min_def)

declare write_journal_chunks.simps [simp del]

definition write_bytes_to_journal :: "'d block_device \<Rightarrow> bafs_superblock \<Rightarrow> bytes \<Rightarrow> ('d, unit) sop" where
  "write_bytes_to_journal D sb data =
     bindS (liftS (mul_u (journal_size_in_blocks sb) (of_nat block_size))) (\<lambda>journal_capacity_bytes.
     if unat journal_capacity_bytes < length data then failS OutOfSpace
     else write_journal_chunks D (journal_start_block sb) data)"

text \<open>Writing a list of blocks to their final locations.\<close>

primrec write_blocks :: "'d block_device \<Rightarrow> (u64 \<times> bytes) list \<Rightarrow> ('d, unit) sop" where
  "write_blocks D [] = retS ()"
| "write_blocks D (b # bs) = bindS (write_device_block D (fst b) (snd b)) (\<lambda>_. write_blocks D bs)"

definition set_last_committed :: "u64 \<Rightarrow> 'd \<times> bafs_superblock \<Rightarrow> 'd \<times> bafs_superblock" where
  "set_last_committed txid = (\<lambda>(dev, sb). (dev, sb\<lparr>last_committed_transaction_id := txid\<rparr>))"

definition commit_transaction ::
  "'d block_device \<Rightarrow> bafs_transaction \<Rightarrow> dirty_cache \<Rightarrow> ('d \<times> bafs_superblock, unit) sop" where
  "commit_transaction D txn cache =
     (if cache = [] then
        bindS (modifyS (set_last_committed (transaction_id txn))) (\<lambda>_. write_superblock_to_device D)
      else
        bindS (liftS (build_commit_record (transaction_id txn) cache)) (\<lambda>record_buffer.
        bindS (getS snd) (\<lambda>sb.
        bindS (on_device (write_bytes_to_journal D sb record_buffer)) (\<lambda>_.
        bindS (on_device (write_blocks D cache)) (\<lambda>_.
        bindS (modifyS (set_last_committed (transaction_id txn))) (\<lambda>_.
        write_superblock_to_device D))))))"

text \<open>What recovery reads from the journal area: nothing when there is no magic number, the record is
  not newer than the superblock, truncated or fails its checksum.\<close>

definition parse_commit_record :: "bytes \<Rightarrow> u64 \<Rightarrow> (u64 \<times> (u64 \<times> bytes) list) option" where
  "parse_commit_record journal_buffer last_id =
     (if length journal_buffer < JOURNAL_COMMIT_RECORD_HEADER_SIZE_BYTES then None
      else if slice 0 8 journal_buffer \<noteq> JOURNAL_COMMIT_RECORD_MAGIC then None
      else
        let journal_transaction_id = from_le (slice 8 16 journal_buffer) in
        if journal_transaction_id \<le> last_id then None
        else
          let n = unat (from_le (slice 16 20 journal_buffer) :: u32);
              record_body_size = JOURNAL_COMMIT_RECORD_HEADER_SIZE_BYTES + 8 * n + block_size * n
          in if length journal_buffer < record_body_size + 4 then None
          else if from_le (slice record_body_size (record_body_size + 4) journal_buffer)
              \<noteq> compute_crc32c (take record_body_size journal_buffer) then None
          else Some (journal_transaction_id, map (\<lambda>i.
              (from_le (slice (20 + 8 * i) (28 + 8 * i) journal_buffer),
               slice (20 + 8 * n + block_size * i) (20 + 8 * n + block_size * i + block_size) journal_buffer)) [0..<n]))"

definition read_journal_area :: "'d block_device \<Rightarrow> 'd \<Rightarrow> bafs_superblock \<Rightarrow> bytes result" where
  "read_journal_area D dev sb =
     bindR (mul_u (journal_size_in_blocks sb) (of_nat block_size)) (\<lambda>journal_capacity_bytes.
     bindR (mul_u (journal_start_block sb) (ucast BAFS_SECTORS_PER_BLOCK)) (\<lambda>start_lba.
     bindR (mul_u (journal_size_in_blocks sb) (ucast BAFS_SECTORS_PER_BLOCK)) (\<lambda>sector_count.
     device_read D dev start_lba (ucast sector_count) (replicate (unat journal_capacity_bytes) 0))))"

definition recover_journal_on_mount :: "'d block_device \<Rightarrow> ('d \<times> bafs_superblock, bool) sop" where
  "recover_journal_on_mount D =
     bindS (\<lambda>(dev, sb). (read_journal_area D dev sb, (dev, sb))) (\<lambda>journal_buffer.
     bindS (getS snd) (\<lambda>sb.
     case parse_commit_record journal_buffer (last_committed_transaction_id sb) of
       None \<Rightarrow> retS False
     | Some (journal_transaction_id, blocks) \<Rightarrow>
         bindS (on_device (write_blocks D blocks)) (\<lambda>_.
         bindS (modifyS (set_last_committed journal_transaction_id)) (\<lambda>_.
         bindS (write_superblock_to_device D) (\<lambda>_.
         retS True)))))"

section \<open>The commit record\<close>

lemma build_commit_record_Ok:
  assumes "length cache < 2 ^ 32" "\<forall>e\<in>set cache. length (snd e) = 4096"
  shows "build_commit_record txid cache =
    Ok (let body = JOURNAL_COMMIT_RECORD_MAGIC @ to_le txid @ to_le (of_nat (length cache) :: u32)
              @ concat (map (\<lambda>e. to_le (fst e)) cache) @ concat (map snd cache) @ replicate 4 0
        in body @ to_le (compute_crc32c body))"
proof -
  have n: "unat (of_nat (length cache) :: u32) = length cache"
    using assms(1) by (simp add: unat_of_nat)
  have "length (concat (map (\<lambda>e. to_le (fst e)) cache)) = 8 * length cache"
    by (induction cache) auto
  moreover have "length (concat (map snd cache)) = 4096 * length cache"
    using assms(2) by (induction cache) auto
  ultimately show ?thesis
    using n assms(2) unfolding build_commit_record_def Let_def
    by (simp add: JOURNAL_COMMIT_RECORD_HEADER_SIZE_BYTES_def JOURNAL_COMMIT_RECORD_MAGIC_def)
qed

text \<open>Fields of a buffer by position.\<close>

lemma slice_append_shift: "slice (length xs + a) (length xs + b) (xs @ ys) = slice a b ys"
  by (simp add: slice_def)

lemma slice_concat:
  assumes "i < length bs" "\<forall>b\<in>set bs. length b = w"
  shows "slice (w * i) (w * i + w) (concat bs @ rest) = bs ! i"
  using assms
proof (induction bs arbitrary: i)
  case (Cons b bs)
  show ?case
  proof (cases i)
    case 0
    then show ?thesis using Cons.prems by (simp add: slice_def)
  next
    case (Suc j)
    have "slice (w * i) (w * i + w) (b @ concat bs @ rest) = slice (w * j) (w * j + w) (concat bs @ rest)"
      using slice_append_shift [of b "w * j" "w * j + w" "concat bs @ rest"] Cons.prems(2) Suc by (simp add: add.assoc)
    then show ?thesis using Cons Suc by simp
  qed
qed simp

definition record_prefix :: "u64 \<Rightarrow> dirty_cache \<Rightarrow> bytes" where
  "record_prefix txid cache = JOURNAL_COMMIT_RECORD_MAGIC @ to_le txid @ to_le (of_nat (length cache) :: u32)
     @ concat (map (\<lambda>e. to_le (fst e)) cache)"

lemma length_record_prefix: "length (record_prefix txid cache) = 20 + 8 * length cache"
  unfolding record_prefix_def by (induction cache) (auto simp: JOURNAL_COMMIT_RECORD_MAGIC_def)

lemma record_prefix_fields:
  assumes "length cache < 2 ^ 32"
  shows "slice 0 8 (record_prefix txid cache @ r) = JOURNAL_COMMIT_RECORD_MAGIC"
    and "from_le (slice 8 16 (record_prefix txid cache @ r)) = txid"
    and "unat (from_le (slice 16 20 (record_prefix txid cache @ r)) :: u32) = length cache"
    and "i < length cache \<Longrightarrow> from_le (slice (20 + 8 * i) (28 + 8 * i) (record_prefix txid cache @ r)) = fst (cache ! i)"
proof -
  let ?a = "concat (map (\<lambda>e. to_le (fst e)) cache)"
  let ?h = "JOURNAL_COMMIT_RECORD_MAGIC @ to_le txid @ to_le (of_nat (length cache) :: u32)"
  have e: "record_prefix txid cache @ r = ?h @ ?a @ r" by (simp add: record_prefix_def)
  have l: "length JOURNAL_COMMIT_RECORD_MAGIC = 8" "length ?h = 20" by (simp_all add: JOURNAL_COMMIT_RECORD_MAGIC_def)
  show "slice 0 8 (record_prefix txid cache @ r) = JOURNAL_COMMIT_RECORD_MAGIC"
    "from_le (slice 8 16 (record_prefix txid cache @ r)) = txid"
    "unat (from_le (slice 16 20 (record_prefix txid cache @ r)) :: u32) = length cache"
    using assms by (simp_all add: e l(1) slice_simps unat_of_nat)
  assume i: "i < length cache"
  have "slice (8 * i) (8 * i + 8) (concat (map (\<lambda>e. to_le (fst e)) cache) @ r) = to_le (fst (cache ! i))"
    using slice_concat [of i "map (\<lambda>e. to_le (fst e)) cache" 8 r] i by simp
  then show "from_le (slice (20 + 8 * i) (28 + 8 * i) (record_prefix txid cache @ r)) = fst (cache ! i)"
    using slice_append_shift [of ?h "8 * i" "8 * i + 8" "?a @ r"] l(2) by (simp add: e add.commute add.left_commute)
qed

lemma parse_record:
  assumes "length cache < 2 ^ 32" "\<forall>e\<in>set cache. length (snd e) = 4096" "last_id < txid"
    and "build_commit_record txid cache = Ok record"
  shows "parse_commit_record (record @ rest) last_id = Some (txid, cache)"
proof -
  let ?n = "length cache"
  let ?d = "concat (map snd cache)" and ?p = "record_prefix txid cache"
  let ?body = "?p @ ?d @ replicate 4 0"
  have rec: "record = ?body @ to_le (compute_crc32c ?body)"
    using build_commit_record_Ok [OF assms(1,2), of txid] assms(4) by (simp add: Let_def record_prefix_def)
  have ld: "length ?d = 4096 * ?n" using assms(2) by (induction cache) auto
  have lb: "length ?body = 24 + 8 * ?n + 4096 * ?n" using ld by (simp add: length_record_prefix)
  let ?buf = "record @ rest"
  have buf: "?buf = ?p @ (?d @ replicate 4 0 @ to_le (compute_crc32c ?body) @ rest)" by (simp add: rec)
  note f = record_prefix_fields [OF assms(1), where txid = txid and
      r = "?d @ replicate 4 0 @ to_le (compute_crc32c ?body) @ rest", folded buf]
  have blk: "slice (20 + 8 * ?n + 4096 * i) (20 + 8 * ?n + 4096 * i + 4096) ?buf = snd (cache ! i)" if "i < ?n" for i
  proof -
    have "slice (20 + 8 * ?n + 4096 * i) (20 + 8 * ?n + 4096 * i + 4096) ?buf
        = slice (4096 * i) (4096 * i + 4096) (?d @ replicate 4 0 @ to_le (compute_crc32c ?body) @ rest)"
      using slice_append_shift [of ?p "4096 * i" "4096 * i + 4096"] unfolding buf length_record_prefix
      by (simp add: add.assoc)
    then show ?thesis
      using slice_concat [of i "map snd cache" 4096] that assms(2) by simp
  qed
  have chk: "from_le (slice (24 + 8 * ?n + 4096 * ?n) (24 + 8 * ?n + 4096 * ?n + 4) ?buf) = compute_crc32c ?body"
    using slice_append_shift [of ?body 0 4 "to_le (compute_crc32c ?body) @ rest"] lb
    by (simp add: rec) (simp add: slice_def)
  have tk: "take (24 + 8 * ?n + 4096 * ?n) ?buf = ?body"
    using lb by (simp add: rec)
  have len: "24 + 8 * ?n + 4096 * ?n + 4 \<le> length ?buf"
    using lb by (simp add: rec)
  have "parse_commit_record ?buf last_id = Some (txid, map (\<lambda>i. (fst (cache ! i), snd (cache ! i))) [0..<?n])"
    unfolding parse_commit_record_def Let_def JOURNAL_COMMIT_RECORD_HEADER_SIZE_BYTES_def block_size f(1-3) chk tk
    using len assms(3) f(4) blk by (auto simp: not_le)
  then show ?thesis by (simp add: map_nth)
qed

section \<open>Writing blocks\<close>

definition blocks_after :: "bytes \<Rightarrow> (u64 \<times> bytes) list \<Rightarrow> bytes" where
  "blocks_after img bs = foldl (\<lambda>i b. set_image_block i (fst b) (snd b)) img bs"

definition blocks_fit :: "bytes \<Rightarrow> (u64 \<times> bytes) list \<Rightarrow> bool" where
  "blocks_fit img bs \<longleftrightarrow> (\<forall>b\<in>set bs. block_in_image img (fst b) \<and> length (snd b) = 4096)"

lemma blocks_fit_simps [simp]:
  "blocks_fit img []"
  "blocks_fit img (b # bs) \<longleftrightarrow> block_in_image img (fst b) \<and> length (snd b) = 4096 \<and> blocks_fit img bs"
  by (auto simp: blocks_fit_def)

lemma blocks_fit_take: "blocks_fit img bs \<Longrightarrow> blocks_fit img (take k bs)"
  by (auto simp: blocks_fit_def dest: in_set_takeD)

lemma blocks_after_simps [simp]:
  "blocks_after img [] = img"
  "blocks_after img (b # bs) = blocks_after (set_image_block img (fst b) (snd b)) bs"
  by (simp_all add: blocks_after_def)

lemma blocks_fit_set [simp]:
  "block_in_image img a \<Longrightarrow> length d = 4096 \<Longrightarrow> blocks_fit (set_image_block img a d) bs = blocks_fit img bs"
  by (simp add: blocks_fit_def)

lemma block_in_blocks_after: "blocks_fit img bs \<Longrightarrow> block_in_image (blocks_after img bs) a = block_in_image img a"
  by (induction bs arbitrary: img) auto

lemma length_blocks_after: "blocks_fit img bs \<Longrightarrow> length (blocks_after img bs) = length img"
  by (induction bs arbitrary: img) auto

lemma image_blocks_after:
  "blocks_fit img bs \<Longrightarrow> image_block (blocks_after img bs) a =
     (case map_of (rev bs) a of Some d \<Rightarrow> d | None \<Rightarrow> image_block img a)"
proof (induction bs arbitrary: img)
  case (Cons b bs)
  then have "image_block (blocks_after img (b # bs)) a =
      (case map_of (rev bs) a of Some d \<Rightarrow> d | None \<Rightarrow> image_block (set_image_block img (fst b) (snd b)) a)"
    by simp
  also have "\<dots> = (case map_of (rev (b # bs)) a of Some d \<Rightarrow> d | None \<Rightarrow> image_block img a)"
    using Cons.prems by (cases b) (auto simp: map_add_def split: option.splits)
  finally show ?case .
qed simp

lemma image_blocks_other:
  "blocks_fit img bs \<Longrightarrow> a \<notin> fst ` set bs \<Longrightarrow> image_block (blocks_after img bs) a = image_block img a"
proof -
  assume "blocks_fit img bs" "a \<notin> fst ` set bs"
  moreover from this(2) have "map_of (rev bs) a = None" by (simp add: map_of_eq_None_iff)
  ultimately show ?thesis by (simp add: image_blocks_after)
qed

lemma blocks_after_append: "blocks_after img (xs @ ys) = blocks_after (blocks_after img xs) ys"
  by (simp add: blocks_after_def)

section \<open>The journal area\<close>

fun chunks :: "u64 \<Rightarrow> nat \<Rightarrow> bytes \<Rightarrow> (u64 \<times> bytes) list" where
  "chunks a 0 data = []"
| "chunks a (Suc n) data = (a, write_slice (replicate 4096 0) 0 (take 4096 data)) # chunks (a + 1) n (drop 4096 data)"

definition chunk_count :: "bytes \<Rightarrow> nat" where
  "chunk_count data = (length data + 4095) div 4096"

lemma write_journal_chunks_blocks:
  "unat a + n < 2 ^ 64 \<Longrightarrow> n = chunk_count data \<Longrightarrow>
   write_journal_chunks D a data d = write_blocks D (chunks a n data) d"
proof (induction n arbitrary: a data d)
  case 0
  then have "length data + 4095 < 4096" unfolding chunk_count_def by (metis div_greater_zero_iff less_numeral_extra(3) not_le zero_less_numeral)
  then have "data = []" by simp
  then show ?case by (simp add: write_journal_chunks.simps)
next
  case (Suc n)
  then have ne: "data \<noteq> []" by (auto simp: chunk_count_def)
  have m: "take (min (length data) 4096) data = take 4096 data" "drop (min (length data) 4096) data = drop 4096 data"
    by (simp_all add: min_def)
  have a: "unat (a + 1) = unat a + 1" "add_u a 1 = Ok (a + 1)"
    using Suc.prems(1) unat_plus_1 [of a] by simp_all
  have n: "n = chunk_count (drop 4096 data)"
    using Suc.prems(2) by (simp add: chunk_count_def)
  have IH: "write_journal_chunks D (a + 1) (drop 4096 data) d' = write_blocks D (chunks (a + 1) n (drop 4096 data)) d'" for d'
    using Suc.prems(1) a(1) n by (intro Suc.IH) simp_all
  show ?case
    using ne by (subst write_journal_chunks.simps) (simp add: Let_def m a(2) bindS_def IH split: prod.splits result.splits)
qed

lemma chunks_addresses:
  assumes "unat a + n < 2 ^ 64" "c \<in> set (chunks a n data)"
  shows "unat a \<le> unat (fst c) \<and> unat (fst c) < unat a + n \<and> length (snd c) = 4096"
  using assms
proof (induction n arbitrary: a data)
  case (Suc n)
  have "unat (a + 1) = unat a + 1" using Suc.prems(1) unat_plus_1 [of a] by simp
  with Suc.IH [of "a + 1" "drop 4096 data"] Suc.prems show ?case by (auto simp: min_def)
qed simp

lemma length_chunks [simp]: "length (chunks a n data) = n"
  by (induction n arbitrary: a data) auto

text \<open>The bytes of the journal area; its first block holds the header and, with at most 509 blocks, the
  whole address list of a record.\<close>

definition journal_area :: "bytes \<Rightarrow> bafs_superblock \<Rightarrow> bytes" where
  "journal_area img sb = slice (4096 * unat (journal_start_block sb))
     (4096 * unat (journal_start_block sb) + 4096 * unat (journal_size_in_blocks sb)) img"

definition header_addresses :: "bytes \<Rightarrow> u64 list" where
  "header_addresses blk = map (\<lambda>i. from_le (slice (20 + 8 * i) (28 + 8 * i) blk))
     [0..<unat (from_le (slice 16 20 blk) :: u32)]"

lemma slice_take: "b \<le> n \<Longrightarrow> slice a b (take n xs) = slice a b xs"
  by (simp add: slice_def drop_take)

lemma parse_addresses:
  assumes "parse_commit_record buf last_id = Some (txid, bs)"
    and "unat (from_le (slice 16 20 (take 4096 buf)) :: u32) \<le> 509"
  shows "map fst bs = header_addresses (take 4096 buf)"
proof -
  have bs: "bs = map (\<lambda>i. (from_le (slice (20 + 8 * i) (28 + 8 * i) buf),
      slice (20 + 8 * unat (from_le (slice 16 20 buf) :: u32) + 4096 * i)
        (20 + 8 * unat (from_le (slice 16 20 buf) :: u32) + 4096 * i + 4096) buf))
      [0..<unat (from_le (slice 16 20 buf) :: u32)]"
    using assms(1) by (auto simp: parse_commit_record_def Let_def split: if_splits)
  have n: "slice 16 20 (take 4096 buf) = slice 16 20 buf" by (simp add: slice_take)
  have "slice (20 + 8 * i) (28 + 8 * i) (take 4096 buf) = slice (20 + 8 * i) (28 + 8 * i) buf"
    if "i < unat (from_le (slice 16 20 buf) :: u32)" for i
    using that assms(2) n by (intro slice_take) simp
  then show ?thesis
    unfolding bs header_addresses_def n by (simp add: comp_def)
qed

section \<open>Protected blocks\<close>

text \<open>The journal area, the blocks after it up to the bump pointer of a superblock, and what recovery may
  write: a record in the journal that recovery would replay only names blocks at or above the bump
  pointer.\<close>

definition journal_layout :: "bytes \<Rightarrow> bafs_superblock \<Rightarrow> bool" where
  "journal_layout img sb \<longleftrightarrow> 3 \<le> unat (journal_start_block sb) \<and>
     1 \<le> unat (journal_size_in_blocks sb) \<and> unat (journal_size_in_blocks sb) \<le> 16384 \<and>
     unat (journal_start_block sb) + unat (journal_size_in_blocks sb) \<le> unat (next_cow_block_address sb) \<and>
     4096 * unat (next_cow_block_address sb) \<le> length img"

definition committed :: "bafs_superblock \<Rightarrow> u64 \<Rightarrow> bool" where
  "committed sb a \<longleftrightarrow> unat (journal_start_block sb) + unat (journal_size_in_blocks sb) \<le> unat a \<and>
     unat a < unat (next_cow_block_address sb)"

definition journal_safe :: "bytes \<Rightarrow> bafs_superblock \<Rightarrow> bool" where
  "journal_safe img sb \<longleftrightarrow> (\<forall>txid bs.
     parse_commit_record (journal_area img sb) (last_committed_transaction_id sb) = Some (txid, bs) \<longrightarrow>
     (\<forall>b\<in>set bs. block_in_image img (fst b) \<and> unat (next_cow_block_address sb) \<le> unat (fst b)))"

lemma parse_block_lengths:
  assumes "parse_commit_record buf last_id = Some (txid, bs)" "b \<in> set bs"
  shows "length (snd b) = 4096"
proof -
  let ?n = "unat (from_le (slice 16 20 buf) :: u32)"
  have "\<not> length buf < 24 + 8 * ?n + 4096 * ?n + 4"
    and bs: "bs = map (\<lambda>i. (from_le (slice (20 + 8 * i) (28 + 8 * i) buf),
      slice (20 + 8 * ?n + 4096 * i) (20 + 8 * ?n + 4096 * i + 4096) buf)) [0..<?n]"
    using assms(1)
    by (auto simp: parse_commit_record_def JOURNAL_COMMIT_RECORD_HEADER_SIZE_BYTES_def Let_def split: if_splits)
  moreover obtain i where "i < ?n" "snd b = slice (20 + 8 * ?n + 4096 * i) (20 + 8 * ?n + 4096 * i + 4096) buf"
    using assms(2) unfolding bs by auto
  ultimately show ?thesis by (simp add: slice_def)
qed

lemma journal_safe_fit:
  assumes "journal_safe img sb"
    and "parse_commit_record (journal_area img sb) (last_committed_transaction_id sb) = Some (txid, bs)"
  shows "blocks_fit img bs" "\<forall>b\<in>set bs. unat (next_cow_block_address sb) \<le> unat (fst b)"
  using assms parse_block_lengths [OF assms(2)] by (auto simp: journal_safe_def blocks_fit_def)

lemma journal_layout_blocks:
  assumes "journal_layout img sb"
  shows "block_in_image img 1" "block_in_image img 2"
    and "unat a < unat (journal_start_block sb) + unat (journal_size_in_blocks sb) \<Longrightarrow> block_in_image img a"
  using assms by (auto simp: journal_layout_def block_in_image_def)

lemma slice_blocks:
  "slice (4096 * s) (4096 * s + 4096 * n) xs = concat (map (\<lambda>i. slice (4096 * (s + i)) (4096 * (s + i) + 4096) xs) [0..<n])"
proof (induction n)
  case (Suc n)
  have "slice (4096 * s) (4096 * s + 4096 * Suc n) xs
      = slice (4096 * s) (4096 * s + 4096 * n) xs @ slice (4096 * s + 4096 * n) (4096 * s + 4096 * n + 4096) xs"
    by (subst slice_join) (simp_all add: algebra_simps)
  then show ?case
    using Suc by (simp add: algebra_simps)
qed (simp add: slice_def)

lemma unat_add_of_nat: "unat (a :: u64) + n < 2 ^ 64 \<Longrightarrow> unat (a + of_nat n) = unat a + n"
  by (simp add: unat_word_ariths unat_of_nat)

lemma journal_area_blocks:
  assumes "unat (journal_start_block sb) + unat (journal_size_in_blocks sb) < 2 ^ 64"
  shows "journal_area img sb = concat (map (\<lambda>i. image_block img (journal_start_block sb + of_nat i))
    [0..<unat (journal_size_in_blocks sb)])"
proof -
  have "unat (journal_start_block sb + of_nat i) = unat (journal_start_block sb) + i"
    if "i < unat (journal_size_in_blocks sb)" for i
    using that assms by (intro unat_add_of_nat) simp
  then show ?thesis
    unfolding journal_area_def slice_blocks image_block_def by (intro arg_cong [of _ _ concat] map_cong) simp_all
qed


lemma journal_area_cong:
  assumes "journal_layout img sb" "journal_start_block sb' = journal_start_block sb"
    and "journal_size_in_blocks sb' = journal_size_in_blocks sb"
    and "\<And>a. unat (journal_start_block sb) \<le> unat a \<Longrightarrow>
      unat a < unat (journal_start_block sb) + unat (journal_size_in_blocks sb) \<Longrightarrow> image_block img' a = image_block img a"
  shows "journal_area img' sb' = journal_area img sb"
proof -
  have b: "unat (journal_start_block sb) + unat (journal_size_in_blocks sb) < 2 ^ 64"
    using assms(1) unat_bound [of "next_cow_block_address sb"] by (simp add: journal_layout_def)
  then have u: "unat (journal_start_block sb + of_nat i) = unat (journal_start_block sb) + i"
    if "i < unat (journal_size_in_blocks sb)" for i
    using that by (intro unat_add_of_nat) simp
  then have "image_block img' (journal_start_block sb + of_nat i) = image_block img (journal_start_block sb + of_nat i)"
    if "i < unat (journal_size_in_blocks sb)" for i
    using that by (intro assms(4)) simp_all
  then have "concat (map (\<lambda>i. image_block img' (journal_start_block sb + of_nat i)) [0..<unat (journal_size_in_blocks sb)])
      = concat (map (\<lambda>i. image_block img (journal_start_block sb + of_nat i)) [0..<unat (journal_size_in_blocks sb)])"
    by (intro arg_cong [of _ _ concat] map_cong) simp_all
  then show ?thesis
    using b assms(2,3) by (simp add: journal_area_blocks)
qed

lemma journal_area_first:
  assumes "journal_layout img sb"
  shows "take 4096 (journal_area img sb) = image_block img (journal_start_block sb)"
  using assms by (simp add: journal_layout_def journal_area_def image_block_def slice_def min_def)

section \<open>Commit and recovery as sequences of writes\<close>

text \<open>The image after \<open>k\<close> block writes of a list \<open>W\<close> went through: \<open>Ok\<close> exactly when all did.\<close>

definition written :: "('d \<Rightarrow> bytes) \<Rightarrow> 'd \<Rightarrow> (u64 \<times> bytes) list \<Rightarrow> unit result \<Rightarrow> 'd \<Rightarrow> bool" where
  "written img d W r d' \<longleftrightarrow> (\<exists>k \<le> length W. img d' = blocks_after (img d) (take k W) \<and>
     (r = Ok () \<and> k = length W \<or> r = Err InputOutputError \<and> k < length W))"

lemma written_append:
  assumes "written img d W (Ok ()) d1" "written img d1 W' r d2"
  shows "written img d (W @ W') r d2"
proof -
  obtain k where k: "k \<le> length W'" "img d2 = blocks_after (img d1) (take k W')"
      "r = Ok () \<and> k = length W' \<or> r = Err InputOutputError \<and> k < length W'"
    using assms(2) by (auto simp: written_def)
  have "img d1 = blocks_after (img d) W"
    using assms(1) by (auto simp: written_def)
  with k show ?thesis
    unfolding written_def by (intro exI [of _ "length W + k"]) (auto simp: blocks_after_append)
qed

lemma written_stop:
  assumes "written img d W (Err e) d1" 
  shows "written img d (W @ W') (Err e) d1" "e = InputOutputError"
proof -
  obtain k where "k < length W" "img d1 = blocks_after (img d) (take k W)" "e = InputOutputError"
    using assms by (auto simp: written_def)
  then show "written img d (W @ W') (Err e) d1" "e = InputOutputError"
    unfolding written_def by (auto intro!: exI [of _ k])
qed

lemma blocks_fit_after: "blocks_fit img bs \<Longrightarrow> blocks_fit (blocks_after img bs) cs = blocks_fit img cs"
  by (simp add: blocks_fit_def block_in_blocks_after)

lemma written_frame:
  assumes "written img d W r d'" "blocks_fit (img d) W"
  shows "length (img d') = length (img d)" "a \<notin> fst ` set W \<Longrightarrow> image_block (img d') a = image_block (img d) a"
proof -
  obtain k where k: "img d' = blocks_after (img d) (take k W)"
    using assms(1) by (auto simp: written_def)
  show "length (img d') = length (img d)"
    unfolding k using assms(2) by (simp add: length_blocks_after blocks_fit_take)
  show "image_block (img d') a = image_block (img d) a" if "a \<notin> fst ` set W"
    unfolding k using that set_take_subset [of k W] assms(2)
    by (intro image_blocks_other) (auto simp: blocks_fit_take)
qed

context block_store
begin

lemma write_blocks_written:
  assumes "valid d" "blocks_fit (image d) bs"
  shows "\<exists>r d'. write_blocks D bs d = (r, d') \<and> valid d' \<and> total_sector_count D d' = total_sector_count D d \<and>
    written image d bs r d'"
  using assms
proof (induction bs arbitrary: d)
  case Nil
  then show ?case by (auto simp: written_def)
next
  case (Cons b bs)
  obtain r1 d1 where w: "write_device_block D (fst b) (snd b) d = (r1, d1)" "valid d1"
      "r1 = Ok () \<and> image d1 = set_image_block (image d) (fst b) (snd b) \<or> r1 = Err InputOutputError \<and> image d1 = image d"
      "total_sector_count D d1 = total_sector_count D d"
    using write_device_block_image [of d "fst b" "snd b"] Cons.prems by auto
  from w(3) show ?case
  proof (elim disjE conjE)
    assume ok: "r1 = Ok ()" "image d1 = set_image_block (image d) (fst b) (snd b)"
    then have "blocks_fit (image d1) bs" using Cons.prems(2) by simp
    from Cons.IH [OF w(2) this] obtain r d' where r: "write_blocks D bs d1 = (r, d')" "valid d'"
      "total_sector_count D d' = total_sector_count D d1" "written image d1 bs r d'" by blast
    have "written image d [b] (Ok ()) d1"
      using ok(2) by (auto simp: written_def intro!: exI [of _ 1])
    from written_append [OF this r(4)] show ?thesis
      using w(1,4) ok r by auto
  next
    assume "r1 = Err InputOutputError" "image d1 = image d"
    then show ?thesis
      using w(1,2,4) by (auto simp: bindS_Err written_def intro!: exI [of _ 0])
  qed
qed

lemma write_superblock_written:
  assumes "valid d" "block_in_image (image d) 1" "block_in_image (image d) 2" "wf_superblock sb"
  defines "blk \<equiv> superblock_block (serialise_superblock_to_bytes (seal_with_checksum sb))"
  shows "\<exists>r d'. write_superblock_to_device D (d, sb) = (r, (d', seal_with_checksum sb)) \<and> valid d' \<and>
    total_sector_count D d' = total_sector_count D d \<and> written image d [(2, blk), (1, blk)] r d'"
proof -
  obtain r d' where w: "write_superblock_to_device D (d, sb) = (r, (d', seal_with_checksum sb))" "valid d'"
      "total_sector_count D d' = total_sector_count D d" and
      "r = Ok () \<and> image d' = set_image_block (set_image_block (image d) 2 blk) 1 blk \<or>
       r = Err InputOutputError \<and> (image d' = image d \<or> image d' = set_image_block (image d) 2 blk)"
    using write_superblock_cases [OF assms(1-4)] unfolding blk_def by blast
  then consider "r = Ok ()" "image d' = blocks_after (image d) (take 2 [(2, blk), (1, blk)])"
    | "r = Err InputOutputError" "image d' = blocks_after (image d) (take 0 [(2, blk), (1, blk)])"
    | "r = Err InputOutputError" "image d' = blocks_after (image d) (take 1 [(2, blk), (1, blk)])" by auto
  then have "written image d [(2, blk), (1, blk)] r d'"
    by cases (auto simp: written_def intro: exI [of _ 2] exI [of _ 0] exI [of _ 1])
  with w show ?thesis by blast
qed

end

definition superblock_writes :: "bafs_superblock \<Rightarrow> (u64 \<times> bytes) list" where
  "superblock_writes sb = (let blk = superblock_block (serialise_superblock_to_bytes (seal_with_checksum sb))
     in [(2, blk), (1, blk)])"

definition record_chunks :: "u64 \<Rightarrow> dirty_cache \<Rightarrow> bafs_superblock \<Rightarrow> (u64 \<times> bytes) list" where
  "record_chunks txid cache sb = (case build_commit_record txid cache of
     Ok rcd \<Rightarrow> chunks (journal_start_block sb) (chunk_count rcd) rcd | _ \<Rightarrow> [])"

text \<open>The writes of a commit, in order: the rcd, the blocks, the backup and the primary superblock.\<close>

definition commit_writes :: "u64 \<Rightarrow> dirty_cache \<Rightarrow> bafs_superblock \<Rightarrow> (u64 \<times> bytes) list" where
  "commit_writes txid cache sb = record_chunks txid cache sb @ cache
     @ superblock_writes (sb\<lparr>last_committed_transaction_id := txid\<rparr>)"

text \<open>A transaction that the journal can hold.\<close>

definition commitable :: "bytes \<Rightarrow> dirty_cache \<Rightarrow> bafs_superblock \<Rightarrow> bool" where
  "commitable img cache sb \<longleftrightarrow> cache \<noteq> [] \<and> length cache < 2 ^ 32 \<and> blocks_fit img cache \<and>
     28 + 4104 * length cache \<le> 4096 * unat (journal_size_in_blocks sb)"

lemma length_concat_blocks: "blocks_fit img bs \<Longrightarrow> length (concat (map snd bs)) = 4096 * length bs"
  by (induction bs) auto

lemma commitable_record:
  assumes "commitable img cache sb"
  obtains rcd where "build_commit_record txid cache = Ok rcd" "length rcd = 28 + 4104 * length cache"
    "take (20 + 8 * length cache) rcd = record_prefix txid cache"
proof -
  let ?body = "record_prefix txid cache @ concat (map snd cache) @ replicate 4 0"
  have b: "build_commit_record txid cache = Ok (?body @ to_le (compute_crc32c ?body))"
    using assms build_commit_record_Ok [of cache txid]
    by (auto simp: commitable_def blocks_fit_def Let_def record_prefix_def)
  have "length (concat (map snd cache)) = 4096 * length cache"
    using assms unfolding commitable_def by (intro length_concat_blocks) auto
  then show thesis
    using that [OF b] by (simp add: length_record_prefix)
qed

lemma chunk_count_le:
  assumes "length data \<le> 4096 * n"
  shows "chunk_count data \<le> n"
proof -
  have "(length data + 4095) div 4096 < n + 1"
    using assms by (simp add: div_less_iff_less_mult)
  then show ?thesis by (simp add: chunk_count_def)
qed

lemma record_chunks_addresses:
  assumes "commitable img cache sb" "journal_layout img sb" "c \<in> set (record_chunks txid cache sb)"
  shows "unat (journal_start_block sb) \<le> unat (fst c) \<and>
    unat (fst c) < unat (journal_start_block sb) + unat (journal_size_in_blocks sb) \<and> length (snd c) = 4096"
proof -
  obtain rcd where r: "build_commit_record txid cache = Ok rcd" "length rcd = 28 + 4104 * length cache"
    by (rule commitable_record [OF assms(1)])
  have n: "chunk_count rcd \<le> unat (journal_size_in_blocks sb)"
    using assms(1) r(2) by (intro chunk_count_le) (simp add: commitable_def)
  then have "unat (journal_start_block sb) + chunk_count rcd < 2 ^ 64"
    using assms(2) unat_bound [of "next_cow_block_address sb"] by (simp add: journal_layout_def)
  from chunks_addresses [OF this, of c rcd] show ?thesis
    using assms(3) r(1) n by (auto simp: record_chunks_def)
qed

lemma record_chunks_fit:
  assumes "commitable img cache sb" "journal_layout img sb"
  shows "blocks_fit img (record_chunks txid cache sb)"
  using record_chunks_addresses [OF assms] journal_layout_blocks(3) [OF assms(2)] by (auto simp: blocks_fit_def)

lemma commit_writes_fit:
  assumes "commitable img cache sb" "journal_layout img sb" "wf_superblock sb"
  shows "blocks_fit img (commit_writes txid cache sb)"
proof -
  have "blocks_fit img (record_chunks txid cache sb)"
    by (rule record_chunks_fit [OF assms(1,2)])
  moreover have "wf_superblock (seal_with_checksum (sb\<lparr>last_committed_transaction_id := txid\<rparr>))"
    using assms(3) by simp (simp add: wf_superblock_def)
  ultimately show ?thesis
    using assms(1) journal_layout_blocks(1,2) [OF assms(2)]
    by (auto simp: blocks_fit_def commit_writes_def superblock_writes_def commitable_def Let_def)
qed

lemma written_cases:
  assumes "written img d W r d'"
  obtains "r = Ok ()" | "r = Err InputOutputError"
  using assms by (auto simp: written_def)

lemma on_device_eq: "on_device m (d, x) = (fst (m d), (snd (m d), x))"
  by (simp add: on_device_def split: prod.split)

lemma write_record_blocks:
  assumes "commitable img cache sb" "journal_layout img sb" "build_commit_record txid cache = Ok rcd"
  shows "write_bytes_to_journal D sb rcd d = write_blocks D (record_chunks txid cache sb) d"
proof -
  obtain rcd' where r: "build_commit_record txid cache = Ok rcd'" "length rcd' = 28 + 4104 * length cache"
    by (rule commitable_record [OF assms(1)])
  have len: "length rcd \<le> 4096 * unat (journal_size_in_blocks sb)"
    using r assms(1,3) by (simp add: commitable_def)
  have s: "unat (journal_size_in_blocks sb) \<le> 16384"
    using assms(2) by (simp add: journal_layout_def)
  have c: "chunk_count rcd \<le> unat (journal_size_in_blocks sb)"
    using len by (rule chunk_count_le)
  then have room: "unat (journal_start_block sb) + chunk_count rcd < 2 ^ 64"
    using assms(2) unat_bound [of "next_cow_block_address sb"] by (simp add: journal_layout_def)
  have m: "mul_u (journal_size_in_blocks sb) (of_nat block_size) = Ok (journal_size_in_blocks sb * 4096)"
      "unat (journal_size_in_blocks sb * 4096) = 4096 * unat (journal_size_in_blocks sb)"
    using s by (simp_all add: mul_u_def unat_word_ariths)
  show ?thesis
    using m len write_journal_chunks_blocks [OF room refl, of D d] assms(3)
    by (simp add: write_bytes_to_journal_def record_chunks_def)
qed

context block_store
begin

lemma write_record_written:
  assumes "valid d" "commitable (image d) cache sb" "journal_layout (image d) sb"
    and "build_commit_record txid cache = Ok rcd"
  shows "\<exists>r d'. write_bytes_to_journal D sb rcd d = (r, d') \<and> valid d' \<and>
    total_sector_count D d' = total_sector_count D d \<and> written image d (record_chunks txid cache sb) r d'"
  using write_blocks_written [OF assms(1) record_chunks_fit [OF assms(2,3)]] write_record_blocks [OF assms(2-4), of D d]
  by simp

lemma commit_written:
  fixes txid :: u64
  assumes "valid d" "commitable (image d) cache sb" "journal_layout (image d) sb" "wf_superblock sb"
  defines "sb' \<equiv> sb\<lparr>last_committed_transaction_id := txid\<rparr>"
  shows "\<exists>r d' s. commit_transaction D \<lparr>transaction_id = txid\<rparr> cache (d, sb) = (r, (d', s)) \<and> valid d' \<and>
    total_sector_count D d' = total_sector_count D d \<and> written image d (commit_writes txid cache sb) r d' \<and>
    (r = Ok () \<longrightarrow> s = seal_with_checksum sb')"
proof -
  obtain rcd where rcd: "build_commit_record txid cache = Ok rcd"
    by (rule commitable_record [OF assms(2)])
  have ne: "cache \<noteq> []" and fit: "blocks_fit (image d) cache" using assms(2) by (simp_all add: commitable_def)
  let ?R = "record_chunks txid cache sb"
  have fitR: "blocks_fit (image d) ?R"
    using commit_writes_fit [OF assms(2-4), of txid] by (auto simp: commit_writes_def blocks_fit_def)
  obtain r1 d1 where j: "write_bytes_to_journal D sb rcd d = (r1, d1)" "valid d1"
      "total_sector_count D d1 = total_sector_count D d" "written image d ?R r1 d1"
    using write_record_written [OF assms(1-3) rcd] by blast
  show ?thesis
  proof (cases rule: written_cases [OF j(4)])
    case 2
    have "commit_transaction D \<lparr>transaction_id = txid\<rparr> cache (d, sb) = (r1, (d1, sb))"
      using j(1) ne rcd 2 by (simp add: commit_transaction_def on_device_eq bindS_Err)
    moreover have "written image d (commit_writes txid cache sb) r1 d1"
      using written_stop(1) [of image d ?R _ d1] j(4) 2 by (simp add: commit_writes_def)
    ultimately show ?thesis using j(2,3) 2 by blast
  next
    case 1
    have "image d1 = blocks_after (image d) ?R"
      using j(4) 1 by (auto simp: written_def)
    then have fit1: "blocks_fit (image d1) bs = blocks_fit (image d) bs" for bs
      using fitR by (simp add: blocks_fit_after)
    obtain r2 d2 where w: "write_blocks D cache d1 = (r2, d2)" "valid d2"
        "total_sector_count D d2 = total_sector_count D d1" "written image d1 cache r2 d2"
      using write_blocks_written [OF j(2)] fit fit1 by blast
    have W2: "written image d (?R @ cache) r2 d2"
      using written_append [of image d ?R d1] j(4) 1 w(4) by simp
    show ?thesis
    proof (cases rule: written_cases [OF w(4)])
      case 2
      have "commit_transaction D \<lparr>transaction_id = txid\<rparr> cache (d, sb) = (r2, (d2, sb))"
        using j(1) w(1) ne rcd \<open>r1 = Ok ()\<close> 2 by (simp add: commit_transaction_def on_device_eq bindS_Err)
      moreover have "written image d (commit_writes txid cache sb) r2 d2"
        using written_stop(1) [of image d "?R @ cache" _ d2] W2 2 by (simp add: commit_writes_def)
      ultimately show ?thesis using j(3) w(2,3) 2 by auto
    next
      case ok2: 1
      have "image d2 = blocks_after (image d) (?R @ cache)"
        using W2 ok2 by (auto simp: written_def)
      moreover have "blocks_fit (image d) (?R @ cache)"
        using fitR fit by (auto simp: blocks_fit_def)
      ultimately have in2: "block_in_image (image d2) a = block_in_image (image d) a" for a
        by (simp add: block_in_blocks_after)
      obtain r3 d3 where u: "write_superblock_to_device D (d2, sb') = (r3, (d3, seal_with_checksum sb'))" "valid d3"
          "total_sector_count D d3 = total_sector_count D d2" "written image d2 (superblock_writes sb') r3 d3"
        using write_superblock_written [OF w(2), of sb'] in2 journal_layout_blocks(1,2) [OF assms(3)] assms(4)
        by (auto simp: superblock_writes_def Let_def sb'_def wf_superblock_def)
      have "written image d (commit_writes txid cache sb) r3 d3"
        using written_append [of image d "?R @ cache" d2] W2 ok2 u(4) by (simp add: commit_writes_def sb'_def)
      moreover have "commit_transaction D \<lparr>transaction_id = txid\<rparr> cache (d, sb) = (r3, (d3, seal_with_checksum sb'))"
        using j(1) w(1) u(1) ne rcd \<open>r1 = Ok ()\<close> ok2
        by (simp add: commit_transaction_def on_device_eq set_last_committed_def sb'_def)
      ultimately show ?thesis using j(3) w(3) u(2,3) by auto
    qed
  qed
qed

end

section \<open>The properties of the record\<close>

text \<open>C38: a commit record is read back exactly. Whatever bytes follow it in the journal, recovery parses
  the record of a transaction to the transaction's id and blocks, in order, provided the id is newer
  than the superblock's; an older or equal id is ignored.\<close>

theorem commit_record_roundtrip:
  assumes "length cache < 2 ^ 32" "\<forall>e\<in>set cache. length (snd e) = 4096"
  shows "\<exists>rcd. build_commit_record txid cache = Ok rcd \<and>
    (\<forall>rest last_id. parse_commit_record (rcd @ rest) last_id = (if last_id < txid then Some (txid, cache) else None))"
proof -
  obtain rcd where r: "build_commit_record txid cache = Ok rcd"
    using build_commit_record_Ok [OF assms] by blast
  then obtain r' where "rcd = record_prefix txid cache @ r'"
    using build_commit_record_Ok [OF assms, of txid] by (auto simp: Let_def record_prefix_def)
  then have "from_le (slice 8 16 (rcd @ rest)) = txid" for rest
    using record_prefix_fields(2) [OF assms(1), of txid "r' @ rest"] by simp
  then have "parse_commit_record (rcd @ rest) last_id = None" if "\<not> last_id < txid" for rest last_id
    using that by (simp add: parse_commit_record_def Let_def not_less)
  then show ?thesis
    using r parse_record [OF assms _ r] by auto
qed

theorem commit_record_roundtrip_witness:
  "\<exists>rcd. build_commit_record 2 [(262, replicate 4096 7)] = Ok rcd \<and>
    parse_commit_record (rcd @ [1, 2, 3]) 1 = Some (2, [(262, replicate 4096 7)])"
  using commit_record_roundtrip [of "[(262, replicate 4096 7)]" 2] by fastforce

lemma record_body_damaged:
  assumes "length cache < 2 ^ 32" "\<forall>e\<in>set cache. length (snd e) = 4096"
    and "build_commit_record txid cache = Ok (pre @ burst @ post)"
    and "length burst' = length burst" "length burst \<le> 4" "burst' \<noteq> burst"
    and "length pre + length burst \<le> 16 \<or> 20 \<le> length pre" "4 \<le> length post"
  shows "parse_commit_record (pre @ burst' @ post @ rest) last_id = None"
proof -
  let ?n = "length cache"
  let ?body = "record_prefix txid cache @ concat (map snd cache) @ replicate 4 0"
  have rec: "pre @ burst @ post = ?body @ to_le (compute_crc32c ?body)"
    using build_commit_record_Ok [OF assms(1,2), of txid] assms(3) by (simp add: Let_def record_prefix_def)
  have ld: "length (concat (map snd cache)) = 4096 * ?n" using assms(2) by (induction cache) auto
  have lb: "length ?body = 24 + 8 * ?n + 4096 * ?n" using ld by (simp add: length_record_prefix)
  obtain q c where post: "post = q @ c" "length c = 4"
    using assms(8) by (metis append_take_drop_id diff_diff_cancel length_drop)
  have "(pre @ burst @ q) @ c = ?body @ to_le (compute_crc32c ?body)" "length c = length (to_le (compute_crc32c ?body))"
    using rec post by simp_all
  then have body: "pre @ burst @ q = ?body" and c: "c = to_le (compute_crc32c ?body)"
    using append_eq_append_conv by blast+
  have len: "length (pre @ burst' @ q) = 24 + 8 * ?n + 4096 * ?n"
    using lb body assms(4) by (metis length_append)
  let ?buf = "pre @ burst' @ post @ rest"
  have n: "unat (from_le (slice 16 20 ?buf) :: u32) = ?n"
  proof -
    have "slice 16 20 ?buf = slice 16 20 ((pre @ burst @ post) @ rest)"
      using assms(4,7) by (auto simp: slice_def)
    then show ?thesis
      unfolding rec by (simp add: record_prefix_fields(3) [OF assms(1)])
  qed
  have tk: "take (24 + 8 * ?n + 4096 * ?n) ?buf = pre @ burst' @ q"
    using len by (simp add: post)
  have chk: "from_le (slice (24 + 8 * ?n + 4096 * ?n) (24 + 8 * ?n + 4096 * ?n + 4) ?buf) = compute_crc32c ?body"
    using slice_append_shift [of "pre @ burst' @ q" 0 4 "c @ rest"] len c by (simp add: post) (simp add: slice_def)
  have "\<not> verify_crc32c (pre @ burst' @ q) (compute_crc32c ?body)"
    by (rule crc32c_burst [OF _ assms(4-6)]) (simp add: verify_crc32c_def body)
  then show ?thesis
    unfolding parse_commit_record_def Let_def JOURNAL_COMMIT_RECORD_HEADER_SIZE_BYTES_def block_size n chk tk
    by (auto simp: verify_crc32c_def)
qed

lemma record_checksum_damaged:
  assumes "length cache < 2 ^ 32" "\<forall>e\<in>set cache. length (snd e) = 4096"
    and "build_commit_record txid cache = Ok (pre @ burst @ post)"
    and "length burst' = length burst" "burst' \<noteq> burst" "length burst + length post \<le> 4"
  shows "parse_commit_record (pre @ burst' @ post @ rest) last_id = None"
proof -
  let ?n = "length cache"
  let ?body = "record_prefix txid cache @ concat (map snd cache) @ replicate 4 0"
  let ?c = "to_le (compute_crc32c ?body)"
  have rec: "pre @ burst @ post = ?body @ ?c"
    using build_commit_record_Ok [OF assms(1,2), of txid] assms(3) by (simp add: Let_def record_prefix_def)
  have ld: "length (concat (map snd cache)) = 4096 * ?n" using assms(2) by (induction cache) auto
  have lb: "length ?body = 24 + 8 * ?n + 4096 * ?n" using ld by (simp add: length_record_prefix)
  have "length (pre @ burst @ post) = length ?body + 4" unfolding rec by simp
  then have lp: "length ?body \<le> length pre" using assms(6) by simp
  define p where "p = drop (length ?body) pre"
  have pre: "pre = ?body @ p"
  proof -
    have "take (length ?body) pre = ?body"
      using arg_cong [OF rec, of "take (length ?body)"] lp by simp
    then show ?thesis unfolding p_def by (metis append_take_drop_id)
  qed
  have c: "p @ burst @ post = ?c" using rec unfolding pre by simp
  have "length (p @ burst' @ post) = length (p @ burst @ post)" using assms(4) by simp
  then have l4: "length (p @ burst' @ post) = 4" unfolding c by simp
  have "p @ burst' @ post \<noteq> ?c" using assms(5) unfolding c [symmetric] by simp
  with l4 have ne: "from_le (p @ burst' @ post) \<noteq> compute_crc32c ?body"
    by (metis to_le_from_le_sized(2))
  let ?buf = "pre @ burst' @ post @ rest"
  have n: "unat (from_le (slice 16 20 ?buf) :: u32) = ?n"
    unfolding pre by (simp add: record_prefix_fields(3) [OF assms(1)])
  have tk: "take (24 + 8 * ?n + 4096 * ?n) ?buf = ?body"
    unfolding pre using lb by simp
  have "slice (length b) (length b + 4) (b @ x @ rest) = x" if "length x = 4" for b x
    using slice_append_shift [of b 0 4 "x @ rest"] that by (simp add: slice_append_left slice_all)
  from this [OF l4, of ?body]
  have "slice (24 + 8 * ?n + 4096 * ?n) (24 + 8 * ?n + 4096 * ?n + 4) ?buf = p @ burst' @ post"
    unfolding pre lb by (simp only: append_assoc)
  with ne show ?thesis
    unfolding parse_commit_record_def Let_def JOURNAL_COMMIT_RECORD_HEADER_SIZE_BYTES_def block_size n tk by simp
qed

text \<open>C39: a damaged record is not replayed. Changing up to four adjacent bytes of a record makes
  recovery ignore it, wherever they lie in the magic and the transaction id, in the addresses, data
  and padding behind the header, or in the checksum. Not covered are changes that touch the block
  count, from which the position of the checksum is computed, and changes across the boundary
  between the record's body and its checksum.\<close>

theorem damaged_record_ignored:
  assumes "length cache < 2 ^ 32" "\<forall>e\<in>set cache. length (snd e) = 4096"
    and "build_commit_record txid cache = Ok (pre @ burst @ post)"
    and "length burst' = length burst" "length burst \<le> 4" "burst' \<noteq> burst"
    and "(length pre + length burst \<le> 16 \<or> 20 \<le> length pre) \<and> 4 \<le> length post \<or>
      length burst + length post \<le> 4"
  shows "parse_commit_record (pre @ burst' @ post @ rest) last_id = None"
  using assms record_body_damaged [OF assms(1-6)] record_checksum_damaged [OF assms(1-4,6)] by blast

theorem damaged_record_ignored_witness:
  "\<exists>pre post. build_commit_record 2 [(262, replicate 4096 7)] = Ok (pre @ [0] @ post) \<and>
    parse_commit_record (pre @ [9] @ post @ []) 1 = None"
proof -
  let ?cache = "[(262, replicate 4096 7)] :: dirty_cache"
  let ?body = "record_prefix 2 ?cache @ replicate 4096 7 @ replicate 4 0"
  let ?pre = "record_prefix 2 ?cache @ replicate 4096 7 @ replicate 3 0" and ?post = "to_le (compute_crc32c ?body)"
  have "replicate 4 (0 :: u8) = replicate 3 0 @ [0]" by (simp add: numeral_eq_Suc)
  then have "build_commit_record 2 ?cache = Ok (?pre @ [0] @ ?post)"
    using build_commit_record_Ok [of ?cache 2] by (simp add: Let_def record_prefix_def)
  moreover have "20 \<le> length ?pre" "4 \<le> length ?post" by (simp_all add: length_record_prefix)
  ultimately have "build_commit_record 2 ?cache = Ok (?pre @ [0] @ ?post) \<and>
      parse_commit_record (?pre @ [9] @ ?post @ []) 1 = None"
    using damaged_record_ignored [of ?cache 2 ?pre "[0]" ?post "[9]" "[]" 1] by simp
  then show ?thesis by (intro exI)
qed

end
