(* ===== verification/Journal_Recovery.thy ===== *)
theory Journal_Recovery
  imports Journal
begin

text \<open>
  Crash safety of \<^verbatim>\<open>src/journal.rs\<close>. A commit is a fixed sequence of block writes (theory
  \<open>Journal\<close>); this theory looks at every prefix of it. A commit that stops before the primary
  superblock leaves the old superblock, every committed block and a journal that is harmless: whatever
  recovery would replay from it, also from a torn record, only goes to blocks above the old bump
  pointer. A commit that returns \<open>Ok\<close> is on disk. Both facts are kept by any number of mounts,
  each of which may itself fail at any write.
\<close>

section \<open>Torn records\<close>

text \<open>Whatever follows in the journal area, a first block written by a commit determines the transaction id
  and the addresses that recovery would see.\<close>

lemma record_first_chunk:
  assumes "commitable img cache sb" "journal_layout img sb"
  obtains blk cs where "record_chunks txid cache sb = (journal_start_block sb, blk) # cs"
    "\<forall>c\<in>set cs. fst c \<noteq> journal_start_block sb" "length blk = 4096" "take 20 blk = take 20 (record_prefix txid cache)"
    "length cache \<le> 509 \<longrightarrow> (\<exists>rest. blk = record_prefix txid cache @ rest)"
proof -
  obtain rcd where r: "build_commit_record txid cache = Ok rcd" "length rcd = 28 + 4104 * length cache"
      "take (20 + 8 * length cache) rcd = record_prefix txid cache"
    by (rule commitable_record [OF assms(1)])
  have "0 < chunk_count rcd" using r(2) by (simp add: chunk_count_def)
  then obtain m where m: "chunk_count rcd = Suc m" by (cases "chunk_count rcd") auto
  let ?c = "write_slice (replicate 4096 0) 0 (take 4096 rcd)"
  have "\<exists>rest. ?c = record_prefix txid cache @ rest" if "length cache \<le> 509"
  proof -
    have "take (20 + 8 * length cache) ?c = record_prefix txid cache"
      using that r(2,3) by (simp add: write_slice_def take_append min_def)
    then show ?thesis by (metis append_take_drop_id)
  qed
  moreover have "take 20 ?c = take 20 rcd"
    using r(2) by (simp add: write_slice_def take_append min_def)
  then have "take 20 ?c = take 20 (record_prefix txid cache)"
    by (simp flip: r(3))
  moreover have c: "chunk_count rcd \<le> unat (journal_size_in_blocks sb)"
    using assms(1) r(2) by (intro chunk_count_le) (simp add: commitable_def)
  then have b: "unat (journal_start_block sb) + Suc m < 2 ^ 64"
    using assms(2) m unat_bound [of "next_cow_block_address sb"] by (simp add: journal_layout_def)
  then have u: "unat (journal_start_block sb + 1) = unat (journal_start_block sb) + 1"
    by (intro unat_plus_1) simp
  then have "unat (journal_start_block sb + 1) + m < 2 ^ 64" using b by simp
  then have "\<forall>x\<in>set (chunks (journal_start_block sb + 1) m (drop 4096 rcd)). fst x \<noteq> journal_start_block sb"
    using chunks_addresses u by fastforce
  moreover have "length ?c = 4096" by simp
  ultimately show thesis
    using that [of ?c "chunks (journal_start_block sb + 1) m (drop 4096 rcd)"]
    by (simp add: record_chunks_def r(1) m)
qed

text \<open>The first twenty bytes already determine the transaction id.\<close>

lemma record_header:
  assumes "journal_layout img sb" "length cache < 2 ^ 32"
    and "take 20 (image_block img (journal_start_block sb)) = take 20 (record_prefix txid cache)"
    and "parse_commit_record (journal_area img sb) last_id = Some (t, bs)"
  shows "t = txid" "last_id < txid"
proof -
  have "take 20 (journal_area img sb) = take 20 (take 4096 (journal_area img sb))" by simp
  also have "\<dots> = take 20 (record_prefix txid cache)"
    unfolding journal_area_first [OF assms(1)] by (rule assms(3))
  finally have "slice 8 16 (journal_area img sb) = slice 8 16 (record_prefix txid cache)"
    using slice_take [of 16 20 8 "journal_area img sb"] slice_take [of 16 20 8 "record_prefix txid cache"] by simp
  then have "from_le (slice 8 16 (journal_area img sb)) = txid"
    using record_prefix_fields(2) [OF assms(2), of txid "[]"] by simp
  then show "t = txid" "last_id < txid"
    using assms(4) by (auto simp: parse_commit_record_def Let_def split: if_splits)
qed

lemma torn_record:
  assumes "journal_layout img sb" "length cache \<le> 509"
    and "image_block img (journal_start_block sb) = record_prefix txid cache @ rest"
    and "parse_commit_record (journal_area img sb) last_id = Some (t, bs)"
  shows "map fst bs = map fst cache"
proof -
  have n: "length cache < 2 ^ 32" using assms(2) by simp
  note f = record_prefix_fields [OF n, where txid = txid and r = rest]
  have first: "take 4096 (journal_area img sb) = record_prefix txid cache @ rest"
    using journal_area_first [OF assms(1)] assms(3) by simp
  have "unat (from_le (slice 16 20 (take 4096 (journal_area img sb))) :: u32) = length cache"
    unfolding first by (rule f(3))
  then have "map fst bs = header_addresses (record_prefix txid cache @ rest)"
    using parse_addresses [OF assms(4)] assms(2) first by simp
  also have "\<dots> = map (\<lambda>i. fst (cache ! i)) [0..<length cache]"
    unfolding header_addresses_def f(3) using f(4) by simp
  also have "\<dots> = map fst cache"
    by (rule nth_equalityI) simp_all
  finally show ?thesis .
qed

section \<open>What survives\<close>

definition same_roots :: "bafs_superblock \<Rightarrow> bafs_superblock \<Rightarrow> bool" where
  "same_roots sb sb' \<longleftrightarrow> (\<exists>i c. sb' = sb\<lparr>last_committed_transaction_id := i, superblock_checksum := c\<rparr>)"

text \<open>\<open>stable D img d sb\<close>: a mount of \<open>d\<close> finds the superblock \<open>sb\<close>, whose journal is harmless.
  \<open>intact D img sb d d'\<close>: on \<open>d'\<close> a mount finds the roots of \<open>sb\<close> and every committed block as on \<open>d\<close>.\<close>

definition stable :: "'d block_device \<Rightarrow> ('d \<Rightarrow> bytes) \<Rightarrow> 'd \<Rightarrow> bafs_superblock \<Rightarrow> bool" where
  "stable D img d sb \<longleftrightarrow> journal_layout (img d) sb \<and> journal_safe (img d) sb \<and>
     unat (journal_start_block sb) + unat (journal_size_in_blocks sb) \<le> data_area D d \<and>
     read_superblock_from_device D d BAFS_PRIMARY_SUPERBLOCK_BLOCK_ADDRESS = Ok sb"

definition intact :: "'d block_device \<Rightarrow> ('d \<Rightarrow> bytes) \<Rightarrow> bafs_superblock \<Rightarrow> 'd \<Rightarrow> 'd \<Rightarrow> bool" where
  "intact D img sb d d' \<longleftrightarrow> length (img d') = length (img d) \<and> total_sector_count D d' = total_sector_count D d \<and>
     (\<forall>a. committed sb a \<longrightarrow> image_block (img d') a = image_block (img d) a) \<and>
     (\<exists>sb'. same_roots sb sb' \<and> stable D img d' sb')"

lemma same_roots_simps:
  assumes "same_roots sb sb'"
  shows "next_cow_block_address sb' = next_cow_block_address sb" "journal_start_block sb' = journal_start_block sb"
    "journal_size_in_blocks sb' = journal_size_in_blocks sb" "inode_tree_root_block sb' = inode_tree_root_block sb"
    "free_extent_tree_root_block sb' = free_extent_tree_root_block sb"
    "checksum_tree_root_block sb' = checksum_tree_root_block sb"
    "committed sb' = committed sb" "journal_layout img sb' = journal_layout img sb"
    "journal_area img sb' = journal_area img sb"
  using assms by (auto simp: same_roots_def committed_def fun_eq_iff journal_layout_def journal_area_def)

lemma same_roots_refl [simp]: "same_roots sb sb"
  unfolding same_roots_def by (intro exI [of _ "last_committed_transaction_id sb"] exI [of _ "superblock_checksum sb"]) simp

lemma same_roots_trans: "same_roots a b \<Longrightarrow> same_roots b c \<Longrightarrow> same_roots a c"
  by (auto simp: same_roots_def) (intro exI, rule refl)

lemma same_roots_seal: "same_roots sb (seal_with_checksum (sb\<lparr>last_committed_transaction_id := i\<rparr>))"
  by (auto simp: same_roots_def seal_with_checksum_def)

lemma intact_trans:
  assumes "intact D img sb d d1" "same_roots sb sb1" "intact D img sb1 d1 d2"
  shows "intact D img sb d d2"
  using assms same_roots_trans [of sb sb1] unfolding intact_def same_roots_simps(7) [OF assms(2)] by fastforce


context block_store
begin

lemma read_superblock_acceptable:
  assumes "valid d" "block_in_image (image d) a" "read_superblock_from_device D d a = Ok sb"
  shows "acceptable_superblock sb"
  using assms
  by (auto simp: read_superblock_from_device_def read_device_block_image acceptable_superblock_def Let_def
      intro!: wf_deserialise_superblock split: if_splits)

lemma superblock_written_read:
  assumes "valid d'" "acceptable_superblock sb" "blocks_fit (image d) (W @ superblock_writes sb)"
    and "image d' = blocks_after (image d) (W @ superblock_writes sb)"
  shows "read_superblock_from_device D d' 1 = Ok (seal_with_checksum sb)"
    "read_superblock_from_device D d' 2 = Ok (seal_with_checksum sb)"
proof -
  let ?b = "superblock_block (serialise_superblock_to_bytes (seal_with_checksum sb))"
  have in_img: "block_in_image (image d') 1" "block_in_image (image d') 2"
    using assms(3,4) block_in_blocks_after [OF assms(3)]
    by (auto simp: blocks_fit_def superblock_writes_def Let_def)
  have "image_block (image d') 1 = ?b" "image_block (image d') 2 = ?b"
    using assms(3) unfolding assms(4) by (simp_all add: image_blocks_after superblock_writes_def Let_def)
  moreover have "acceptable_superblock (seal_with_checksum sb)" "verify_checksum (seal_with_checksum sb)"
    using assms(2) by (simp, simp add: acceptable_superblock_def verify_checksum_seal)
  ultimately show "read_superblock_from_device D d' 1 = Ok (seal_with_checksum sb)"
    "read_superblock_from_device D d' 2 = Ok (seal_with_checksum sb)"
    using read_superblock_block [OF assms(1)] in_img by blast+
qed

end


text \<open>The writes of a commit or of recovery that stop before the primary superblock.\<close>

lemma written_unfinished:
  assumes "written img d (W @ superblock_writes sb) (Err e) d'"
  obtains k where "k \<le> length W + 1"
    "img d' = blocks_after (img d) (take k (W @ [hd (superblock_writes sb)]))"
proof -
  obtain k where k: "k < length W + 2" "img d' = blocks_after (img d) (take k (W @ superblock_writes sb))"
    using assms by (auto simp: written_def superblock_writes_def Let_def)
  moreover have "take k (W @ superblock_writes sb) = take k (W @ [hd (superblock_writes sb)])"
    using k(1) by (cases "k - length W") (auto simp: superblock_writes_def Let_def)
  ultimately show thesis
    using that [of k] by simp
qed

lemma superblock_writes_addresses: "fst ` set (superblock_writes sb) = {1, 2}" "fst (hd (superblock_writes sb)) = 2"
  by (auto simp: superblock_writes_def Let_def)

definition transaction_fits :: "bytes \<Rightarrow> bafs_superblock \<Rightarrow> bafs_superblock \<Rightarrow> dirty_cache \<Rightarrow> bool" where
  "transaction_fits img sb sb' cache \<longleftrightarrow> commitable img cache sb' \<and> cache_ok cache \<and> acceptable_superblock sb' \<and>
     journal_start_block sb' = journal_start_block sb \<and> journal_size_in_blocks sb' = journal_size_in_blocks sb \<and>
     unat (next_cow_block_address sb) \<le> unat (next_cow_block_address sb') \<and>
     4096 * unat (next_cow_block_address sb') \<le> length img \<and>
     (\<forall>e\<in>set cache. unat (next_cow_block_address sb) \<le> unat (fst e))"

text \<open>With at most 509 blocks the addresses of the record all lie in its first block, so that a torn record
  can only name blocks of the transaction.\<close>

definition transaction_ok :: "bytes \<Rightarrow> bafs_superblock \<Rightarrow> bafs_superblock \<Rightarrow> dirty_cache \<Rightarrow> bool" where
  "transaction_ok img sb sb' cache \<longleftrightarrow> transaction_fits img sb sb' cache \<and> length cache \<le> 509"

lemma transaction_layout:
  "transaction_fits img sb sb' cache \<Longrightarrow> journal_layout img sb \<Longrightarrow> journal_layout img sb'"
  by (auto simp: transaction_fits_def journal_layout_def)

lemma journal_layout_length: "journal_layout img sb \<Longrightarrow> length img' = length img \<Longrightarrow> journal_layout img' sb"
  by (simp add: journal_layout_def)

lemma transaction_addresses:
  assumes "transaction_fits img sb sb' cache" "journal_layout img sb"
    and "w \<in> set (record_chunks txid cache sb' @ cache)"
  shows "unat (journal_start_block sb) \<le> unat (fst w)" "\<not> committed sb (fst w)" "fst w \<noteq> 1" "fst w \<noteq> 2"
    and "length (snd w) = 4096" "block_in_image img (fst w)"
proof -
  have c: "commitable img cache sb'" "journal_layout img sb'" and j: "journal_start_block sb' = journal_start_block sb"
      "journal_size_in_blocks sb' = journal_size_in_blocks sb"
    using assms(1) transaction_layout [OF assms(1,2)] by (simp_all add: transaction_fits_def)
  consider "w \<in> set (record_chunks txid cache sb')" | "w \<in> set cache" using assms(3) by auto
  then have *: "unat (journal_start_block sb) \<le> unat (fst w) \<and> \<not> committed sb (fst w) \<and> length (snd w) = 4096 \<and> block_in_image img (fst w)"
  proof cases
    case 1
    then show ?thesis
      using record_chunks_addresses [OF c 1] journal_layout_blocks(3) [OF assms(2)] j by (auto simp: committed_def)
  next
    case 2
    then show ?thesis
      using assms(1,2) by (fastforce simp: transaction_fits_def commitable_def blocks_fit_def journal_layout_def committed_def)
  qed
  moreover have "3 \<le> unat (journal_start_block sb)"
    using assms(2) by (simp add: journal_layout_def)
  ultimately show "unat (journal_start_block sb) \<le> unat (fst w)" "\<not> committed sb (fst w)" "fst w \<noteq> 1" "fst w \<noteq> 2"
    "length (snd w) = 4096" "block_in_image img (fst w)" by auto
qed

lemma first_block_written:
  assumes "commitable img cache sb" "journal_layout img sb" "\<forall>e\<in>set cache. fst e \<noteq> journal_start_block sb"
    and "blocks_fit img (record_chunks txid cache sb @ cache @ V)" "journal_start_block sb \<notin> fst ` set V"
    and "img' = blocks_after img (take (Suc m) (record_chunks txid cache sb @ cache @ V))"
  obtains "take 20 (image_block img' (journal_start_block sb)) = take 20 (record_prefix txid cache)"
    "length cache \<le> 509 \<longrightarrow> (\<exists>rest. image_block img' (journal_start_block sb) = record_prefix txid cache @ rest)"
proof -
  obtain blk cs where ch: "record_chunks txid cache sb = (journal_start_block sb, blk) # cs"
      "\<forall>c\<in>set cs. fst c \<noteq> journal_start_block sb" "length blk = 4096" "take 20 blk = take 20 (record_prefix txid cache)"
      "length cache \<le> 509 \<longrightarrow> (\<exists>rest. blk = record_prefix txid cache @ rest)"
    by (rule record_first_chunk [OF assms(1,2), of txid])
  let ?tail = "take m (cs @ cache @ V)"
  have i: "img' = blocks_after (set_image_block img (journal_start_block sb) blk) ?tail"
    using assms(6) by (simp add: ch(1))
  have "journal_start_block sb \<notin> fst ` set (cs @ cache @ V)"
    using ch(2) assms(3,5) by (force simp: image_iff)
  then have "journal_start_block sb \<notin> fst ` set ?tail"
    using set_take_subset [of m "cs @ cache @ V"] by blast
  moreover have "blocks_fit (set_image_block img (journal_start_block sb) blk) ?tail"
    and "block_in_image img (journal_start_block sb)"
    using assms(4) ch(3) blocks_fit_take [of img "cs @ cache @ V" m] by (simp_all add: ch(1))
  ultimately have "image_block img' (journal_start_block sb) = blk"
    unfolding i by (subst image_blocks_other) (use ch(3) in auto)
  with ch(4,5) show thesis using that by simp
qed

lemma transaction_not_journal:
  assumes "transaction_fits img sb sb' cache" "journal_layout img sb" "e \<in> set cache"
  shows "fst e \<noteq> journal_start_block sb"
proof -
  have "unat (journal_start_block sb) < unat (next_cow_block_address sb)" using assms(2) by (simp add: journal_layout_def)
  moreover have "unat (next_cow_block_address sb) \<le> unat (fst e)" using assms(1,3) by (simp add: transaction_fits_def)
  ultimately show ?thesis by auto
qed

lemma torn_journal_safe:
  assumes T: "transaction_ok img sb sb' cache" and L: "journal_layout img sb" and S: "journal_safe img sb"
    and fit: "blocks_fit img (record_chunks txid cache sb' @ cache @ [b])" and b: "fst b = 2"
    and i: "img' = blocks_after img (take k (record_chunks txid cache sb' @ cache @ [b]))"
  shows "journal_safe img' sb"
proof (cases k)
  case 0
  then show ?thesis using S i by simp
next
  case (Suc m)
  have F: "transaction_fits img sb sb' cache" and n: "length cache \<le> 509" using T by (simp_all add: transaction_ok_def)
  have c: "commitable img cache sb'" "journal_layout img sb'" and j: "journal_start_block sb' = journal_start_block sb"
    using F transaction_layout [OF F L] by (simp_all add: transaction_fits_def)
  have ne: "\<forall>e\<in>set cache. fst e \<noteq> journal_start_block sb'" "journal_start_block sb' \<notin> fst ` set [b]"
    using transaction_not_journal [OF F L] b L by (auto simp: j journal_layout_def)
  obtain rest where blk: "image_block img' (journal_start_block sb) = record_prefix txid cache @ rest"
    using first_block_written [OF c ne(1) fit ne(2), of img' m] i Suc j n by auto
  have len: "length img' = length img"
    unfolding i using fit by (intro length_blocks_after blocks_fit_take)
  then have L': "journal_layout img' sb" using L by (simp add: journal_layout_length)
  show ?thesis
    unfolding journal_safe_def
  proof (intro allI impI ballI)
    fix t bs x assume p: "parse_commit_record (journal_area img' sb) (last_committed_transaction_id sb) = Some (t, bs)" and x: "x \<in> set bs"
    have "fst x \<in> fst ` set cache"
      using torn_record [OF L' n blk p] x by (metis image_eqI list.set_map)
    then show "block_in_image img' (fst x) \<and> unat (next_cow_block_address sb) \<le> unat (fst x)"
      using F len by (auto simp: transaction_fits_def commitable_def blocks_fit_def block_in_image_def)
  qed
qed

text \<open>The state after a successful commit: both superblock copies are the new one, recovery has nothing
  to replay, the dirty blocks are at their places, all other blocks outside the journal are as before.\<close>

definition durable :: "'d block_device \<Rightarrow> ('d \<Rightarrow> bytes) \<Rightarrow> bafs_superblock \<Rightarrow> dirty_cache \<Rightarrow> 'd \<Rightarrow> 'd \<Rightarrow> bool" where
  "durable D img sb cache d d' \<longleftrightarrow> length (img d') = length (img d) \<and> total_sector_count D d' = total_sector_count D d \<and>
     stable D img d' sb \<and> read_superblock_from_device D d' BAFS_BACKUP_SUPERBLOCK_BLOCK_ADDRESS = Ok sb \<and>
     parse_commit_record (journal_area (img d') sb) (last_committed_transaction_id sb) = None \<and>
     (\<forall>a. unat (journal_start_block sb) + unat (journal_size_in_blocks sb) \<le> unat a \<longrightarrow>
        image_block (img d') a = (case map_of cache a of Some b \<Rightarrow> b | None \<Rightarrow> image_block (img d) a))"

lemma map_of_rev_sorted: "cache_ok cache \<Longrightarrow> map_of (rev cache) = map_of cache"
proof -
  assume "cache_ok cache"
  then have "distinct (map fst cache)"
    by (simp add: cache_ok_def strict_sorted_iff)
  then show ?thesis
    by (subst map_of_inject_set) (simp_all add: rev_map [symmetric])
qed

lemma commit_blocks:
  assumes "commitable img cache sb" "journal_layout img sb" "wf_superblock sb" "cache_ok cache"
    and "unat (journal_start_block sb) + unat (journal_size_in_blocks sb) \<le> unat a"
  shows "image_block (blocks_after img (commit_writes txid cache sb)) a
    = (case map_of cache a of Some b \<Rightarrow> b | None \<Rightarrow> image_block img a)"
proof -
  let ?s = "sb\<lparr>last_committed_transaction_id := txid\<rparr>"
  have "a \<notin> fst ` set (record_chunks txid cache sb)"
    using record_chunks_addresses [OF assms(1,2)] assms(5) by fastforce
  moreover have "a \<notin> fst ` set (superblock_writes ?s)"
    using assms(2,5) unfolding superblock_writes_addresses by (auto simp: journal_layout_def)
  ultimately have "map_of (rev (record_chunks txid cache sb)) a = None" "map_of (rev (superblock_writes ?s)) a = None"
    by (simp_all add: map_of_eq_None_iff)
  then have "map_of (rev (commit_writes txid cache sb)) a = map_of (rev cache) a"
    by (simp add: commit_writes_def map_add_def split: option.split)
  then show ?thesis
    by (simp add: image_blocks_after [OF commit_writes_fit [OF assms(1-3)]] map_of_rev_sorted [OF assms(4)])
qed

text \<open>A commit changes nothing of the superblock in memory but the transaction id and the checksum.\<close>

lemma commit_same_roots:
  assumes "commit_transaction D txn cache (d, sb) = (r, (d1, s))"
  shows "same_roots sb s"
proof -
  have "s' = seal_with_checksum sb'" if "write_superblock_to_device D (d', sb') = (r', (d'', s'))" for d' sb' r' d'' s'
    using that by (auto simp: write_superblock_to_device_def bindS_def modifyS_def getS_def on_device_def split: result.splits prod.splits)
  then have "s = sb \<or> s = seal_with_checksum (sb\<lparr>last_committed_transaction_id := transaction_id txn\<rparr>)"
    using assms
    by (auto simp: commit_transaction_def bindS_def modifyS_def getS_def liftS_def on_device_def set_last_committed_def
        split: result.splits prod.splits if_splits)
  then show ?thesis using same_roots_seal by auto
qed

lemma commit_too_large:
  assumes "cache \<noteq> []" "length cache < 2 ^ 32" "\<forall>e\<in>set cache. length (snd e) = 4096"
    and "unat (journal_size_in_blocks sb) \<le> 16384" "4096 * unat (journal_size_in_blocks sb) < 28 + 4104 * length cache"
  shows "commit_transaction D txn cache (d, sb) = (Err OutOfSpace, (d, sb))"
proof -
  obtain rcd where r: "build_commit_record (transaction_id txn) cache = Ok rcd"
    using build_commit_record_Ok [OF assms(2,3)] by blast
  have "length (concat (map snd cache)) = 4096 * length cache" "length (concat (map (\<lambda>e. to_le (fst e)) cache)) = 8 * length cache"
    using assms(3) by (induction cache) auto
  then have "length rcd = 28 + 4104 * length cache"
    using r build_commit_record_Ok [OF assms(2,3), of "transaction_id txn"]
    by (auto simp: Let_def JOURNAL_COMMIT_RECORD_MAGIC_def)
  moreover have "mul_u (journal_size_in_blocks sb) (of_nat block_size) = Ok (journal_size_in_blocks sb * 4096)"
      "unat (journal_size_in_blocks sb * 4096) = 4096 * unat (journal_size_in_blocks sb)"
    using assms(4) by (simp_all add: mul_u_def unat_word_ariths)
  ultimately have "write_bytes_to_journal D sb rcd d = (Err OutOfSpace, d)"
    using assms(5) by (simp add: write_bytes_to_journal_def)
  with r assms(1) show ?thesis
    by (simp add: commit_transaction_def on_device_eq bindS_Err)
qed

context block_store
begin

lemma commit_intact:
  assumes "valid d" "stable D image d sb" "transaction_ok (image d) sb sb' cache"
    and "written image d (commit_writes txid cache sb') (Err e) d'" "valid d'"
    and "total_sector_count D d' = total_sector_count D d"
  shows "intact D image sb d d'"
proof -
  have F: "transaction_fits (image d) sb sb' cache" using assms(3) by (simp add: transaction_ok_def)
  let ?W = "record_chunks txid cache sb' @ cache" and ?s = "sb'\<lparr>last_committed_transaction_id := txid\<rparr>"
  let ?b = "hd (superblock_writes ?s)"
  have L: "journal_layout (image d) sb" and S: "journal_safe (image d) sb"
    and R: "read_superblock_from_device D d BAFS_PRIMARY_SUPERBLOCK_BLOCK_ADDRESS = Ok sb"
    using assms(2) by (simp_all add: stable_def)
  have L': "journal_layout (image d) sb'" by (rule transaction_layout [OF F L])
  have fitW: "blocks_fit (image d) (commit_writes txid cache sb')"
    using F L' by (intro commit_writes_fit) (simp_all add: transaction_fits_def acceptable_superblock_def)
  have fit: "blocks_fit (image d) (?W @ [?b])"
    using fitW by (auto simp: commit_writes_def superblock_writes_def Let_def blocks_fit_def)
  obtain k where k: "image d' = blocks_after (image d) (take k (?W @ [?b]))"
    using written_unfinished [of image d ?W ?s e d'] assms(4) by (auto simp: commit_writes_def)
  have other: "image_block (image d') a = image_block (image d) a" if "a \<notin> fst ` set (?W @ [?b])" for a
    unfolding k using that set_take_subset [of k "?W @ [?b]"] by (intro image_blocks_other blocks_fit_take [OF fit]) auto
  have len: "length (image d') = length (image d)"
    using written_frame(1) [OF assms(4) fitW] .
  have two: "fst ?b = 2" by (rule superblock_writes_addresses)
  have "image_block (image d') 1 = image_block (image d) 1"
  proof (rule other)
    have "fst w \<noteq> 1" if "w \<in> set (?W @ [?b])" for w
      using that transaction_addresses(3) [OF F L, of w txid] two by auto
    then show "1 \<notin> fst ` set (?W @ [?b])" by (metis (no_types, lifting) imageE)
  qed
  then have "read_superblock_from_device D d' BAFS_PRIMARY_SUPERBLOCK_BLOCK_ADDRESS = Ok sb"
    using read_superblock_cong [OF assms(1,5), of 1] journal_layout_blocks(1) [OF L] len R
    by (simp add: block_in_image_def BAFS_PRIMARY_SUPERBLOCK_BLOCK_ADDRESS_def)
  moreover have "journal_safe (image d') sb"
    using torn_journal_safe [OF assms(3) L S _ two] fit k by simp
  moreover have "image_block (image d') a = image_block (image d) a" if "committed sb a" for a
  proof (rule other)
    have "\<not> committed sb 2" using L by (auto simp: committed_def journal_layout_def)
    then have "\<not> committed sb (fst w)" if "w \<in> set (?W @ [?b])" for w
      using that transaction_addresses(2) [OF F L, of w txid] two by auto
    then show "a \<notin> fst ` set (?W @ [?b])" using that by (metis (no_types, lifting) imageE)
  qed
  moreover have "journal_layout (image d') sb"
    by (rule journal_layout_length [OF L len])
  ultimately show ?thesis
    unfolding intact_def stable_def using len assms(2,6)
    by (intro conjI exI [of _ sb]) (simp_all add: stable_def data_area_def)
qed

lemma commit_durable:
  assumes "valid d" "stable D image d sb" "transaction_fits (image d) sb sb' cache"
    and "written image d (commit_writes txid cache sb') (Ok ()) d'" "valid d'"
    and "total_sector_count D d' = total_sector_count D d"
  shows "durable D image (seal_with_checksum (sb'\<lparr>last_committed_transaction_id := txid\<rparr>)) cache d d'"
proof -
  let ?W = "record_chunks txid cache sb' @ cache" and ?s = "sb'\<lparr>last_committed_transaction_id := txid\<rparr>"
  have L: "journal_layout (image d) sb" using assms(2) by (simp add: stable_def)
  have L': "journal_layout (image d) sb'" by (rule transaction_layout [OF assms(3) L])
  have acc: "acceptable_superblock ?s"
    using assms(3) by (simp add: transaction_fits_def acceptable_superblock_def wf_superblock_def)
  have fit: "blocks_fit (image d) (?W @ superblock_writes ?s)"
    using commit_writes_fit [of "image d" cache sb' txid] assms(3) L'
    by (simp add: transaction_fits_def acceptable_superblock_def commit_writes_def)
  have i: "image d' = blocks_after (image d) (?W @ superblock_writes ?s)"
    using assms(4) by (auto simp: written_def commit_writes_def)
  have len: "length (image d') = length (image d)"
    unfolding i by (rule length_blocks_after [OF fit])
  have j: "journal_start_block sb' = journal_start_block sb" and n: "length cache < 2 ^ 32"
    and c: "commitable (image d) cache sb'" and ok: "cache_ok cache"
    using assms(3) by (auto simp: transaction_fits_def commitable_def)
  have s: "journal_layout (image d') (seal_with_checksum ?s)"
    using L' len by (simp add: journal_layout_def seal_with_checksum_def)
  have wf: "wf_superblock sb'" using assms(3) by (simp add: transaction_fits_def acceptable_superblock_def)
  have data: "image_block (image d') a = (case map_of cache a of Some b \<Rightarrow> b | None \<Rightarrow> image_block (image d) a)"
    if a: "unat (journal_start_block sb') + unat (journal_size_in_blocks sb') \<le> unat a" for a
    using commit_blocks [OF c L' wf ok a, of txid] i by (simp add: commit_writes_def)
  have p: "parse_commit_record (journal_area (image d') (seal_with_checksum ?s)) (last_committed_transaction_id (seal_with_checksum ?s)) = None"
  proof -
    have ne: "\<forall>e\<in>set cache. fst e \<noteq> journal_start_block sb'"
        "journal_start_block sb' \<notin> fst ` set (superblock_writes ?s)"
      using transaction_not_journal [OF assms(3) L] L' unfolding superblock_writes_addresses
      by (auto simp: j journal_layout_def)
    let ?all = "record_chunks txid cache sb' @ cache @ superblock_writes ?s"
    have all: "image d' = blocks_after (image d) (take (Suc (length ?all)) ?all)" and fit': "blocks_fit (image d) ?all"
      using i fit by simp_all
    have "take 20 (image_block (image d') (journal_start_block sb')) = take 20 (record_prefix txid cache)"
      by (rule first_block_written [OF c L' ne(1) fit' ne(2) all])
    then show ?thesis
      using record_header(2) [OF s n, of txid]
      by (cases "parse_commit_record (journal_area (image d') (seal_with_checksum ?s)) (last_committed_transaction_id (seal_with_checksum ?s))")
        (auto simp: seal_with_checksum_def)
  qed
  then have "journal_safe (image d') (seal_with_checksum ?s)" by (simp add: journal_safe_def)
  moreover have "read_superblock_from_device D d' BAFS_PRIMARY_SUPERBLOCK_BLOCK_ADDRESS = Ok (seal_with_checksum ?s)"
      "read_superblock_from_device D d' BAFS_BACKUP_SUPERBLOCK_BLOCK_ADDRESS = Ok (seal_with_checksum ?s)"
    using superblock_written_read [OF assms(5) acc fit i]
    by (simp_all add: BAFS_PRIMARY_SUPERBLOCK_BLOCK_ADDRESS_def BAFS_BACKUP_SUPERBLOCK_BLOCK_ADDRESS_def)
  ultimately show ?thesis
    using len assms(2,3,6) s data p unfolding durable_def stable_def
    by (simp add: seal_with_checksum_def data_area_def transaction_fits_def)
qed

end

section \<open>Recovery\<close>

lemma stable_reseal:
  assumes "parse_commit_record (journal_area img sb) (last_committed_transaction_id sb) = Some (txid, bs)"
  shows "parse_commit_record (journal_area img sb) txid = None"
  using assms by (auto simp: parse_commit_record_def Let_def split: if_splits)

context block_store
begin

lemma read_journal_area_image:
  assumes "valid d" "journal_layout (image d) sb"
  shows "read_journal_area D d sb = Ok (journal_area (image d) sb)"
proof -
  let ?s = "journal_start_block sb" and ?n = "journal_size_in_blocks sb"
  have L: "unat ?n \<le> 16384" "4096 * (unat ?s + unat ?n) \<le> length (image d)"
    using assms(2) by (simp_all add: journal_layout_def)
  have "512 * unat (total_sector_count D d) < 512 * 2 ^ 64"
    using unat_bound [of "total_sector_count D d"] by simp
  then have s: "8 * unat ?s < 2 ^ 64"
    using L(2) image_size [OF assms(1)] by simp
  have m: "mul_u ?n 4096 = Ok (?n * 4096)" "unat (?n * 4096) = 4096 * unat ?n"
    "mul_u ?s 8 = Ok (?s * 8)" "unat (?s * 8) = 8 * unat ?s"
    "mul_u ?n 8 = Ok (?n * 8)" "unat (?n * 8) = 8 * unat ?n"
    using L(1) s by (simp_all add: mul_u_def unat_word_ariths)
  have u: "unat (ucast (?n * 8) :: u32) = 8 * unat ?n"
    using L(1) m(6) by (simp add: unsigned_ucast_eq take_bit_nat_eq_self)
  show ?thesis
    using read_in_range [OF assms(1), of "?s * 8" "ucast (?n * 8)" "replicate (4096 * unat ?n) 0"] L(2)
    by (simp add: read_journal_area_def m u device_read_def journal_area_def)
qed

lemma recover_nothing:
  assumes "valid d" "journal_layout (image d) sb"
    and "parse_commit_record (journal_area (image d) sb) (last_committed_transaction_id sb) = None"
  shows "recover_journal_on_mount D (d, sb) = (Ok False, (d, sb))"
  using read_journal_area_image [OF assms(1,2)] assms(3) by (simp add: recover_journal_on_mount_def bindS_def getS_def)

lemma recover_written:
  assumes "valid d" "journal_layout (image d) sb" "journal_safe (image d) sb" "wf_superblock sb"
    and "parse_commit_record (journal_area (image d) sb) (last_committed_transaction_id sb) = Some (txid, bs)"
  defines "s \<equiv> sb\<lparr>last_committed_transaction_id := txid\<rparr>"
  shows "\<exists>r d' s'. recover_journal_on_mount D (d, sb) = (r, (d', s')) \<and> valid d' \<and>
    total_sector_count D d' = total_sector_count D d \<and>
    (r = Ok True \<and> s' = seal_with_checksum s \<and> written image d (bs @ superblock_writes s) (Ok ()) d' \<or>
     r = Err InputOutputError \<and> written image d (bs @ superblock_writes s) (Err InputOutputError) d')"
proof -
  have fit: "blocks_fit (image d) bs"
    by (rule journal_safe_fit(1) [OF assms(3,5)])
  obtain r1 d1 where w: "write_blocks D bs d = (r1, d1)" "valid d1"
      "total_sector_count D d1 = total_sector_count D d" "written image d bs r1 d1"
    using write_blocks_written [OF assms(1) fit] by blast
  have rd: "(case (d, sb) of (dev, sb) \<Rightarrow> (read_journal_area D dev sb, (dev, sb))) = (Ok (journal_area (image d) sb), (d, sb))"
    using read_journal_area_image [OF assms(1,2)] by simp
  show ?thesis
  proof (cases rule: written_cases [OF w(4)])
    case 2
    have "recover_journal_on_mount D (d, sb) = (Err InputOutputError, (d1, sb))"
      using w(1) 2 assms(5) rd by (simp add: recover_journal_on_mount_def bindS_def getS_def on_device_eq)
    moreover have "written image d (bs @ superblock_writes s) (Err InputOutputError) d1"
      using written_stop(1) [of image d bs _ d1] w(4) 2 by simp
    ultimately show ?thesis using w(2,3) by blast
  next
    case 1
    have "image d1 = blocks_after (image d) bs"
      using w(4) 1 by (auto simp: written_def)
    then have "block_in_image (image d1) 1" "block_in_image (image d1) 2"
      using journal_layout_blocks(1,2) [OF assms(2)] fit by (simp_all add: block_in_blocks_after)
    moreover have "wf_superblock s"
      using assms(4) by (simp add: s_def wf_superblock_def)
    ultimately obtain r2 d2 where u: "write_superblock_to_device D (d1, s) = (r2, (d2, seal_with_checksum s))" "valid d2"
        "total_sector_count D d2 = total_sector_count D d1" "written image d1 (superblock_writes s) r2 d2"
      using write_superblock_written [OF w(2), of s] by (auto simp: superblock_writes_def Let_def)
    have W: "written image d (bs @ superblock_writes s) r2 d2"
      using written_append [of image d bs d1] w(4) 1 u(4) by simp
    have run: "recover_journal_on_mount D (d, sb) = (case r2 of Ok _ \<Rightarrow> Ok True | Err e \<Rightarrow> Err e | Panic \<Rightarrow> Panic | OutOfFuel \<Rightarrow> OutOfFuel, (d2, seal_with_checksum s))"
      using w(1) 1 assms(5) rd u(1)
      by (simp add: recover_journal_on_mount_def bindS_def getS_def on_device_eq modifyS_def set_last_committed_def s_def retS_def split: result.split)
    show ?thesis
      by (cases rule: written_cases [OF W]) (use run W u(2,3) w(3) in auto)
  qed
qed

lemma recover_intact:
  assumes "valid d" "stable D image d sb"
  shows "\<exists>r d' s. recover_journal_on_mount D (d, sb) = (r, (d', s)) \<and> valid d' \<and> intact D image sb d d' \<and>
    (r = Err InputOutputError \<or> (\<exists>b. r = Ok b) \<and> same_roots sb s \<and> stable D image d' s)"
proof -
  have L: "journal_layout (image d) sb" and S: "journal_safe (image d) sb"
    and R: "read_superblock_from_device D d BAFS_PRIMARY_SUPERBLOCK_BLOCK_ADDRESS = Ok sb"
    using assms(2) by (simp_all add: stable_def)
  have acc: "acceptable_superblock sb"
    using read_superblock_acceptable [OF assms(1) journal_layout_blocks(1) [OF L]] R
    by (simp add: BAFS_PRIMARY_SUPERBLOCK_BLOCK_ADDRESS_def)
  show ?thesis
  proof (cases "parse_commit_record (journal_area (image d) sb) (last_committed_transaction_id sb)")
    case None
    have "same_roots sb sb \<and> stable D image d sb" using assms(2) by simp
    then have "intact D image sb d d" unfolding intact_def by blast
    then show ?thesis
      using recover_nothing [OF assms(1) L None] assms same_roots_refl [of sb] by blast
  next
    case (Some p)
    obtain txid bs where p: "parse_commit_record (journal_area (image d) sb) (last_committed_transaction_id sb) = Some (txid, bs)"
      using Some by (cases p) auto
    let ?s = "sb\<lparr>last_committed_transaction_id := txid\<rparr>"
    have wf: "wf_superblock sb" "acceptable_superblock ?s"
      using acc by (simp_all add: acceptable_superblock_def wf_superblock_def)
    obtain r d' s' where r: "recover_journal_on_mount D (d, sb) = (r, (d', s'))" "valid d'"
        "total_sector_count D d' = total_sector_count D d"
        "r = Ok True \<and> s' = seal_with_checksum ?s \<and> written image d (bs @ superblock_writes ?s) (Ok ()) d' \<or>
         r = Err InputOutputError \<and> written image d (bs @ superblock_writes ?s) (Err InputOutputError) d'"
      using recover_written [OF assms(1) L S wf(1) p] by blast
    have fit: "blocks_fit (image d) (bs @ superblock_writes ?s)"
      using journal_safe_fit(1) [OF S p] journal_layout_blocks(1,2) [OF L] wf(2)
      by (auto simp: blocks_fit_def superblock_writes_def Let_def acceptable_superblock_def)
    have high: "\<forall>b\<in>set bs. unat (next_cow_block_address sb) \<le> unat (fst b)"
      by (rule journal_safe_fit(2) [OF S p])
    obtain r0 where W: "written image d (bs @ superblock_writes ?s) r0 d'" using r(4) by blast
    have len: "length (image d') = length (image d)" by (rule written_frame(1) [OF W fit])
    have keep: "image_block (image d') a = image_block (image d) a"
      if "unat (journal_start_block sb) \<le> unat a" "unat a < unat (next_cow_block_address sb)" for a
    proof (rule written_frame(2) [OF W fit])
      have "a \<notin> {1, 2}" "a \<notin> fst ` set bs" using that high L by (auto simp: journal_layout_def)
      then show "a \<notin> fst ` set (bs @ superblock_writes ?s)"
        using superblock_writes_addresses(1) [of ?s] by auto
    qed
    have area: "journal_area (image d') sb = journal_area (image d) sb"
      by (rule journal_area_cong [OF L]) (use keep L in \<open>auto simp: journal_layout_def\<close>)
    have cm: "image_block (image d') a = image_block (image d) a" if "committed sb a" for a
      using that by (intro keep) (auto simp: committed_def)
    have L': "journal_layout (image d') sb" by (rule journal_layout_length [OF L len])
    show ?thesis
      using r(4)
    proof (elim disjE conjE)
      assume ok: "r = Ok True" "s' = seal_with_checksum ?s" "written image d (bs @ superblock_writes ?s) (Ok ()) d'"
      have "read_superblock_from_device D d' 1 = Ok s'"
        using superblock_written_read(1) [OF r(2) wf(2) fit] ok(2,3) by (auto simp: written_def)
      moreover have "journal_safe (image d') s'"
        using stable_reseal [OF p] area
        by (simp add: journal_safe_def ok(2) seal_with_checksum_def) (simp add: journal_area_def)
      moreover have "same_roots sb s'"
        unfolding ok(2) by (rule same_roots_seal)
      ultimately have "same_roots sb s' \<and> stable D image d' s'"
        using same_roots_simps(2,3,8) [of sb s'] L' assms(2) r(3)
        by (simp add: stable_def BAFS_PRIMARY_SUPERBLOCK_BLOCK_ADDRESS_def data_area_def)
      then show ?thesis
        using r(1-3) len cm ok(1) by (auto simp: intact_def)
    next
      assume e: "r = Err InputOutputError" "written image d (bs @ superblock_writes ?s) (Err InputOutputError) d'"
      have "image_block (image d') 1 = image_block (image d) 1"
      proof -
        let ?V = "bs @ [hd (superblock_writes ?s)]"
        obtain k where k: "image d' = blocks_after (image d) (take k ?V)"
          by (rule written_unfinished [OF e(2)])
        have "blocks_fit (image d) ?V" using fit by (auto simp: blocks_fit_def superblock_writes_def Let_def)
        moreover have "1 \<notin> fst ` set bs" using high L by (auto simp: journal_layout_def)
        then have "1 \<notin> fst ` set ?V"
          using superblock_writes_addresses(2) [of ?s] by simp
        then have "1 \<notin> fst ` set (take k ?V)" using set_take_subset [of k ?V] by blast
        ultimately show ?thesis unfolding k by (intro image_blocks_other blocks_fit_take)
      qed
      then have "read_superblock_from_device D d' BAFS_PRIMARY_SUPERBLOCK_BLOCK_ADDRESS = Ok sb"
        using read_superblock_cong [OF assms(1) r(2), of 1] journal_layout_blocks(1) [OF L] len R
        by (simp add: block_in_image_def BAFS_PRIMARY_SUPERBLOCK_BLOCK_ADDRESS_def)
      moreover have "journal_safe (image d') sb"
        using S len unfolding journal_safe_def area by (simp add: block_in_image_def)
      ultimately have "same_roots sb sb \<and> stable D image d' sb"
        using L' assms(2) r(3) by (simp add: stable_def data_area_def)
      then show ?thesis
        using r(1-3) len cm e(1) unfolding intact_def by blast
    qed
  qed
qed

end

section \<open>Trees across a crash\<close>

definition mounted_state :: "bafs_superblock \<Rightarrow> cow_state" where
  "mounted_state sb = \<lparr>dirty_cache = [], next_free_block = next_cow_block_address sb, freed_blocks = []\<rparr>"

lemma tree_on_transfer:
  assumes "tree_on Q lo D dev st r its N" "data_area D dev' = data_area D dev"
    and "\<forall>a\<in>N. read_block D dev' (dirty_cache st') a = read_block D dev (dirty_cache st) a"
    and "unat (next_free_block st) \<le> unat (next_free_block st')"
  shows "tree_on Q lo D dev' st' r its N"
proof -
  obtain t h where t: "tree_ok Q lo D dev st h t" "root_of t = r" "items_of t = its"
      "set (nodes_of t) = N" "wide_root t" "distinct (nodes_of t)"
    using assms(1) by (rule tree_onE)
  have "stored (rd D dev' st') h t"
    using t(1) by (rule tree_ok_def [THEN iffD1, THEN conjunct1, THEN stored_cong])
      (use assms(3) t(4) in \<open>simp add: read_tree_node_def\<close>)
  then have "tree_ok Q lo D dev' st' h t"
    using t(1) assms(4) by (auto simp: tree_ok_def below_def)
  moreover have "\<forall>a\<in>N. data_area D dev' \<le> unat a"
    using tree_on_area [OF assms(1)] assms(2) by simp
  ultimately show ?thesis
    using t by (auto simp: tree_on_def)
qed

text \<open>Between two states every block of the data area below the first bump pointer keeps its content.\<close>

definition kept :: "'d block_device \<Rightarrow> 'd \<Rightarrow> cow_state \<Rightarrow> 'd \<Rightarrow> cow_state \<Rightarrow> bool" where
  "kept D dev st dev' st' \<longleftrightarrow> data_area D dev' = data_area D dev \<and>
     unat (next_free_block st) \<le> unat (next_free_block st') \<and>
     (\<forall>a. data_area D dev \<le> unat a \<and> unat a < unat (next_free_block st) \<longrightarrow>
        read_block D dev' (dirty_cache st') a = read_block D dev (dirty_cache st) a)"

lemma kept_trans: "kept D d st d1 st1 \<Longrightarrow> kept D d1 st1 d2 st2 \<Longrightarrow> kept D d st d2 st2"
  by (simp add: kept_def)

lemma kept_tree_on:
  assumes "kept D dev st dev' st'" "tree_on Q lo D dev st r its N"
  shows "tree_on Q lo D dev' st' r its N"
  using assms(1) tree_on_area [OF assms(2)] tree_on_below [OF assms(2)]
  by (intro tree_on_transfer [OF assms(2)]) (simp_all add: kept_def)

lemma kept_tree: "kept D dev st dev' st' \<Longrightarrow> tree_at Q lo D dev st r its \<Longrightarrow> tree_at Q lo D dev' st' r its"
  unfolding tree_at_def by (elim exE, rule exI, rule kept_tree_on)

context block_store
begin

lemma kept_intact:
  assumes "valid d" "valid d'" "stable D image d sb" "intact D image sb d d'" "same_roots sb s"
  shows "kept D d (mounted_state sb) d' (mounted_state s)"
proof -
  have i: "length (image d') = length (image d)" "data_area D d' = data_area D d"
      "\<And>a. committed sb a \<Longrightarrow> image_block (image d') a = image_block (image d) a"
    using assms(4) by (auto simp: intact_def data_area_def)
  have L: "journal_layout (image d) sb" "unat (journal_start_block sb) + unat (journal_size_in_blocks sb) \<le> data_area D d"
    using assms(3) by (simp_all add: stable_def)
  have "read_block D d' [] a = read_block D d [] a"
    if a: "data_area D d \<le> unat a" "unat a < unat (next_cow_block_address sb)" for a
  proof -
    have "committed sb a" "block_in_image (image d) a"
      using L a by (auto simp: committed_def journal_layout_def block_in_image_def)
    then show ?thesis
      using i(1) i(3) [of a] assms(1,2)
      by (simp add: read_block_def read_device_block_image block_in_image_def)
  qed
  then show ?thesis
    using same_roots_simps(1) [OF assms(5)] i(2) by (simp add: kept_def mounted_state_def)
qed

lemma kept_durable:
  assumes "valid d" "valid d'" "durable D image s (dirty_cache st) d d'"
    and "next_cow_block_address s = next_free_block st"
  shows "kept D d st d' (mounted_state s)"
proof -
  have i: "length (image d') = length (image d)" "data_area D d' = data_area D d" "journal_layout (image d') s"
      "unat (journal_start_block s) + unat (journal_size_in_blocks s) \<le> data_area D d'"
      "\<And>a. unat (journal_start_block s) + unat (journal_size_in_blocks s) \<le> unat a \<Longrightarrow>
        image_block (image d') a = (case map_of (dirty_cache st) a of Some b \<Rightarrow> b | None \<Rightarrow> image_block (image d) a)"
    using assms(3) by (auto simp: durable_def stable_def data_area_def)
  have "read_block D d' [] a = read_block D d (dirty_cache st) a"
    if a: "data_area D d \<le> unat a" "unat a < unat (next_free_block st)" for a
  proof -
    have "block_in_image (image d) a"
      using i(1,3) a(2) assms(4) by (auto simp: journal_layout_def block_in_image_def)
    then show ?thesis
      using i(1,2,4) i(5) [of a] a(1) assms(1,2)
      by (simp add: read_block_def read_device_block_image block_in_image_def split: option.split)
  qed
  then show ?thesis
    using assms(4) i(2) by (simp add: kept_def mounted_state_def)
qed

end

section \<open>Any number of recoveries\<close>

text \<open>A mount reads the primary superblock and runs recovery, which may fail at any of its writes.\<close>

inductive recovery_attempts :: "'d block_device \<Rightarrow> 'd \<Rightarrow> 'd \<Rightarrow> bool" for D :: "'d block_device" where
  no_attempt: "recovery_attempts D d d"
| attempt: "recovery_attempts D d d1 \<Longrightarrow>
    read_superblock_from_device D d1 BAFS_PRIMARY_SUPERBLOCK_BLOCK_ADDRESS = Ok sb \<Longrightarrow>
    recover_journal_on_mount D (d1, sb) = (r, (d2, sb2)) \<Longrightarrow> recovery_attempts D d d2"

inductive_cases recovery_attempts_cases: "recovery_attempts D d d'"

context block_store
begin

lemma stable_unique: "stable D image d sb \<Longrightarrow> stable D image d sb' \<Longrightarrow> sb' = sb"
  by (simp add: stable_def)

lemma intact_refl: "stable D image d sb \<Longrightarrow> intact D image sb d d"
  unfolding intact_def using same_roots_refl by blast

lemma recovery_attempts_intact:
  assumes "recovery_attempts D d d'" "valid d" "stable D image d sb"
  shows "valid d' \<and> intact D image sb d d'"
  using assms
proof (induction rule: recovery_attempts.induct)
  case (no_attempt d)
  then show ?case using intact_refl by blast
next
  case (attempt d d1 sb1 r d2 sb2)
  then have v: "valid d1" "intact D image sb d d1" by blast+
  then obtain s where s: "same_roots sb s" "stable D image d1 s"
    by (auto simp: intact_def)
  then have "sb1 = s"
    using attempt.hyps(2) by (simp add: stable_def)
  then have "valid d2 \<and> intact D image s d1 d2"
    using recover_intact [OF v(1) s(2)] attempt.hyps(3) by auto
  then show ?case
    using intact_trans [OF v(2) s(1)] by blast
qed

end

section \<open>A complete record\<close>

lemma concat_chunks:
  assumes "n = chunk_count data"
  shows "concat (map snd (chunks a n data)) = data @ replicate (4096 * n - length data) 0"
  using assms
proof (induction n arbitrary: a data)
  case 0
  then have "length data + 4095 < 4096" unfolding chunk_count_def
    by (metis div_greater_zero_iff less_numeral_extra(3) not_le zero_less_numeral)
  then show ?case by simp
next
  case (Suc n)
  have n: "n = chunk_count (drop 4096 data)"
    using Suc.prems by (simp add: chunk_count_def)
  have "length data + 4095 < 4096 * (Suc n + 1)" "4096 * Suc n \<le> length data + 4095"
    using Suc.prems by (simp_all add: chunk_count_def)
  moreover have "take 4096 data @ drop 4096 data @ R = data @ R" for R :: bytes
    by (metis append.assoc append_take_drop_id)
  ultimately show ?case
    using Suc.IH [OF n, of "a + 1"]
    by (cases "length data \<le> 4096") (auto simp: write_slice_def n add.commute simp flip: replicate_add)
qed

lemma chunks_nth:
  assumes "i < n"
  shows "fst (chunks a n data ! i) = a + of_nat i"
  using assms
proof (induction n arbitrary: a data i)
  case (Suc n)
  then show ?case by (cases i) (simp_all add: algebra_simps)
qed simp


lemma journal_area_record:
  assumes "commitable img cache sb" "journal_layout img sb" "\<forall>e\<in>set W. \<forall>c\<in>set (record_chunks txid cache sb). fst e \<noteq> fst c"
    and "blocks_fit img (record_chunks txid cache sb @ W)"
    and "img' = blocks_after img (record_chunks txid cache sb @ W)"
  obtains rcd rest where "build_commit_record txid cache = Ok rcd" "journal_area img' sb = rcd @ rest"
proof -
  obtain rcd where r: "build_commit_record txid cache = Ok rcd" "length rcd = 28 + 4104 * length cache"
    by (rule commitable_record [OF assms(1)])
  let ?s = "journal_start_block sb" and ?n = "unat (journal_size_in_blocks sb)" and ?m = "chunk_count rcd"
  have R: "record_chunks txid cache sb = chunks ?s ?m rcd" by (simp add: record_chunks_def r(1))
  have m: "?m \<le> ?n"
    using assms(1) r(2) by (intro chunk_count_le) (simp add: commitable_def)
  have b: "unat ?s + ?n < 2 ^ 64"
    using assms(2) unat_bound [of "next_cow_block_address sb"] by (simp add: journal_layout_def)
  have blk: "image_block img' (?s + of_nat i) = snd (chunks ?s ?m rcd ! i)" if i: "i < ?m" for i
  proof -
    let ?c = "chunks ?s ?m rcd"
    have c: "?c ! i \<in> set ?c" using i by simp
    have "unat (?s + of_nat j) = unat ?s + j" if "j < ?m" for j
      using that m b by (intro unat_add_of_nat) simp
    then have "inj_on (\<lambda>j. ?s + of_nat j) {0..<?m}"
      by (intro inj_onI) (metis add_left_cancel atLeastLessThan_iff)
    moreover have "map fst ?c = map (\<lambda>j. ?s + of_nat j) [0..<?m]"
      by (rule nth_equalityI) (simp_all add: chunks_nth)
    ultimately have "distinct (map fst (rev ?c))"
      by (simp add: rev_map [symmetric] distinct_map)
    then have "map_of (rev ?c) (?s + of_nat i) = Some (snd (?c ! i))"
      using c chunks_nth [OF i, of ?s rcd] by (intro map_of_is_SomeI) (metis prod.collapse set_rev)+
    moreover have "?s + of_nat i \<notin> fst ` set W"
      using assms(3) c chunks_nth [OF i, of ?s rcd] unfolding R by force
    ultimately have "map_of (rev (?c @ W)) (?s + of_nat i) = Some (snd (?c ! i))"
      by (simp add: map_add_def map_of_eq_None_iff [THEN iffD2])
    then show ?thesis
      unfolding assms(5) using assms(4) by (simp add: image_blocks_after R)
  qed
  have "journal_area img' sb = concat (map (\<lambda>i. image_block img' (?s + of_nat i)) [0..<?n])"
    by (rule journal_area_blocks [OF b])
  also have "[0..<?n] = [0..<?m] @ [?m..<?n]"
    using m by (metis le_add_diff_inverse upt_add_eq_append zero_le)
  also have "map (\<lambda>i. image_block img' (?s + of_nat i)) ([0..<?m] @ [?m..<?n])
      = map snd (chunks ?s ?m rcd) @ map (\<lambda>i. image_block img' (?s + of_nat i)) [?m..<?n]"
    using blk by (auto intro!: nth_equalityI)
  finally show thesis
    using that [OF r(1)] concat_chunks [OF refl, of ?s rcd] by simp
qed


section \<open>Commit and then recovery\<close>

context block_store
begin

lemma commit_success:
  assumes "valid d" "stable D image d sb" "transaction_fits (image d) sb sb' cache"
    and "commit_transaction D \<lparr>transaction_id = txid\<rparr> cache (d, sb') = (r, (d1, s))"
  shows "valid d1" "total_sector_count D d1 = total_sector_count D d" "written image d (commit_writes txid cache sb') r d1"
    "r = Ok () \<Longrightarrow> s = seal_with_checksum (sb'\<lparr>last_committed_transaction_id := txid\<rparr>) \<and> durable D image s cache d d1"
proof -
  have L: "journal_layout (image d) sb'"
    using transaction_layout [OF assms(3)] assms(2) by (simp add: stable_def)
  have c: "commitable (image d) cache sb'" "wf_superblock sb'"
    using assms(3) by (simp_all add: transaction_fits_def acceptable_superblock_def)
  have w: "valid d1" "total_sector_count D d1 = total_sector_count D d"
      "written image d (commit_writes txid cache sb') r d1"
      "r = Ok () \<Longrightarrow> s = seal_with_checksum (sb'\<lparr>last_committed_transaction_id := txid\<rparr>)"
    using commit_written [OF assms(1) c(1) L c(2), of txid] assms(4) by auto
  then show "valid d1" "total_sector_count D d1 = total_sector_count D d" "written image d (commit_writes txid cache sb') r d1"
    by simp_all
  show "r = Ok () \<Longrightarrow> s = seal_with_checksum (sb'\<lparr>last_committed_transaction_id := txid\<rparr>) \<and> durable D image s cache d d1"
    using commit_durable [OF assms(1-3), of txid d1] w by simp
qed

lemma commit_result:
  assumes "valid d" "stable D image d sb" "transaction_ok (image d) sb sb' cache"
    and "commit_transaction D \<lparr>transaction_id = txid\<rparr> cache (d, sb') = (r, (d1, s))"
  shows "valid d1 \<and> (r = Ok () \<and> s = seal_with_checksum (sb'\<lparr>last_committed_transaction_id := txid\<rparr>) \<and>
      durable D image s cache d d1 \<or> r = Err InputOutputError \<and> intact D image sb d d1)"
proof -
  have F: "transaction_fits (image d) sb sb' cache" using assms(3) by (simp add: transaction_ok_def)
  note w = commit_success [OF assms(1,2) F assms(4)]
  show ?thesis
    using w commit_intact [OF assms(1-3), of txid _ d1] by (cases rule: written_cases [OF w(3)]) auto
qed

lemma attempts_kept:
  assumes "valid d" "stable D image d sb" "recovery_attempts D d d'"
  obtains s where "valid d'" "stable D image d' s" "same_roots sb s" "kept D d (mounted_state sb) d' (mounted_state s)"
proof -
  have v: "valid d'" "intact D image sb d d'"
    using recovery_attempts_intact [OF assms(3,1,2)] by blast+
  then obtain s where s: "same_roots sb s" "stable D image d' s" by (auto simp: intact_def)
  show thesis
    using that [OF v(1) s(2,1)] kept_intact [OF assms(1) v(1) assms(2) v(2) s(1)] by blast
qed

lemma commit_then_recover:
  assumes "valid d" "stable D image d sb" "transaction_ok (image d) sb sb' cache"
    and "commit_transaction D \<lparr>transaction_id = txid\<rparr> cache (d, sb') = (r, (d1, s))" "recovery_attempts D d1 d2"
  shows "\<exists>s2. valid d2 \<and> stable D image d2 s2 \<and>
    (r = Ok () \<and> same_roots sb' s2 \<and>
       kept D d \<lparr>dirty_cache = cache, next_free_block = next_cow_block_address sb', freed_blocks = []\<rparr> d2 (mounted_state s2) \<or>
     r = Err InputOutputError \<and> same_roots sb s2 \<and> kept D d (mounted_state sb) d2 (mounted_state s2))"
proof -
  let ?st = "\<lparr>dirty_cache = cache, next_free_block = next_cow_block_address sb', freed_blocks = []\<rparr>"
  have v: "valid d1" using commit_result [OF assms(1-4)] by blast
  consider (new) "r = Ok ()" "s = seal_with_checksum (sb'\<lparr>last_committed_transaction_id := txid\<rparr>)" "durable D image s cache d d1"
    | (old) "r = Err InputOutputError" "intact D image sb d d1"
    using commit_result [OF assms(1-4)] by blast
  then show ?thesis
  proof cases
    case new
    have sr: "same_roots sb' s" unfolding new(2) by (rule same_roots_seal)
    have st: "stable D image d1 s" using new(3) by (simp add: durable_def)
    obtain s2 where s2: "valid d2" "stable D image d2 s2" "same_roots s s2" "kept D d1 (mounted_state s) d2 (mounted_state s2)"
      by (rule attempts_kept [OF v st assms(5)])
    have "kept D d ?st d1 (mounted_state s)"
      using kept_durable [OF assms(1) v, of s ?st] new(3) same_roots_simps(1) [OF sr] by simp
    from kept_trans [OF this s2(4)] show ?thesis
      using s2(1,2) new(1) same_roots_trans [OF sr s2(3)] by (intro exI [of _ s2] conjI disjI1)
  next
    case old
    then obtain s1 where s1: "same_roots sb s1" "stable D image d1 s1" by (auto simp: intact_def)
    obtain s2 where s2: "valid d2" "stable D image d2 s2" "same_roots s1 s2" "kept D d1 (mounted_state s1) d2 (mounted_state s2)"
      by (rule attempts_kept [OF v s1(2) assms(5)])
    have "kept D d (mounted_state sb) d1 (mounted_state s1)"
      by (rule kept_intact [OF assms(1) v assms(2) old(2) s1(1)])
    from kept_trans [OF this s2(4)] show ?thesis
      using s2(1,2) old(1) same_roots_trans [OF s1(1) s2(3)] by (intro exI [of _ s2] conjI disjI2)
  qed
qed

end

section \<open>The properties\<close>

text \<open>C37: a commit is atomic and durable across crashes. Let a device, whose failing writes have no
  effect, hold a stable superblock, and
  let a transaction fit it: it has between one and 509 blocks, all of them distinct, at or above the
  bump pointer of that superblock and inside the device, its record fits the journal area, and the
  bump pointer it leaves is inside the device. (With at most 509 blocks the record's header and
  addresses are in the first journal block, so that a record cut short names no block of the old
  state.) Whatever write of the commit fails, and after any number of later recoveries that may fail as well, a mount finds either the old roots and
  every tree of the old superblock (when the commit reported an error), or the new roots and every
  tree that the transaction had in its cache (when it reported success).\<close>

theorem commit_crash_safe:
  fixes img :: "'d \<Rightarrow> bytes"
  assumes "block_store D valid img" "valid d" "stable D img d sb"
    and fits: "transaction_fits (img d) sb sb' cache" "length cache \<le> 509"
    and commit: "commit_transaction D \<lparr>transaction_id = txid\<rparr> cache (d, sb') = (r, (d1, s))"
      "recovery_attempts D d1 d2"
  shows "\<exists>s2. read_superblock_from_device D d2 BAFS_PRIMARY_SUPERBLOCK_BLOCK_ADDRESS = Ok s2 \<and>
    (r = Ok () \<and> same_roots sb' s2 \<and>
       (\<forall>Q lo root its. tree_at Q lo D d \<lparr>dirty_cache = cache, next_free_block = next_cow_block_address sb', freed_blocks = []\<rparr> root its
          \<longrightarrow> tree_at Q lo D d2 (mounted_state s2) root its) \<or>
     r = Err InputOutputError \<and> same_roots sb s2 \<and>
       (\<forall>Q lo root its. tree_at Q lo D d (mounted_state sb) root its \<longrightarrow> tree_at Q lo D d2 (mounted_state s2) root its))"
proof -
  have ok: "transaction_ok (img d) sb sb' cache"
    using fits by (simp add: transaction_ok_def)
  obtain s2 where s2: "stable D img d2 s2" and
      "r = Ok () \<and> same_roots sb' s2 \<and>
         kept D d \<lparr>dirty_cache = cache, next_free_block = next_cow_block_address sb', freed_blocks = []\<rparr> d2 (mounted_state s2) \<or>
       r = Err InputOutputError \<and> same_roots sb s2 \<and> kept D d (mounted_state sb) d2 (mounted_state s2)"
    using block_store.commit_then_recover [OF assms(1-3) ok commit] by (elim exE conjE)
  from this(2) show ?thesis
  proof (elim disjE conjE)
    assume "r = Ok ()" "same_roots sb' s2" and
      k: "kept D d \<lparr>dirty_cache = cache, next_free_block = next_cow_block_address sb', freed_blocks = []\<rparr> d2 (mounted_state s2)"
    then show ?thesis
      using s2 kept_tree [OF k] unfolding stable_def by (intro exI [of _ s2]) simp
  next
    assume "r = Err InputOutputError" "same_roots sb s2" and k: "kept D d (mounted_state sb) d2 (mounted_state s2)"
    then show ?thesis
      using s2 kept_tree [OF k] unfolding stable_def by (intro exI [of _ s2]) simp
  qed
qed

context reliable_store
begin

lemma write_blocks_done:
  "valid d \<Longrightarrow> blocks_fit (image d) bs \<Longrightarrow> \<exists>d'. write_blocks D bs d = (Ok (), d')"
proof (induction bs arbitrary: d)
  case (Cons b bs)
  obtain d1 where "write_device_block D (fst b) (snd b) d = (Ok (), d1)" "valid d1"
      "image d1 = set_image_block (image d) (fst b) (snd b)"
    using write_device_block_done [of d "fst b" "snd b"] Cons.prems by auto
  with Cons.IH [of d1] Cons.prems(2) show ?case by auto
qed simp

lemma write_superblock_done:
  assumes "valid d" "block_in_image (image d) 1" "block_in_image (image d) 2" "wf_superblock sb"
  shows "\<exists>d'. write_superblock_to_device D (d, sb) = (Ok (), (d', seal_with_checksum sb)) \<and> valid d' \<and>
    total_sector_count D d' = total_sector_count D d \<and> image d' = blocks_after (image d) (superblock_writes sb)"
proof -
  let ?b = "superblock_block (serialise_superblock_to_bytes (seal_with_checksum sb))"
  have len: "length ?b = 4096" using assms(4) by simp
  obtain d1 where 1: "write_device_block D 2 ?b d = (Ok (), d1)" "valid d1" "image d1 = set_image_block (image d) 2 ?b"
      "total_sector_count D d1 = total_sector_count D d"
    using write_device_block_done [OF assms(1,3) len] by blast
  have "block_in_image (image d1) 1" using 1(3) assms(2,3) len by simp
  from write_device_block_done [OF 1(2) this len] 1 show ?thesis
    by (auto simp: write_superblock_to_device_def on_device_def bindS_def len superblock_writes_def Let_def
        BAFS_BACKUP_SUPERBLOCK_BLOCK_ADDRESS_def BAFS_PRIMARY_SUPERBLOCK_BLOCK_ADDRESS_def)
qed

lemma recover_done:
  assumes "valid d" "journal_layout (image d) sb" "journal_safe (image d) sb" "wf_superblock sb"
    and "parse_commit_record (journal_area (image d) sb) (last_committed_transaction_id sb) = Some (txid, bs)"
  shows "fst (recover_journal_on_mount D (d, sb)) = Ok True"
proof -
  let ?s = "sb\<lparr>last_committed_transaction_id := txid\<rparr>"
  have fit: "blocks_fit (image d) bs"
    by (rule journal_safe_fit(1) [OF assms(3,5)])
  obtain d1 where w: "write_blocks D bs d = (Ok (), d1)" "valid d1" "image d1 = blocks_after (image d) bs"
    using write_blocks_done [OF assms(1) fit] write_blocks_written [OF assms(1) fit] by (auto simp: written_def)
  have "block_in_image (image d1) 1" "block_in_image (image d1) 2"
    using journal_layout_blocks(1,2) [OF assms(2)] fit w(3) by (simp_all add: block_in_blocks_after)
  moreover have "wf_superblock ?s"
    using assms(4) by (simp add: wf_superblock_def)
  ultimately obtain d2 where "write_superblock_to_device D (d1, ?s) = (Ok (), (d2, seal_with_checksum ?s))"
    using write_superblock_done [OF w(2)] by blast
  then show ?thesis
    using w(1) assms(5) read_journal_area_image [OF assms(1,2)]
    by (simp add: recover_journal_on_mount_def bindS_def getS_def on_device_eq modifyS_def set_last_committed_def retS_def)
qed

end

context block_store
begin

lemma replayed_on_disk:
  assumes "valid d2" "journal_layout (image d1) sb" "blocks_fit (image d1) cache"
    and "cache_ok cache \<and> (\<forall>e\<in>set cache. 3 \<le> unat (fst e))" "acceptable_superblock s"
    and "image d2 = blocks_after (image d1) (cache @ superblock_writes s)"
  shows "\<forall>(a, b)\<in>set cache. read_device_block D d2 a = Ok b"
    "read_superblock_from_device D d2 BAFS_PRIMARY_SUPERBLOCK_BLOCK_ADDRESS = Ok (seal_with_checksum s)"
proof -
  have fit: "blocks_fit (image d1) (cache @ superblock_writes s)"
    using assms(3,5) journal_layout_blocks(1,2) [OF assms(2)]
    by (auto simp: blocks_fit_def superblock_writes_def Let_def acceptable_superblock_def)
  show "read_superblock_from_device D d2 BAFS_PRIMARY_SUPERBLOCK_BLOCK_ADDRESS = Ok (seal_with_checksum s)"
    using superblock_written_read(1) [OF assms(1,5) fit assms(6)] by (simp add: BAFS_PRIMARY_SUPERBLOCK_BLOCK_ADDRESS_def)
  have "read_device_block D d2 a = Ok b" if e: "(a, b) \<in> set cache" for a b
  proof -
    have "map_of cache a = Some b"
      using e assms(4) by (auto simp: cache_ok_def strict_sorted_iff)
    moreover have "a \<notin> fst ` set (superblock_writes s)"
      using e assms(4) unfolding superblock_writes_addresses by fastforce
    ultimately have "map_of (rev (cache @ superblock_writes s)) a = Some b"
      using assms(4) by (simp add: map_add_def map_of_eq_None_iff [THEN iffD2] map_of_rev_sorted)
    then have "image_block (image d2) a = b"
      unfolding assms(6) by (simp add: image_blocks_after [OF fit])
    moreover have "block_in_image (image d2) a"
      unfolding assms(6) block_in_blocks_after [OF fit] using e assms(3) by (auto simp: blocks_fit_def)
    ultimately show ?thesis
      using read_device_block_image [OF assms(1)] by simp
  qed
  then show "\<forall>(a, b)\<in>set cache. read_device_block D d2 a = Ok b" by blast
qed

lemma journaled_parse:
  assumes "valid d" "stable D image d sb" "transaction_fits (image d) sb sb' cache"
    and "build_commit_record txid cache = Ok rcd" "write_bytes_to_journal D sb' rcd d = (Ok (), da)"
    and "write_blocks D cache da = (rb, d1)" "last_committed_transaction_id sb < txid"
  shows "valid d1" "length (image d1) = length (image d)"
    "parse_commit_record (journal_area (image d1) sb) (last_committed_transaction_id sb) = Some (txid, cache)"
proof -
  let ?R = "record_chunks txid cache sb'"
  have L: "journal_layout (image d) sb" using assms(2) by (simp add: stable_def)
  have L': "journal_layout (image d) sb'" by (rule transaction_layout [OF assms(3) L])
  have c: "commitable (image d) cache sb'" and j: "journal_start_block sb' = journal_start_block sb"
      "journal_size_in_blocks sb' = journal_size_in_blocks sb"
    using assms(3) by (simp_all add: transaction_fits_def)
  have "fst e \<noteq> fst c" if "e \<in> set cache" "c \<in> set ?R" for e c
    using record_chunks_addresses [OF c L' that(2)] assms(3) L that(1)
    by (fastforce simp: transaction_fits_def journal_layout_def)
  then have ne: "\<forall>e\<in>set cache. \<forall>c\<in>set ?R. fst e \<noteq> fst c" by blast
  have fit: "blocks_fit (image d) (?R @ cache)"
    using transaction_addresses(5,6) [OF assms(3) L] by (auto simp: blocks_fit_def)
  have a: "valid da" "written image d ?R (Ok ()) da"
    using write_record_written [OF assms(1) c L' assms(4)] assms(5) by auto
  then have "image da = blocks_after (image d) ?R" by (auto simp: written_def)
  then have "blocks_fit (image da) cache"
    using fit by (subst \<open>image da = _\<close>, subst blocks_fit_after) (auto simp: blocks_fit_def)
  from write_blocks_written [OF a(1) this]
  have b: "valid d1" "written image da cache rb d1"
    using assms(6) by auto
  then obtain k where i: "image d1 = blocks_after (image d) (?R @ take k cache)"
    using a(2) by (auto simp: written_def blocks_after_append)
  have fit_k: "blocks_fit (image d) (?R @ take k cache)"
    using fit by (auto simp: blocks_fit_def dest: in_set_takeD)
  have ne_k: "\<forall>e\<in>set (take k cache). \<forall>c\<in>set ?R. fst e \<noteq> fst c"
    using ne by (meson in_set_takeD)
  show "valid d1" "length (image d1) = length (image d)"
    using b(1) i fit_k by (simp_all add: length_blocks_after)
  obtain rcd' rest where r: "build_commit_record txid cache = Ok rcd'" "journal_area (image d1) sb' = rcd' @ rest"
    by (rule journal_area_record [OF c L' ne_k fit_k i])
  have "length cache < 2 ^ 32" "\<forall>e\<in>set cache. length (snd e) = 4096"
    using c by (auto simp: commitable_def blocks_fit_def)
  from parse_record [OF this assms(7) r(1)] have "parse_commit_record (journal_area (image d1) sb')
      (last_committed_transaction_id sb) = Some (txid, cache)" by (simp add: r(2))
  then show "parse_commit_record (journal_area (image d1) sb) (last_committed_transaction_id sb) = Some (txid, cache)"
    by (simp add: journal_area_def j)
qed

end

text \<open>C40: recovery replays a journaled transaction without its roots. Let the commit record of a
  transaction that fits the device be written, and let the crash come at any later point before the
  superblock is written, so that any number of its blocks are on disk. Recovery then finds the record.
  Unless one of its writes fails (none does on a reliable device) it reports a replay and has every
  block of the transaction on disk; but the superblock that it leaves keeps the roots, the counters
  and the bump pointer of the old one, so that the volume is in the state before the transaction.\<close>

theorem recovery_keeps_old_roots:
  fixes img :: "'d \<Rightarrow> bytes"
  assumes "block_store D valid img" "valid d" "stable D img d sb" "transaction_fits (img d) sb sb' cache"
    and "build_commit_record txid cache = Ok rcd" "write_bytes_to_journal D sb' rcd d = (Ok (), da)"
    and "write_blocks D cache da = (rb, d1)" "last_committed_transaction_id sb < txid"
  shows "\<exists>r d2 s. recover_journal_on_mount D (d1, sb) = (r, (d2, s)) \<and>
    (r = Ok True \<or> r = Err InputOutputError \<and> \<not> reliable_store D valid img) \<and>
    (r = Ok True \<longrightarrow> (\<forall>(a, b)\<in>set cache. read_device_block D d2 a = Ok b) \<and>
      read_superblock_from_device D d2 BAFS_PRIMARY_SUPERBLOCK_BLOCK_ADDRESS = Ok s \<and>
      s = seal_with_checksum (sb\<lparr>last_committed_transaction_id := txid\<rparr>) \<and> same_roots sb s)"
proof -
  let ?s = "sb\<lparr>last_committed_transaction_id := txid\<rparr>"
  note p = block_store.journaled_parse [OF assms(1-8)]
  have L: "journal_layout (img d1) sb"
    using journal_layout_length [of "img d" sb "img d1"] assms(3) p(2) by (simp add: stable_def)
  have S: "journal_safe (img d1) sb"
    using p(2,3) assms(4)
    by (auto simp: journal_safe_def transaction_fits_def commitable_def blocks_fit_def block_in_image_def)
  have acc: "acceptable_superblock sb"
    using block_store.read_superblock_acceptable [OF assms(1,2), of 1 sb] journal_layout_blocks(1) assms(3)
    by (auto simp: stable_def BAFS_PRIMARY_SUPERBLOCK_BLOCK_ADDRESS_def)
  then have wf: "wf_superblock sb" by (simp add: acceptable_superblock_def)
  obtain r d2 s where r: "recover_journal_on_mount D (d1, sb) = (r, (d2, s))" "valid d2"
      "r = Ok True \<and> s = seal_with_checksum ?s \<and> written img d1 (cache @ superblock_writes ?s) (Ok ()) d2 \<or> r = Err InputOutputError"
    using block_store.recover_written [OF assms(1) p(1) L S wf p(3)] by blast
  have "r = Ok True" if "reliable_store D valid img"
    using reliable_store.recover_done [OF that p(1) L S wf p(3)] r(1) by simp
  moreover have "(\<forall>(a, b)\<in>set cache. read_device_block D d2 a = Ok b) \<and>
      read_superblock_from_device D d2 BAFS_PRIMARY_SUPERBLOCK_BLOCK_ADDRESS = Ok s \<and>
      s = seal_with_checksum ?s \<and> same_roots sb s" if "r = Ok True"
  proof -
    have s: "s = seal_with_checksum ?s" and i: "img d2 = blocks_after (img d1) (cache @ superblock_writes ?s)"
      using r(3) that by (auto simp: written_def)
    have "acceptable_superblock ?s" using acc by (simp add: acceptable_superblock_def wf_superblock_def)
    moreover have "blocks_fit (img d1) cache" "cache_ok cache \<and> (\<forall>e\<in>set cache. 3 \<le> unat (fst e))"
      using assms(4) p(2) L
      by (fastforce simp: transaction_fits_def commitable_def blocks_fit_def block_in_image_def journal_layout_def)+
    ultimately show ?thesis
      using block_store.replayed_on_disk [OF assms(1) r(2) L _ _ _ i] s same_roots_seal [of sb txid] by blast
  qed
  ultimately show ?thesis using r(1,3) by blast
qed

section \<open>An example volume\<close>

definition crash_sb :: bafs_superblock where
  "crash_sb = sample_superblock\<lparr>journal_start_block := 3, journal_size_in_blocks := 256,
     next_cow_block_address := 262, last_committed_transaction_id := 1\<rparr>"

definition crash_disk :: memory_disk where
  "crash_disk = \<lparr>disk_data = blocks_after (replicate 1228800 0) (superblock_writes crash_sb), disk_total_sectors = 2400\<rparr>"

definition crash_txn :: dirty_cache where
  "crash_txn = [(262, replicate 4096 7)]"

lemma crash_sb: "acceptable_superblock crash_sb" "wf_superblock crash_sb"
  using acceptable_sample by (simp_all add: crash_sb_def acceptable_superblock_def wf_superblock_def)

lemma crash_writes: "blocks_fit (replicate 1228800 0) (superblock_writes crash_sb)"
  using crash_sb(2) by (simp add: superblock_writes_def Let_def block_in_image_def)

lemma crash_length: "length (disk_data crash_disk) = 1228800"
  using length_blocks_after [OF crash_writes] by (simp add: crash_disk_def)

lemma crash_valid: "md_valid crash_disk"
  using crash_length by (simp add: md_valid_def) (simp add: crash_disk_def)

lemma crash_read: "read_superblock_from_device memory_device crash_disk 1 = Ok (seal_with_checksum crash_sb)"
proof (rule memory_store.superblock_written_read(1) [where W = "[]" and d = "\<lparr>disk_data = replicate 1228800 0, disk_total_sectors = 2400\<rparr>"])
  show "md_valid crash_disk" "acceptable_superblock crash_sb" by (rule crash_valid crash_sb)+
  show "blocks_fit (disk_data \<lparr>disk_data = replicate 1228800 0, disk_total_sectors = 2400\<rparr>) ([] @ superblock_writes crash_sb)"
    using crash_writes by simp
qed (simp add: crash_disk_def)

lemma crash_layout: "journal_layout (replicate 1228800 0) (seal_with_checksum crash_sb)"
    "journal_layout (disk_data crash_disk) (seal_with_checksum crash_sb)"
  using crash_length by (simp_all add: journal_layout_def seal_with_checksum_def crash_sb_def)

lemma crash_journal: "journal_safe (disk_data crash_disk) (seal_with_checksum crash_sb)"
proof -
  let ?s = "seal_with_checksum crash_sb"
  have "journal_area (disk_data crash_disk) ?s = journal_area (replicate 1228800 0) ?s"
  proof (rule journal_area_cong [OF crash_layout(1) refl refl])
    fix a :: u64 assume "unat (journal_start_block ?s) \<le> unat a"
    then have "a \<notin> fst ` set (superblock_writes crash_sb)"
      unfolding superblock_writes_addresses by (auto simp: seal_with_checksum_def crash_sb_def)
    then show "image_block (disk_data crash_disk) a = image_block (replicate 1228800 0) a"
      unfolding crash_disk_def by (simp add: image_blocks_other [OF crash_writes])
  qed
  moreover have "slice 0 8 (journal_area (replicate 1228800 (0 :: u8)) ?s) = replicate 8 0"
    by (simp add: journal_area_def slice_def seal_with_checksum_def crash_sb_def)
  moreover have "replicate 8 0 \<noteq> JOURNAL_COMMIT_RECORD_MAGIC"
  proof
    assume "replicate 8 0 = JOURNAL_COMMIT_RECORD_MAGIC"
    then have "hd (replicate 8 (0 :: u8)) = hd JOURNAL_COMMIT_RECORD_MAGIC" by simp
    then show False by (simp add: JOURNAL_COMMIT_RECORD_MAGIC_def)
  qed
  ultimately show ?thesis
    by (simp add: journal_safe_def parse_commit_record_def)
qed

lemma crash_stable: "stable memory_device disk_data crash_disk (seal_with_checksum crash_sb)"
proof -
  have "data_area memory_device crash_disk = 259"
    by (simp add: data_area_def memory_device_def crash_disk_def compute_data_area_start_block_def
        compute_journal_size_in_blocks_def BAFS_JOURNAL_SIZE_MIN_BLOCKS_def BAFS_JOURNAL_SIZE_MAX_BLOCKS_def
        BAFS_JOURNAL_START_BLOCK_ADDRESS_def Let_def)
  moreover have "unat (journal_start_block (seal_with_checksum crash_sb)) + unat (journal_size_in_blocks (seal_with_checksum crash_sb)) = 259"
    by (simp add: seal_with_checksum_def crash_sb_def)
  ultimately show ?thesis
    using crash_layout(2) crash_journal crash_read by (simp add: stable_def BAFS_PRIMARY_SUPERBLOCK_BLOCK_ADDRESS_def)
qed

lemma crash_transaction:
  "transaction_ok (disk_data crash_disk) (seal_with_checksum crash_sb)
     (crash_sb\<lparr>next_cow_block_address := 263\<rparr>) crash_txn"
  using crash_length crash_sb
  by (simp add: transaction_ok_def transaction_fits_def commitable_def blocks_fit_def block_in_image_def cache_ok_def crash_txn_def)
    (simp add: seal_with_checksum_def crash_sb_def acceptable_superblock_def wf_superblock_def)


lemmas crash_fits = crash_transaction [unfolded transaction_ok_def, THEN conjunct1]
  crash_transaction [unfolded transaction_ok_def, THEN conjunct2]

theorem commit_crash_safe_witness:
  "\<exists>r d1 s d2 s2. commit_transaction memory_device \<lparr>transaction_id = 2\<rparr> crash_txn
        (crash_disk, crash_sb\<lparr>next_cow_block_address := 263\<rparr>) = (r, (d1, s)) \<and>
     recovery_attempts memory_device d1 d2 \<and>
     read_superblock_from_device memory_device d2 BAFS_PRIMARY_SUPERBLOCK_BLOCK_ADDRESS = Ok s2 \<and>
     (r = Ok () \<and> same_roots (crash_sb\<lparr>next_cow_block_address := 263\<rparr>) s2 \<or>
      r = Err InputOutputError \<and> same_roots (seal_with_checksum crash_sb) s2)"
proof -
  obtain r d1 s where c: "commit_transaction memory_device \<lparr>transaction_id = 2\<rparr> crash_txn
      (crash_disk, crash_sb\<lparr>next_cow_block_address := 263\<rparr>) = (r, (d1, s))"
    by (metis prod.collapse)
  have a: "recovery_attempts memory_device d1 d1" by (rule no_attempt)
  show ?thesis
    using commit_crash_safe [OF memory_store.block_store_axioms crash_valid crash_stable crash_fits c a] c a
    by blast
qed

theorem recovery_keeps_old_roots_witness:
  "\<exists>rcd da d1 d2 s. build_commit_record 2 crash_txn = Ok rcd \<and>
     write_bytes_to_journal memory_device (crash_sb\<lparr>next_cow_block_address := 263\<rparr>) rcd crash_disk = (Ok (), da) \<and>
     write_blocks memory_device crash_txn da = (Ok (), d1) \<and>
     recover_journal_on_mount memory_device (d1, seal_with_checksum crash_sb) = (Ok True, (d2, s)) \<and>
     read_device_block memory_device d2 262 = Ok (replicate 4096 7) \<and> next_cow_block_address s = 262"
proof -
  let ?sb = "seal_with_checksum crash_sb" and ?sb' = "crash_sb\<lparr>next_cow_block_address := 263\<rparr>"
  have f: "transaction_fits (disk_data crash_disk) ?sb ?sb' crash_txn"
    using crash_transaction by (simp add: transaction_ok_def)
  then have c: "commitable (disk_data crash_disk) crash_txn ?sb'" by (simp add: transaction_fits_def)
  obtain rcd where r: "build_commit_record 2 crash_txn = Ok rcd"
    by (rule commitable_record [OF c])
  have L: "journal_layout (disk_data crash_disk) ?sb'"
    using crash_layout(2) crash_length by (simp add: journal_layout_def) (simp add: seal_with_checksum_def crash_sb_def)
  obtain da where da: "write_bytes_to_journal memory_device ?sb' rcd crash_disk = (Ok (), da)"
    using memory_store.write_blocks_done [OF crash_valid record_chunks_fit [OF c L]]
      write_record_blocks [OF c L r, of memory_device crash_disk] by metis
  then have w: "md_valid da" "written disk_data crash_disk (record_chunks 2 crash_txn ?sb') (Ok ()) da"
    using memory_store.write_record_written [OF crash_valid c L r] by auto
  have "length (disk_data da) = length (disk_data crash_disk)"
    by (rule written_frame(1) [OF w(2) record_chunks_fit [OF c L]])
  with w(1) obtain d1 where d1: "write_blocks memory_device crash_txn da = (Ok (), d1)"
    using memory_store.write_blocks_done [of da crash_txn] crash_length
    by (auto simp: crash_txn_def blocks_fit_def block_in_image_def)
  have "last_committed_transaction_id ?sb < 2" "next_cow_block_address ?sb = 262"
    by (simp_all add: seal_with_checksum_def crash_sb_def)
  with recovery_keeps_old_roots [OF memory_store.block_store_axioms crash_valid crash_stable f r da d1] r da d1
    memory_store.reliable_store_axioms
  show ?thesis by (auto simp: crash_txn_def same_roots_def)
qed

end
