(* ===== verification/Volume.thy ===== *)
theory Volume
  imports Checksum_Tree Extent Dir Journal_Recovery
begin

text \<open>
  \<open>volume.rs\<close>: formatting, mounting, committing, and the file and directory operations of a mounted
  volume.

  The state is the struct \<open>BafsVolume\<close>. The tree functions work on the dirty cache, the bump pointer and
  a local vector of freed blocks; \<open>on_volume\<close> runs them on the fields of a volume. Two bounds are
  arguments of the operations: \<open>fuel\<close> for the depth of the trees and \<open>rounds\<close> for the recursion of
  \<open>return_freed_cow_blocks_to_free_extent_tree\<close>.
\<close>

section \<open>The volume\<close>

record bafs_format_options =
  volume_uuid_lower :: u64
  option_label :: bytes

definition default_format_options :: bafs_format_options where
  "default_format_options =
     \<lparr>volume_uuid_lower = 0xBAF5000100000001,
      option_label = [0x42, 0x41, 0x46, 0x53, 0x20, 0x56, 0x6F, 0x6C, 0x75, 0x6D, 0x65] @ replicate 21 0\<rparr>"

record 'd bafs_volume =
  device :: 'd
  superblock :: bafs_superblock
  dirty_block_cache :: dirty_cache
  next_transaction_id :: u64
  volume_next_free_block :: u64

definition cow_of :: "u64 list \<Rightarrow> 'd bafs_volume \<Rightarrow> cow_state" where
  "cow_of freed vol = \<lparr>dirty_cache = dirty_block_cache vol, next_free_block = volume_next_free_block vol,
     freed_blocks = freed\<rparr>"

definition on_volume :: "('d \<Rightarrow> (cow_state, 'a) sop) \<Rightarrow> u64 list \<Rightarrow> ('d bafs_volume, 'a \<times> u64 list) sop" where
  "on_volume m freed vol =
     (case m (device vol) (cow_of freed vol) of
        (r, st) \<Rightarrow> (bindR r (\<lambda>x. Ok (x, freed_blocks st)),
          vol\<lparr>dirty_block_cache := dirty_cache st, volume_next_free_block := next_free_block st\<rparr>))"

definition set_superblock :: "(bafs_superblock \<Rightarrow> bafs_superblock) \<Rightarrow> ('d bafs_volume, unit) sop" where
  "set_superblock f = modifyS (\<lambda>vol. vol\<lparr>superblock := f (superblock vol)\<rparr>)"

section \<open>Format\<close>

text \<open>Steps (1) to (5b): the trees of a new volume, built in a dirty cache. The sums of the layout stay
  far below \<open>2 ^ 64\<close> (\<open>layout_bounds\<close>).\<close>

definition format_trees ::
  "nat \<Rightarrow> 'd block_device \<Rightarrow> 'd \<Rightarrow> u64 \<Rightarrow> u64 \<Rightarrow> (cow_state, u64 \<times> u64 \<times> u64) sop" where
  "format_trees fuel D dev total_blocks data_area_start =
     bindS (create_empty_tree data_area_start 1) (\<lambda>_.
     bindS (create_empty_tree (data_area_start + 1) 1) (\<lambda>_.
     bindS (create_empty_tree (data_area_start + 2) 1) (\<lambda>_.
     bindS (write_inode_to_tree fuel D dev data_area_start (new_directory BAFS_ROOT_INODE_NUMBER 1 0) 1) (\<lambda>inode_root.
     bindS (getS next_free_block) (\<lambda>free_start_first_attempt.
     let free_count_first_attempt = saturating_sub total_blocks free_start_first_attempt in
     if free_count_first_attempt = 0 then failS OutOfSpace
     else
       bindS (insert_free_extent_into_tree fuel D dev (data_area_start + 1) free_start_first_attempt
         free_count_first_attempt 1) (\<lambda>free_extent_root.
       bindS (getS next_free_block) (\<lambda>next_free.
       if free_start_first_attempt < next_free then
         bindS (delete_from_tree fuel D dev free_extent_root
           (BafsKey BAFS_FREE_EXTENT_OBJECT_ID ITEM_TYPE_EXTENT_DATA free_start_first_attempt) 1) (\<lambda>free_extent_root.
         bindS (getS next_free_block) (\<lambda>free_start_final.
         let free_count_final = saturating_sub total_blocks free_start_final in
         if 0 < free_count_final then
           bindS (insert_free_extent_into_tree fuel D dev free_extent_root free_start_final free_count_final 1)
             (\<lambda>free_extent_root. retS (inode_root, free_extent_root, data_area_start + 2))
         else retS (inode_root, free_extent_root, data_area_start + 2)))
       else retS (inode_root, free_extent_root, data_area_start + 2))))))))"

definition label_words :: "bytes \<Rightarrow> u64 \<times> u64 \<times> u64 \<times> u64" where
  "label_words label = (from_le (slice 0 8 label), from_le (slice 8 16 label),
     from_le (slice 16 24 label), from_le (slice 24 32 label))"

definition format_superblock :: "bafs_format_options \<Rightarrow> u64 \<Rightarrow> u64 \<times> u64 \<times> u64 \<Rightarrow> u64 \<Rightarrow> bafs_superblock" where
  "format_superblock options total_blocks = (\<lambda>(inode_root, free_extent_root, checksum_root) next_free.
     \<lparr>magic_number = BAFS_MAGIC_NUMBER, version = BAFS_SUPPORTED_VERSION,
      block_size_in_bytes = BAFS_DEFAULT_BLOCK_SIZE_BYTES, total_block_count = total_blocks,
      free_block_count = saturating_sub total_blocks next_free, allocated_inode_count = 1,
      last_committed_transaction_id = 1, root_inode_number = BAFS_ROOT_INODE_NUMBER,
      inode_tree_root_block = inode_root, free_extent_tree_root_block = free_extent_root,
      checksum_tree_root_block = checksum_root, journal_start_block = BAFS_JOURNAL_START_BLOCK_ADDRESS,
      journal_size_in_blocks = compute_journal_size_in_blocks total_blocks,
      volume_uuid = (volume_uuid_lower options, 0), volume_label = label_words (option_label options),
      feature_flags = 0, checksum_algorithm = BAFS_CHECKSUM_ALGORITHM_CRC32C,
      next_cow_block_address = next_free, sb_reserved = replicate 348 0, superblock_checksum = 0\<rparr>)"

text \<open>Step (6): the journal area is overwritten with zeroed blocks.\<close>

definition zero_journal :: "'d block_device \<Rightarrow> u64 \<Rightarrow> ('d, unit) sop" where
  "zero_journal D journal_size =
     write_blocks D (map (\<lambda>i. (BAFS_JOURNAL_START_BLOCK_ADDRESS + of_nat i, replicate block_size 0))
       [0..<unat journal_size])"

definition bafs_format :: "nat \<Rightarrow> 'd block_device \<Rightarrow> bafs_format_options \<Rightarrow> ('d, unit) sop" where
  "bafs_format fuel D options =
     bindS (getS (\<lambda>dev. total_sector_count D dev div ucast BAFS_SECTORS_PER_BLOCK)) (\<lambda>total_block_count.
     let data_area_start_block = compute_data_area_start_block total_block_count;
         first_allocatable_block = data_area_start_block + 3 in
     if total_block_count < first_allocatable_block + 10 then failS OutOfSpace
     else
       bindS (getS (\<lambda>dev. format_trees fuel D dev total_block_count data_area_start_block
         \<lparr>dirty_cache = [], next_free_block = first_allocatable_block, freed_blocks = []\<rparr>)) (\<lambda>(trees, st).
       bindS (liftS trees) (\<lambda>roots.
       bindS (zero_journal D (compute_journal_size_in_blocks total_block_count)) (\<lambda>_.
       bindS (write_blocks D (dirty_cache st)) (\<lambda>_.
       \<lambda>dev. case write_superblock_to_device D
           (dev, format_superblock options total_block_count roots (next_free_block st)) of
         (r, (dev', _)) \<Rightarrow> (r, dev'))))))"

section \<open>Mount and commit\<close>

definition read_mount_superblock :: "'d block_device \<Rightarrow> 'd \<Rightarrow> bafs_superblock result" where
  "read_mount_superblock D dev =
     (case read_superblock_from_device D dev BAFS_PRIMARY_SUPERBLOCK_BLOCK_ADDRESS of
        Err _ \<Rightarrow> read_superblock_from_device D dev BAFS_BACKUP_SUPERBLOCK_BLOCK_ADDRESS
      | r \<Rightarrow> r)"

definition bafs_mount :: "'d block_device \<Rightarrow> ('d, 'd bafs_volume) sop" where
  "bafs_mount D dev =
     (case read_mount_superblock D dev of
        Ok sb \<Rightarrow>
          (case recover_journal_on_mount D (dev, sb) of
             (r, (dev', sb')) \<Rightarrow>
               (bindR r (\<lambda>_. bindR (add_u (last_committed_transaction_id sb') 1) (\<lambda>next_id.
                  Ok \<lparr>device = dev', superblock = sb', dirty_block_cache = [], next_transaction_id = next_id,
                      volume_next_free_block = next_cow_block_address sb'\<rparr>)), dev'))
      | Err e \<Rightarrow> (Err e, dev)
      | Panic \<Rightarrow> (Panic, dev)
      | OutOfFuel \<Rightarrow> (OutOfFuel, dev))"

definition on_disk_state :: "('d \<times> bafs_superblock, 'a) sop \<Rightarrow> ('d bafs_volume, 'a) sop" where
  "on_disk_state m vol =
     (case m (device vol, superblock vol) of
        (r, (dev, sb)) \<Rightarrow> (r, vol\<lparr>device := dev, superblock := sb\<rparr>))"

definition flush_and_commit :: "'d block_device \<Rightarrow> ('d bafs_volume, unit) sop" where
  "flush_and_commit D =
     bindS (modifyS (\<lambda>vol. vol\<lparr>superblock := (superblock vol)
       \<lparr>next_cow_block_address := volume_next_free_block vol\<rparr>\<rparr>)) (\<lambda>_.
     bindS (getS (\<lambda>vol. (begin_transaction (next_transaction_id vol), dirty_block_cache vol)))
       (\<lambda>(transaction, cache).
     bindS (on_disk_state (commit_transaction D transaction cache)) (\<lambda>_.
     bindS (modifyS (\<lambda>vol. vol\<lparr>dirty_block_cache := []\<rparr>)) (\<lambda>_.
     bindS (getS next_transaction_id) (\<lambda>txid.
     bindS (liftS (add_u txid 1)) (\<lambda>next_id.
     modifyS (\<lambda>vol. vol\<lparr>next_transaction_id := next_id\<rparr>)))))))"

definition bafs_unmount :: "'d block_device \<Rightarrow> ('d bafs_volume, unit) sop" where
  "bafs_unmount D = flush_and_commit D"


section \<open>Returning freed blocks\<close>

text \<open>The loop over the freed blocks: only those below the committed boundary go back to the free tree.\<close>

primrec free_cross_session_blocks ::
  "nat \<Rightarrow> 'd block_device \<Rightarrow> u64 \<Rightarrow> u64 \<Rightarrow> u64 list \<Rightarrow> u64 list \<Rightarrow> ('d bafs_volume, u64 list) sop" where
  "free_cross_session_blocks fuel D committed_boundary generation [] secondary_freed = retS secondary_freed"
| "free_cross_session_blocks fuel D committed_boundary generation (block_address # blocks) secondary_freed =
     (if committed_boundary \<le> block_address
      then free_cross_session_blocks fuel D committed_boundary generation blocks secondary_freed
      else
        bindS (getS (\<lambda>vol. free_extent_tree_root_block (superblock vol))) (\<lambda>root.
        bindS (on_volume (\<lambda>dev. free_blocks fuel D dev root block_address 1 generation) secondary_freed)
          (\<lambda>(new_root, secondary_freed).
        bindS (set_superblock (\<lambda>sb. sb\<lparr>free_extent_tree_root_block := new_root\<rparr>)) (\<lambda>_.
        bindS (getS (\<lambda>vol. free_block_count (superblock vol))) (\<lambda>n.
        bindS (liftS (add_u n 1)) (\<lambda>n.
        bindS (set_superblock (\<lambda>sb. sb\<lparr>free_block_count := n\<rparr>)) (\<lambda>_.
        free_cross_session_blocks fuel D committed_boundary generation blocks secondary_freed)))))))"

primrec return_freed_cow_blocks_to_free_extent_tree ::
  "nat \<Rightarrow> nat \<Rightarrow> 'd block_device \<Rightarrow> u64 list \<Rightarrow> ('d bafs_volume, unit) sop" where
  "return_freed_cow_blocks_to_free_extent_tree 0 fuel D freed = (if freed = [] then retS () else liftS OutOfFuel)"
| "return_freed_cow_blocks_to_free_extent_tree (Suc rounds) fuel D freed =
     (if freed = [] then retS ()
      else
        bindS (getS (\<lambda>vol. (next_cow_block_address (superblock vol), next_transaction_id vol)))
          (\<lambda>(committed_boundary, generation).
        bindS (free_cross_session_blocks fuel D committed_boundary generation freed []) (\<lambda>secondary_freed.
        return_freed_cow_blocks_to_free_extent_tree rounds fuel D secondary_freed)))"

section \<open>Data blocks\<close>

text \<open>The loop over the blocks of the data, with the index of each.\<close>

primrec write_data_blocks ::
  "nat \<Rightarrow> 'd block_device \<Rightarrow> bytes \<Rightarrow> u64 \<Rightarrow> nat list \<Rightarrow> u64 list \<Rightarrow> ('d bafs_volume, u64 list) sop" where
  "write_data_blocks fuel D data allocated_block_address [] freed = retS freed"
| "write_data_blocks fuel D data allocated_block_address (block_index # indices) freed =
     (let chunk = slice (block_index * block_size) (min (block_index * block_size + block_size) (length data)) data;
          block_buffer = write_slice (replicate block_size 0) 0 chunk
      in bindS (liftS (add_u allocated_block_address (of_nat block_index))) (\<lambda>this_block_address.
         bindS (on_volume (\<lambda>dev. write_block_to_cache this_block_address block_buffer) freed) (\<lambda>(_, freed).
         bindS (getS (\<lambda>vol. (checksum_tree_root_block (superblock vol), next_transaction_id vol)))
           (\<lambda>(checksum_root, generation).
         bindS (on_volume (\<lambda>dev. store_data_block_checksum fuel D dev checksum_root this_block_address
           block_buffer generation) freed) (\<lambda>(new_checksum_root, freed).
         bindS (set_superblock (\<lambda>sb. sb\<lparr>checksum_tree_root_block := new_checksum_root\<rparr>)) (\<lambda>_.
         write_data_blocks fuel D data allocated_block_address indices freed))))))"

definition allocate_and_write_data_blocks ::
  "nat \<Rightarrow> nat \<Rightarrow> 'd block_device \<Rightarrow> bytes \<Rightarrow> ('d bafs_volume, u64) sop" where
  "allocate_and_write_data_blocks rounds fuel D data =
     (let block_count_needed = of_nat ((length data + (block_size - 1)) div block_size) in
      if block_count_needed = 0 then failS InvalidArgument
      else
        bindS (getS (\<lambda>vol. (volume_next_free_block vol, total_block_count (superblock vol)))) (\<lambda>(next_free, total_blocks).
        bindS (liftS (add_u next_free block_count_needed)) (\<lambda>new_next_free.
        if total_blocks < new_next_free then failS OutOfSpace
        else
          bindS (modifyS (\<lambda>vol. vol\<lparr>volume_next_free_block := new_next_free,
            superblock := (superblock vol)\<lparr>free_block_count :=
              saturating_sub (free_block_count (superblock vol)) block_count_needed\<rparr>\<rparr>)) (\<lambda>_.
          bindS (write_data_blocks fuel D data next_free [0..<unat block_count_needed] []) (\<lambda>freed.
          bindS (return_freed_cow_blocks_to_free_extent_tree rounds fuel D freed) (\<lambda>_.
          retS next_free))))))"

section \<open>Inodes\<close>

definition volume_read_inode :: "nat \<Rightarrow> 'd block_device \<Rightarrow> 'd bafs_volume \<Rightarrow> u64 \<Rightarrow> bafs_inode result" where
  "volume_read_inode fuel D vol ino =
     read_inode_from_tree fuel D (device vol) (dirty_block_cache vol) (inode_tree_root_block (superblock vol)) ino"

text \<open>The common pattern of the modifying operations: a tree function on the inode tree, the new root,
  and the freed blocks.\<close>

definition update_inode_tree ::
  "('d \<Rightarrow> u64 \<Rightarrow> u64 \<Rightarrow> (cow_state, u64) sop) \<Rightarrow> u64 list \<Rightarrow> ('d bafs_volume, u64 list) sop" where
  "update_inode_tree m freed =
     bindS (getS (\<lambda>vol. (inode_tree_root_block (superblock vol), next_transaction_id vol))) (\<lambda>(root, generation).
     bindS (on_volume (\<lambda>dev. m dev root generation) freed) (\<lambda>(new_root, freed).
     bindS (set_superblock (\<lambda>sb. sb\<lparr>inode_tree_root_block := new_root\<rparr>)) (\<lambda>_.
     retS freed)))"

definition volume_write_inode ::
  "nat \<Rightarrow> nat \<Rightarrow> 'd block_device \<Rightarrow> bafs_inode \<Rightarrow> ('d bafs_volume, unit) sop" where
  "volume_write_inode rounds fuel D inode =
     bindS (update_inode_tree (\<lambda>dev root generation. write_inode_to_tree fuel D dev root inode generation) [])
       (return_freed_cow_blocks_to_free_extent_tree rounds fuel D)"

definition volume_allocate_inode_number :: "('d bafs_volume, u64) sop" where
  "volume_allocate_inode_number =
     bindS (getS (\<lambda>vol. allocated_inode_count (superblock vol))) (\<lambda>count_before.
     bindS (liftS (allocate_next_inode_number count_before)) (\<lambda>new_inode_number.
     bindS (set_superblock (\<lambda>sb. sb\<lparr>allocated_inode_count := new_inode_number\<rparr>)) (\<lambda>_.
     retS new_inode_number)))"

section \<open>Creating files and directories\<close>

definition volume_create_entry ::
  "(u64 \<Rightarrow> u64 \<Rightarrow> u64 \<Rightarrow> bafs_inode) \<Rightarrow> u8 \<Rightarrow> nat \<Rightarrow> nat \<Rightarrow> 'd block_device \<Rightarrow> u64 \<Rightarrow> bytes \<Rightarrow> ('d bafs_volume, u64) sop" where
  "volume_create_entry new_inode ctype rounds fuel D parent_inode_number name =
     bindS (getS next_transaction_id) (\<lambda>generation.
     bindS (getS (\<lambda>vol. volume_read_inode fuel D vol parent_inode_number)) (\<lambda>found.
     bindS (liftS found) (\<lambda>parent_inode.
     if \<not> is_directory parent_inode then failS NotADirectory
     else
       bindS volume_allocate_inode_number (\<lambda>new_inode_number.
       bindS (volume_write_inode rounds fuel D (new_inode new_inode_number generation 0)) (\<lambda>_.
       bindS (update_inode_tree (\<lambda>dev root generation. directory_create_entry fuel D dev root
         parent_inode_number name new_inode_number ctype generation) []) (\<lambda>freed.
       bindS (return_freed_cow_blocks_to_free_extent_tree rounds fuel D freed) (\<lambda>_.
       retS new_inode_number)))))))"

definition volume_create_file :: "nat \<Rightarrow> nat \<Rightarrow> 'd block_device \<Rightarrow> u64 \<Rightarrow> bytes \<Rightarrow> ('d bafs_volume, u64) sop" where
  "volume_create_file = volume_create_entry new_regular_file CHILD_TYPE_REGULAR_FILE"

definition volume_create_directory :: "nat \<Rightarrow> nat \<Rightarrow> 'd block_device \<Rightarrow> u64 \<Rightarrow> bytes \<Rightarrow> ('d bafs_volume, u64) sop" where
  "volume_create_directory = volume_create_entry new_directory CHILD_TYPE_DIRECTORY"


section \<open>File data\<close>

definition volume_write_file_data ::
  "nat \<Rightarrow> nat \<Rightarrow> 'd block_device \<Rightarrow> u64 \<Rightarrow> u64 \<Rightarrow> bytes \<Rightarrow> ('d bafs_volume, nat) sop" where
  "volume_write_file_data rounds fuel D file_inode_number write_offset_bytes data =
     (if data = [] then retS 0
      else
        bindS (getS next_transaction_id) (\<lambda>generation.
        bindS (getS (\<lambda>vol. volume_read_inode fuel D vol file_inode_number)) (\<lambda>found.
        bindS (liftS found) (\<lambda>file_inode.
        if \<not> is_regular_file file_inode then failS NotARegularFile
        else
          bindS (allocate_and_write_data_blocks rounds fuel D data) (\<lambda>first_allocated_block.
          bindS (liftS (bindR (add_u (of_nat (length data)) (ucast BAFS_DEFAULT_BLOCK_SIZE_BYTES)) (\<lambda>n.
            bindR (sub_u n 1) (\<lambda>n. Ok (n div ucast BAFS_DEFAULT_BLOCK_SIZE_BYTES))))) (\<lambda>block_count_allocated.
          let extent = \<lparr>logical_byte_offset = write_offset_bytes, first_disk_block = first_allocated_block,
                ed_block_count = block_count_allocated, extent_flags = 0, ed_reserved = 0\<rparr> in
          bindS (update_inode_tree (\<lambda>dev root generation. write_extent_data_to_inode_tree fuel D dev root
            file_inode_number extent generation) []) (\<lambda>freed.
          bindS (return_freed_cow_blocks_to_free_extent_tree rounds fuel D freed) (\<lambda>_.
          bindS (liftS (add_u write_offset_bytes (of_nat (length data)))) (\<lambda>end_offset.
          bindS (liftS (add_u (allocated_block_count file_inode) block_count_allocated)) (\<lambda>blocks.
          bindS (volume_write_inode rounds fuel D (file_inode
            \<lparr>file_size_in_bytes := max end_offset (file_size_in_bytes file_inode),
             allocated_block_count := blocks, inode_generation := generation\<rparr>)) (\<lambda>_.
          retS (length data))))))))))))"

text \<open>The read loop; its state is the destination buffer.\<close>

function read_file_blocks ::
  "nat \<Rightarrow> 'd block_device \<Rightarrow> 'd bafs_volume \<Rightarrow> u64 \<Rightarrow> u64 \<Rightarrow> nat \<Rightarrow> nat \<Rightarrow> (bytes, nat) sop" where
  "read_file_blocks fuel D vol ino read_offset_bytes bytes_to_read bytes_read_so_far =
     (if bytes_read_so_far < bytes_to_read then
        bindS (liftS (add_u read_offset_bytes (of_nat bytes_read_so_far))) (\<lambda>current_offset.
        bindS (liftS (read_extent_data_for_file_offset fuel D (device vol) (dirty_block_cache vol)
          (inode_tree_root_block (superblock vol)) ino current_offset)) (\<lambda>found.
        bindS (liftS (ok_or found CorruptedStructure)) (\<lambda>extent.
        bindS (liftS (sub_u current_offset (logical_byte_offset extent))) (\<lambda>offset_within_extent.
        let block_index_within_extent = offset_within_extent div ucast BAFS_DEFAULT_BLOCK_SIZE_BYTES;
            offset_within_block = unat (offset_within_extent mod ucast BAFS_DEFAULT_BLOCK_SIZE_BYTES) in
        bindS (liftS (add_u (first_disk_block extent) block_index_within_extent)) (\<lambda>block_address.
        bindS (liftS (read_block D (device vol) (dirty_block_cache vol) block_address)) (\<lambda>block_data.
        bindS (liftS (verify_data_block_checksum fuel D (device vol) (dirty_block_cache vol)
          (checksum_tree_root_block (superblock vol)) block_address block_data)) (\<lambda>_.
        let bytes_available_in_block = block_size - offset_within_block;
            bytes_to_copy = min bytes_available_in_block (bytes_to_read - bytes_read_so_far) in
        bindS (modifyS (\<lambda>buffer. write_slice buffer bytes_read_so_far
          (slice offset_within_block (offset_within_block + bytes_to_copy) block_data))) (\<lambda>_.
        read_file_blocks fuel D vol ino read_offset_bytes bytes_to_read (bytes_read_so_far + bytes_to_copy)))))))))
      else retS bytes_read_so_far)"
  by pat_completeness auto
termination
proof (relation "measure (\<lambda>(fuel, D, vol, ino, off, n, k). n - k)", goal_cases)
  case (2 fuel D vol ino off n k current found extent o_ext idx o_blk)
  have "o_blk < 4096"
    using 2 by (simp add: unat_mod BAFS_DEFAULT_BLOCK_SIZE_BYTES_def)
  then have "0 < min (4096 - o_blk) (n - k)" "k < n"
    using 2 by simp_all
  then show ?case
    using 2 by simp
qed simp

declare read_file_blocks.simps [simp del]

definition volume_read_file_data ::
  "nat \<Rightarrow> 'd block_device \<Rightarrow> 'd bafs_volume \<Rightarrow> u64 \<Rightarrow> u64 \<Rightarrow> (bytes, nat) sop" where
  "volume_read_file_data fuel D vol file_inode_number read_offset_bytes =
     bindS (getS length) (\<lambda>buffer_length.
     if buffer_length = 0 then retS 0
     else
       bindS (liftS (volume_read_inode fuel D vol file_inode_number)) (\<lambda>file_inode.
       if \<not> is_regular_file file_inode then failS NotARegularFile
       else
         let file_size = file_size_in_bytes file_inode in
         if file_size \<le> read_offset_bytes then retS 0
         else
           let bytes_available = file_size - read_offset_bytes;
               bytes_to_read = unat (min (of_nat buffer_length) bytes_available)
           in read_file_blocks fuel D vol file_inode_number read_offset_bytes bytes_to_read 0))"

section \<open>Directory operations\<close>

definition volume_lookup_directory_entry ::
  "nat \<Rightarrow> 'd block_device \<Rightarrow> 'd bafs_volume \<Rightarrow> u64 \<Rightarrow> bytes \<Rightarrow> u64 option result" where
  "volume_lookup_directory_entry fuel D vol directory_inode_number name =
     bindR (volume_read_inode fuel D vol directory_inode_number) (\<lambda>dir_inode.
     if \<not> is_directory dir_inode then Err NotADirectory
     else
       bindR (directory_lookup_entry fuel D (device vol) (dirty_block_cache vol)
         (inode_tree_root_block (superblock vol)) directory_inode_number name) (\<lambda>found.
       case found of
         Some entry \<Rightarrow> Ok (Some (child_inode_number entry))
       | None \<Rightarrow> Ok None))"

definition volume_read_directory_entry_at_index ::
  "nat \<Rightarrow> 'd block_device \<Rightarrow> 'd bafs_volume \<Rightarrow> u64 \<Rightarrow> nat \<Rightarrow> bafs_dir_entry option result" where
  "volume_read_directory_entry_at_index fuel D vol directory_inode_number index =
     directory_iterate fuel D (device vol) (dirty_block_cache vol) (inode_tree_root_block (superblock vol))
       directory_inode_number index"

text \<open>The loop of \<open>volume_unlink_directory_entry\<close> over the extents of a file: free the blocks, remove the
  extent. Both roots are local variables of the caller.\<close>

primrec release_extents ::
  "nat \<Rightarrow> 'd block_device \<Rightarrow> u64 \<Rightarrow> bafs_leaf_item list \<Rightarrow> u64 \<Rightarrow> u64 \<Rightarrow> u64 list
    \<Rightarrow> ('d bafs_volume, u64 \<times> u64 \<times> u64 list) sop" where
  "release_extents fuel D generation [] inode_root free_extent_root freed = retS (inode_root, free_extent_root, freed)"
| "release_extents fuel D generation (ext_item # items) inode_root free_extent_root freed =
     bindS (liftS (deserialise_extent_data_from_bytes (item_value ext_item))) (\<lambda>extent.
     bindS (on_volume (\<lambda>dev. free_blocks fuel D dev free_extent_root (first_disk_block extent)
       (ed_block_count extent) generation) freed) (\<lambda>(free_extent_root, freed).
     bindS (on_volume (\<lambda>dev. delete_from_tree fuel D dev inode_root (item_key ext_item) generation) freed)
       (\<lambda>(inode_root, freed).
     release_extents fuel D generation items inode_root free_extent_root freed)))"

definition release_inode ::
  "nat \<Rightarrow> 'd block_device \<Rightarrow> u64 \<Rightarrow> bafs_inode \<Rightarrow> u64 list \<Rightarrow> ('d bafs_volume, u64 list) sop" where
  "release_inode fuel D child_number child_inode freed =
     bindS (getS (\<lambda>vol. iterate_tree_range fuel D (device vol) (dirty_block_cache vol)
       (inode_tree_root_block (superblock vol))
       (BafsKey child_number ITEM_TYPE_EXTENT_DATA 0) (BafsKey child_number ITEM_TYPE_EXTENT_DATA (- 1)))) (\<lambda>scanned.
     bindS (liftS scanned) (\<lambda>extent_items.
     bindS (getS (\<lambda>vol. (superblock vol, next_transaction_id vol))) (\<lambda>(sb, generation).
     bindS (release_extents fuel D generation extent_items (inode_tree_root_block sb)
       (free_extent_tree_root_block sb) freed) (\<lambda>(inode_root, free_extent_root, freed).
     bindS (on_volume (\<lambda>dev. delete_from_tree fuel D dev inode_root (BafsKey child_number ITEM_TYPE_INODE 0)
       generation) freed) (\<lambda>(inode_root, freed).
     bindS (set_superblock (\<lambda>sb. sb\<lparr>inode_tree_root_block := inode_root,
       free_extent_tree_root_block := free_extent_root,
       free_block_count := saturating_add (free_block_count sb) (allocated_block_count child_inode)\<rparr>)) (\<lambda>_.
     retS freed))))))"

definition volume_unlink_directory_entry ::
  "nat \<Rightarrow> nat \<Rightarrow> 'd block_device \<Rightarrow> u64 \<Rightarrow> bytes \<Rightarrow> ('d bafs_volume, unit) sop" where
  "volume_unlink_directory_entry rounds fuel D directory_inode_number name =
     bindS (getS (\<lambda>vol. directory_lookup_entry fuel D (device vol) (dirty_block_cache vol)
       (inode_tree_root_block (superblock vol)) directory_inode_number name)) (\<lambda>looked_up.
     bindS (liftS looked_up) (\<lambda>found.
     bindS (liftS (ok_or found NotFound)) (\<lambda>child_entry.
     bindS (update_inode_tree (\<lambda>dev root generation. directory_unlink_entry fuel D dev root
       directory_inode_number name generation) []) (\<lambda>freed.
     bindS (getS (\<lambda>vol. volume_read_inode fuel D vol (child_inode_number child_entry))) (\<lambda>read.
     bindS (liftS read) (\<lambda>child_inode.
     let child_inode = child_inode\<lparr>hard_link_count := saturating_sub (hard_link_count child_inode) 1\<rparr> in
     bindS (if hard_link_count child_inode = 0
            then release_inode fuel D (child_inode_number child_entry) child_inode freed
            else bindS (volume_write_inode rounds fuel D child_inode) (\<lambda>_. retS freed)) (\<lambda>freed.
     return_freed_cow_blocks_to_free_extent_tree rounds fuel D freed)))))))"

end
