(* ===== verification/Free_Pool.thy ===== *)
theory Free_Pool
  imports Volume
begin

text \<open>
  Returning freed blocks to the free tree of a volume.

  In practice the extents of the free tree of a volume overlap and repeat each other, so the set view
  of theory \<open>Extent\<close> does not apply here. This theory needs less: every item is an extent that
  does not wrap around. It shows that \<open>return_freed_cow_blocks_to_free_extent_tree\<close> ends and succeeds,
  although its own changes of the free tree free further blocks: each round takes blocks of earlier
  sessions out of the free tree, and there are only finitely many.
\<close>

section \<open>Freeing on an arbitrary pool\<close>

definition pool_on :: "'d block_device \<Rightarrow> 'd \<Rightarrow> cow_state \<Rightarrow> u64 \<Rightarrow> u64 set \<Rightarrow> bool" where
  "pool_on D dev st root N \<longleftrightarrow>
     (\<exists>its E. tree_on (keys_of BAFS_FREE_EXTENT_OBJECT_ID ITEM_TYPE_EXTENT_DATA) None D dev st root its N \<and>
        set its = free_item ` E \<and> (\<forall>a n. (a, n) \<in> E \<longrightarrow> unat a + unat n < 2 ^ 64))"

lemma turnover_refl: "turnover st st N N"
  by (auto simp: turnover_def fresh_set_def intro: exI [of _ "[]"])

lemma pool_on_below: "pool_on D dev st root N \<Longrightarrow> \<forall>a\<in>N. unat a < unat (next_free_block st)"
  by (auto simp: pool_on_def dest: tree_on_below)

lemma pool_delete:
  assumes "pool_on D dev st root N" "deep fuel" "room (Suc k) st"
    and "scan_free_extents fuel D dev root st = (Ok its, st)" "free_item (a, n) \<in> set its"
  shows "\<exists>root' st' N'. delete_from_tree fuel D dev root (free_key a) g st = (Ok root', st') \<and>
    pool_on D dev st' root' N' \<and> cow_step st st' \<and> room k st' \<and> turnover st st' N N'"
proof -
  obtain its' E where p: "tree_on (keys_of BAFS_FREE_EXTENT_OBJECT_ID ITEM_TYPE_EXTENT_DATA) None D dev st root its' N"
      "set its' = free_item ` E" "\<forall>a n. (a, n) \<in> E \<longrightarrow> unat a + unat n < 2 ^ 64"
    using assms(1) by (auto simp: pool_on_def)
  have at: "free_tree D dev st root its'" using p(1) by (auto simp: tree_at_def)
  have "its' = its"
    using scan_free_extents_at [OF at assms(2) p(2)] assms(4) by simp
  then have "kv_map its' (free_key a) \<noteq> None"
    using assms(5) unfolding kv_map_None by force
  then obtain st' r' N' where d: "delete_from_tree fuel D dev root (free_key a) g st = (Ok r', st')"
      "tree_on (keys_of BAFS_FREE_EXTENT_OBJECT_ID ITEM_TYPE_EXTENT_DATA) None D dev st' r' (del_items (free_key a) its') N'"
      "cow_step st st'" "room k st'" "turnover st st' N N'"
    using tree_on_del [OF p(1) assms(2,3)] by blast
  have "set (del_items (free_key a) its') = free_item ` {e \<in> E. fst e \<noteq> a}"
    using p(2) by (auto simp: del_items_def)
  with d p(3) show ?thesis
    unfolding pool_on_def by blast
qed

lemma pool_insert:
  assumes "pool_on D dev st root N" "deep fuel" "room (Suc k) st" "unat a + unat n < 2 ^ 64"
  shows "\<exists>root' st' N'. insert_free_extent_into_tree fuel D dev root a n g st = (Ok root', st') \<and>
    pool_on D dev st' root' N' \<and> cow_step st st' \<and> room k st' \<and> turnover st st' N N'"
proof -
  obtain its E where p: "tree_on (keys_of BAFS_FREE_EXTENT_OBJECT_ID ITEM_TYPE_EXTENT_DATA) None D dev st root its N"
      "set its = free_item ` E" "\<forall>a n. (a, n) \<in> E \<longrightarrow> unat a + unat n < 2 ^ 64"
    using assms(1) by (auto simp: pool_on_def)
  have at: "free_tree D dev st root its" using p(1) by (auto simp: tree_at_def)
  let ?v = "item_value (free_item (a, n))"
  have "insertable (keys_of BAFS_FREE_EXTENT_OBJECT_ID ITEM_TYPE_EXTENT_DATA) None its (free_key a) ?v"
    by (simp add: free_key_def free_item_def small_value_def)
  then obtain st' r' N' where i: "insert_into_tree fuel D dev root (free_key a) ?v g st = (Ok r', st')"
      "tree_on (keys_of BAFS_FREE_EXTENT_OBJECT_ID ITEM_TYPE_EXTENT_DATA) None D dev st' r' (upd_items (free_key a) ?v its) N'"
      "cow_step st st'" "room k st'" "turnover st st' N N'"
    using tree_on_put [OF p(1) assms(2,3)] by blast
  have "set (upd_items (free_key a) ?v its) = free_item ` insert (a, n) {e \<in> E. fst e \<noteq> a}"
    using p(2) by (subst set_upd_items [OF bt.at_sorted [OF at]]) (auto simp: free_item_def)
  moreover have "\<forall>b m. (b, m) \<in> insert (a, n) {e \<in> E. fst e \<noteq> a} \<longrightarrow> unat b + unat m < 2 ^ 64"
    using p(3) assms(4) by auto
  ultimately have "pool_on D dev st' r' N'"
    unfolding pool_on_def using i(2) by blast
  with i show ?thesis
    by (auto simp: insert_free_extent_into_tree_def free_item_def free_key_def)
qed


lemma pool_find:
  assumes "pool_on D dev st root N" "deep fuel"
    and "\<And>b m. unat b + unat m < 2 ^ 64 \<Longrightarrow> p (free_item (b, m)) = Ok (P b m)"
  obtains its b m where "scan_free_extents fuel D dev root st = (Ok its, st)" "free_item (b, m) \<in> set its"
      "unat b + unat m < 2 ^ 64" "P b m" "find_item p its = Ok (Some (free_item (b, m)))"
    | its where "scan_free_extents fuel D dev root st = (Ok its, st)" "find_item p its = Ok None"
proof -
  obtain its E where q: "free_tree D dev st root its" "set its = free_item ` E"
      "\<forall>a n. (a, n) \<in> E \<longrightarrow> unat a + unat n < 2 ^ 64"
    using assms(1) by (auto simp: pool_on_def tree_at_def)
  have "(\<exists>e\<in>E. P (fst e) (snd e) \<and> find_item p its = Ok (Some (free_item e))) \<or>
      (\<forall>e\<in>E. \<not> P (fst e) (snd e)) \<and> find_item p its = Ok None"
    using q(3) assms(3) by (intro find_item_extents [OF q(2)]) auto
  then show thesis
  proof (elim disjE bexE conjE)
    fix e assume "e \<in> E" "P (fst e) (snd e)" "find_item p its = Ok (Some (free_item e))"
    then show thesis
      using that(1) [OF scan_free_extents_at [OF q(1) assms(2) q(2)], of "fst e" "snd e"] q(2,3) by auto
  qed (use that(2) [OF scan_free_extents_at [OF q(1) assms(2) q(2)]] in blast)
qed

lemma merge_predecessor_pool:
  assumes "pool_on D dev st root N" "deep fuel" "room (Suc k) st" "unat a + unat n < 2 ^ 64"
  shows "\<exists>s c root' st' N'. merge_predecessor fuel D dev root a n g st = (Ok (s, c, root'), st') \<and>
    unat s + unat c < 2 ^ 64 \<and>
    pool_on D dev st' root' N' \<and> cow_step st st' \<and> room k st' \<and> turnover st st' N N'"
proof -
  let ?p = "\<lambda>item. bindR (free_extent_of item) (\<lambda>extent.
      bindR (add_u (fe_block_address extent) (fe_block_count extent)) (\<lambda>e. Ok (e = a)))"
  have p: "?p (free_item (b, m)) = Ok (unat b + unat m = unat a)" if "unat b + unat m < 2 ^ 64" for b m
    using that add_run [OF that] by (simp add: word_unat_eq_iff)
  show ?thesis
  proof (rule pool_find [OF assms(1,2), where p = ?p, OF p])
    fix its b m
    assume f: "scan_free_extents fuel D dev root st = (Ok its, st)" "free_item (b, m) \<in> set its"
      "unat b + unat m = unat a" "find_item ?p its = Ok (Some (free_item (b, m)))"
    obtain r' st' N' where d: "delete_from_tree fuel D dev root (free_key b) g st = (Ok r', st')"
        "pool_on D dev st' r' N'" "cow_step st st'" "room k st'" "turnover st st' N N'"
      using pool_delete [OF assms(1-3) f(1,2)] by blast
    have u: "unat n + unat m < 2 ^ 64" using f(3) assms(4) by simp
    then have "merge_predecessor fuel D dev root a n g st = (Ok (b, n + m, r'), st')"
      by (simp add: merge_predecessor_def f(1,4) d(1))
    moreover have "unat b + unat (n + m) < 2 ^ 64"
      using add_run [OF u] f(3) assms(4) by simp
    ultimately show ?thesis using d(2-5) by blast
  next
    fix its
    assume f: "scan_free_extents fuel D dev root st = (Ok its, st)" "find_item ?p its = Ok None"
    then have "merge_predecessor fuel D dev root a n g st = (Ok (a, n, root), st)"
      by (simp add: merge_predecessor_def)
    moreover have "room k st" using assms(3) by (simp add: room_def)
    ultimately show ?thesis using assms(1,4) bt.step_refl turnover_refl by blast
  qed
qed

lemma merge_successor_pool:
  assumes "pool_on D dev st root N" "deep fuel" "room (Suc k) st" "unat s + unat c < 2 ^ 64"
  shows "\<exists>c' root' st' N'. merge_successor fuel D dev root s c g st = (Ok (c', root'), st') \<and>
    unat s + unat c' < 2 ^ 64 \<and>
    pool_on D dev st' root' N' \<and> cow_step st st' \<and> room k st' \<and> turnover st st' N N'"
proof -
  let ?p = "\<lambda>item. bindR (free_extent_of item) (\<lambda>extent.
      bindR (add_u s c) (\<lambda>e. Ok (fe_block_address extent = e)))"
  have p: "?p (free_item (b, m)) = Ok (unat s + unat c = unat b)" for b m
    using assms(4) add_run [OF assms(4)] by (auto simp: word_unat_eq_iff)
  show ?thesis
  proof (rule pool_find [OF assms(1,2), where p = ?p, OF p])
    fix its b m
    assume f: "scan_free_extents fuel D dev root st = (Ok its, st)" "free_item (b, m) \<in> set its"
      "unat b + unat m < 2 ^ 64" "unat s + unat c = unat b" "find_item ?p its = Ok (Some (free_item (b, m)))"
    obtain r' st' N' where d: "delete_from_tree fuel D dev root (free_key b) g st = (Ok r', st')"
        "pool_on D dev st' r' N'" "cow_step st st'" "room k st'" "turnover st st' N N'"
      using pool_delete [OF assms(1-3) f(1,2)] by blast
    have u: "unat c + unat m < 2 ^ 64" using f(3,4) by simp
    then have "merge_successor fuel D dev root s c g st = (Ok (c + m, r'), st')"
      by (simp add: merge_successor_def f(1,5) d(1))
    moreover have "unat s + unat (c + m) < 2 ^ 64"
      using add_run [OF u] f(3,4) by simp
    ultimately show ?thesis using d(2-5) by blast
  next
    fix its
    assume f: "scan_free_extents fuel D dev root st = (Ok its, st)" "find_item ?p its = Ok None"
    then have "merge_successor fuel D dev root s c g st = (Ok (c, root), st)"
      by (simp add: merge_successor_def)
    moreover have "room k st" using assms(3) by (simp add: room_def)
    ultimately show ?thesis using assms(1,4) bt.step_refl turnover_refl by blast
  qed
qed

lemma free_blocks_pool:
  assumes "pool_on D dev st root N" "deep fuel" "room (Suc (Suc (Suc k))) st" "unat a + unat n < 2 ^ 64"
  shows "\<exists>root' st' N'. free_blocks fuel D dev root a n g st = (Ok root', st') \<and>
    pool_on D dev st' root' N' \<and> cow_step st st' \<and> room k st' \<and> turnover st st' N N'"
proof -
  obtain s c r1 st1 N1 where p: "merge_predecessor fuel D dev root a n g st = (Ok (s, c, r1), st1)"
      "unat s + unat c < 2 ^ 64" "pool_on D dev st1 r1 N1" "cow_step st st1" "room (Suc (Suc k)) st1" "turnover st st1 N N1"
    using merge_predecessor_pool [OF assms] by blast
  obtain c' r2 st2 N2 where q: "merge_successor fuel D dev r1 s c g st1 = (Ok (c', r2), st2)"
      "unat s + unat c' < 2 ^ 64" "pool_on D dev st2 r2 N2" "cow_step st1 st2" "room (Suc k) st2" "turnover st1 st2 N1 N2"
    using merge_successor_pool [OF p(3) assms(2) p(5,2)] by blast
  obtain r3 st3 N3 where i: "insert_free_extent_into_tree fuel D dev r2 s c' g st2 = (Ok r3, st3)"
      "pool_on D dev st3 r3 N3" "cow_step st2 st3" "room k st3" "turnover st2 st3 N2 N3"
    using pool_insert [OF q(3) assms(2) q(5,2)] by blast
  have "free_blocks fuel D dev root a n g st = (Ok r3, st3)"
    by (simp add: free_blocks_def p(1) q(1) i(1))
  moreover have "turnover st st3 N N3"
    using turnover_trans [OF p(4) cow_step_trans [OF q(4) i(3)] p(6)
        turnover_trans [OF q(4) i(3) q(6) i(5) pool_on_below [OF p(3)]] pool_on_below [OF assms(1)]] .
  ultimately show ?thesis
    using i(2,4) cow_step_trans [OF p(4) cow_step_trans [OF q(4) i(3)]] by blast
qed

section \<open>One round\<close>

lemma tree_on_cong:
  "dirty_cache st' = dirty_cache st \<Longrightarrow> next_free_block st' = next_free_block st \<Longrightarrow>
    tree_on Q lo D dev st' r its N = tree_on Q lo D dev st r its N"
  by (simp add: tree_on_def tree_ok_def below_def)

lemma cow_of_simps [simp]:
  "dirty_cache (cow_of s vol) = dirty_block_cache vol" "next_free_block (cow_of s vol) = volume_next_free_block vol"
  "freed_blocks (cow_of s vol) = s"
  by (simp_all add: cow_of_def)

lemma pool_on_cow_of: "pool_on D dev (cow_of s vol) r N = pool_on D dev (cow_of [] vol) r N"
proof -
  have "tree_on Q lo D dev (cow_of s vol) r its N = tree_on Q lo D dev (cow_of [] vol) r its N" for Q lo its
    by (rule tree_on_cong) simp_all
  then show ?thesis by (simp only: pool_on_def)
qed

lemma cow_of_update:
  "cow_of (freed_blocks st) (vol\<lparr>dirty_block_cache := dirty_cache st, volume_next_free_block := next_free_block st\<rparr>) = st"
  by (cases st) (simp add: cow_of_def)

lemma cow_of_superblock [simp]: "cow_of s (vol\<lparr>superblock := sb\<rparr>) = cow_of s vol"
  by (simp add: cow_of_def)

text \<open>What the operations on the free tree change of a volume.\<close>

definition pool_step :: "'d bafs_volume \<Rightarrow> 'd bafs_volume \<Rightarrow> bool" where
  "pool_step vol vol' \<longleftrightarrow> device vol' = device vol \<and> next_transaction_id vol' = next_transaction_id vol \<and>
     (\<exists>r c. superblock vol' = (superblock vol)\<lparr>free_extent_tree_root_block := r, free_block_count := c\<rparr>) \<and>
     cow_step (cow_of [] vol) (cow_of [] vol')"

lemma cow_step_forget: "cow_step (cow_of s vol) (cow_of s' vol') \<Longrightarrow> cow_step (cow_of [] vol) (cow_of [] vol')"
  by (auto simp: cow_step_def)

lemma pool_step_refl: "pool_step vol vol"
  unfolding pool_step_def
  by (intro conjI exI [of _ "free_extent_tree_root_block (superblock vol)"] exI [of _ "free_block_count (superblock vol)"]) simp_all

lemma pool_step_trans:
  assumes "pool_step a b" "pool_step b c"
  shows "pool_step a c"
proof -
  obtain r n r' n' where "superblock b = (superblock a)\<lparr>free_extent_tree_root_block := r, free_block_count := n\<rparr>"
      "superblock c = (superblock b)\<lparr>free_extent_tree_root_block := r', free_block_count := n'\<rparr>"
    using assms by (auto simp: pool_step_def)
  then have "superblock c = (superblock a)\<lparr>free_extent_tree_root_block := r', free_block_count := n'\<rparr>" by simp
  then show ?thesis
    using assms cow_step_trans [of "cow_of [] a" "cow_of [] b" "cow_of [] c"] unfolding pool_step_def by auto
qed

abbreviation free_root :: "'d bafs_volume \<Rightarrow> u64" where
  "free_root vol \<equiv> free_extent_tree_root_block (superblock vol)"

lemma free_cross_session_pool:
  assumes "pool_on D (device vol) (cow_of s vol) (free_root vol) N" "deep fuel"
    and "unat (volume_next_free_block vol) + 96 * (length (filter (\<lambda>b. b < B) bs) + k) < 2 ^ 64"
    and "unat (free_block_count (superblock vol)) + length (filter (\<lambda>b. b < B) bs) < 2 ^ 64"
  shows "\<exists>s' vol' N'. free_cross_session_blocks fuel D B g bs s vol = (Ok s', vol') \<and> pool_step vol vol' \<and>
    pool_on D (device vol) (cow_of s' vol') (free_root vol') N' \<and> turnover (cow_of s vol) (cow_of s' vol') N N' \<and>
    cow_step (cow_of s vol) (cow_of s' vol') \<and> unat (volume_next_free_block vol') + 96 * k < 2 ^ 64 \<and>
    unat (free_block_count (superblock vol')) = unat (free_block_count (superblock vol)) + length (filter (\<lambda>b. b < B) bs)"
  using assms(1,3,4)
proof (induction bs arbitrary: vol s N)
  case Nil
  then show ?case
    using pool_step_refl turnover_refl bt.step_refl by (intro exI [of _ s] exI [of _ vol] exI [of _ N]) simp
next
  case (Cons b bs)
  show ?case
  proof (cases "b < B")
    case False
    then have e: "filter (\<lambda>b. b < B) (b # bs) = filter (\<lambda>b. b < B) bs"
        "free_cross_session_blocks fuel D B g (b # bs) s vol = free_cross_session_blocks fuel D B g bs s vol"
      by (simp, simp add: not_less)
    show ?thesis
      unfolding e by (rule Cons.IH [OF Cons.prems [unfolded e]])
  next
    case True
    let ?n = "length (filter (\<lambda>b. b < B) bs)"
    have b: "unat b + unat (1 :: u64) < 2 ^ 64"
      using True unat_bound [of B] by (simp add: word_less_nat_alt)
    have "room (Suc (Suc (Suc (3 * (?n + k))))) (cow_of s vol)"
      using Cons.prems(2) True by (simp add: room_def)
    from free_blocks_pool [OF Cons.prems(1) assms(2) this b, of g]
    obtain r st N1 where f: "free_blocks fuel D (device vol) (free_root vol) b 1 g (cow_of s vol) = (Ok r, st)"
        "pool_on D (device vol) st r N1" "cow_step (cow_of s vol) st" "room (3 * (?n + k)) st"
        "turnover (cow_of s vol) st N N1"
      by blast
    let ?c = "free_block_count (superblock vol)"
    let ?vol = "vol\<lparr>dirty_block_cache := dirty_cache st, volume_next_free_block := next_free_block st,
        superblock := (superblock vol)\<lparr>free_extent_tree_root_block := r, free_block_count := ?c + 1\<rparr>\<rparr>"
    have st: "cow_of (freed_blocks st) ?vol = st"
      by (cases st) (simp add: cow_of_def)
    have c: "add_u ?c 1 = Ok (?c + 1)" "unat (?c + 1) = unat ?c + 1"
      using Cons.prems(3) True unat_plus_1 [of ?c] by simp_all
    have run: "free_cross_session_blocks fuel D B g (b # bs) s vol
        = free_cross_session_blocks fuel D B g bs (freed_blocks st) ?vol"
      using True f(1) c(1) by (simp add: not_le [symmetric] on_volume_def set_superblock_def bindS_def getS_def
          modifyS_def liftS_def)
    have step: "pool_step vol ?vol"
      using cow_step_forget [of s vol "freed_blocks st" ?vol] f(3) unfolding pool_step_def st by auto
    have "\<exists>s' vol' N'. free_cross_session_blocks fuel D B g bs (freed_blocks st) ?vol = (Ok s', vol') \<and> pool_step ?vol vol' \<and>
      pool_on D (device ?vol) (cow_of s' vol') (free_root vol') N' \<and> turnover (cow_of (freed_blocks st) ?vol) (cow_of s' vol') N1 N' \<and>
      cow_step (cow_of (freed_blocks st) ?vol) (cow_of s' vol') \<and> unat (volume_next_free_block vol') + 96 * k < 2 ^ 64 \<and>
      unat (free_block_count (superblock vol')) = unat (free_block_count (superblock ?vol)) + ?n"
    proof (rule Cons.IH)
      show "pool_on D (device ?vol) (cow_of (freed_blocks st) ?vol) (free_root ?vol) N1"
        unfolding st using f(2) by simp
    qed (use f(4) c Cons.prems(3) True in \<open>auto simp: room_def\<close>)
    then obtain s' vol' N' where v: "free_cross_session_blocks fuel D B g bs (freed_blocks st) ?vol = (Ok s', vol')"
        "pool_step ?vol vol'" "pool_on D (device vol) (cow_of s' vol') (free_root vol') N'"
        "turnover st (cow_of s' vol') N1 N'" "cow_step st (cow_of s' vol')" "unat (volume_next_free_block vol') + 96 * k < 2 ^ 64"
        "unat (free_block_count (superblock vol')) = unat ?c + 1 + ?n"
      unfolding st using c(2) by auto
    show ?thesis
      unfolding run
      using v pool_step_trans [OF step v(2)] cow_step_trans [OF f(3) v(5)] True
        turnover_trans [OF f(3) v(5) f(5) v(4) pool_on_below [OF Cons.prems(1)]]
      by (intro exI [of _ s'] exI [of _ vol'] exI [of _ N']) simp
  qed
qed

section \<open>All rounds\<close>

definition cross :: "'d bafs_volume \<Rightarrow> u64 set \<Rightarrow> u64 set" where
  "cross vol N = {a \<in> N. a < next_cow_block_address (superblock vol)}"

lemma length_count_list:
  assumes "\<And>a. count_list xs a \<le> 2"
  shows "length xs \<le> 2 * card (set xs)"
proof -
  have "length xs = (\<Sum>a\<in>set xs. count_list xs a)"
    by (rule sum_count_set [symmetric]) simp_all
  also have "\<dots> \<le> (\<Sum>a\<in>set xs. 2)"
    using assms by (intro sum_mono)
  finally show ?thesis by simp
qed

text \<open>A round takes at least half as many blocks of earlier sessions out of the free tree as it puts on
  the list of the next round.\<close>

lemma secondary_bound:
  assumes "turnover (cow_of [] vol) (cow_of s' vol') N N'"
    and "unat (next_cow_block_address (superblock vol)) \<le> unat (volume_next_free_block vol)"
    and "next_cow_block_address (superblock vol') = next_cow_block_address (superblock vol)"
  shows "length (filter (\<lambda>b. b < next_cow_block_address (superblock vol)) s') + 2 * card (cross vol' N') \<le> 2 * card (cross vol N)"
proof -
  let ?f = "filter (\<lambda>b. b < next_cow_block_address (superblock vol)) s'"
  have t: "set s' \<subseteq> N \<union> fresh_set (cow_of [] vol) (cow_of s' vol')"
      "N' = (N \<union> fresh_set (cow_of [] vol) (cow_of s' vol')) - set s'" "\<And>a. count_list s' a \<le> 2"
    using assms(1) by (auto simp: turnover_def)
  have fresh: "\<not> a < next_cow_block_address (superblock vol)" if "a \<in> fresh_set (cow_of [] vol) (cow_of s' vol')" for a
    using that assms(2) by (simp add: fresh_set_def word_less_nat_alt)
  have s: "set ?f \<subseteq> cross vol N" "cross vol' N' \<subseteq> cross vol N" "set ?f \<inter> cross vol' N' = {}"
    using t(1,2) fresh assms(3) by (auto simp: cross_def)
  have "count_list ?f a \<le> count_list s' a" for a
    by (induction s') auto
  then have "length ?f \<le> 2 * card (set ?f)"
    using t(3) le_trans by (intro length_count_list) blast
  moreover have "card (set ?f) + card (cross vol' N') = card (set ?f \<union> cross vol' N')"
    using s(3) by (intro card_Un_disjoint [symmetric]) simp_all
  moreover have "card (set ?f \<union> cross vol' N') \<le> card (cross vol N)"
    using s(1,2) by (intro card_mono) simp_all
  ultimately show ?thesis by simp
qed

lemma free_cross_session_none:
  "filter (\<lambda>b. b < B) bs = [] \<Longrightarrow> free_cross_session_blocks fuel D B g bs s vol = (Ok s, vol)"
proof (induction bs)
  case (Cons b bs)
  then have "\<not> b < B" "filter (\<lambda>b. b < B) bs = []" by (auto split: if_splits)
  with Cons.IH show ?case by (simp add: not_less)
qed simp

lemma return_freed_pool:
  assumes "pool_on D (device vol) (cow_of [] vol) (free_root vol) N" "deep fuel"
    and "unat (next_cow_block_address (superblock vol)) \<le> unat (volume_next_free_block vol)"
    and "L = length (filter (\<lambda>b. b < next_cow_block_address (superblock vol)) freed)"
    and "unat (volume_next_free_block vol) + 96 * (L + 2 * card (cross vol N) + k) < 2 ^ 64"
    and "unat (free_block_count (superblock vol)) + L + 2 * card (cross vol N) < 2 ^ 64"
    and "(if freed = [] then 0 else if L = 0 then 1 else card (cross vol N) + 2) \<le> rounds"
  shows "\<exists>vol' N'. return_freed_cow_blocks_to_free_extent_tree rounds fuel D freed vol = (Ok (), vol') \<and>
    pool_step vol vol' \<and> pool_on D (device vol') (cow_of [] vol') (free_root vol') N' \<and>
    card (cross vol' N') \<le> card (cross vol N) \<and>
    unat (volume_next_free_block vol') + 96 * (2 * card (cross vol' N') + k) < 2 ^ 64 \<and>
    unat (free_block_count (superblock vol')) + 2 * card (cross vol' N')
      \<le> unat (free_block_count (superblock vol)) + L + 2 * card (cross vol N)"
  using assms(1,3-7)
proof (induction rounds arbitrary: vol N freed L)
  case 0
  then have "freed = []" by (auto split: if_splits)
  with 0 show ?case
    using pool_step_refl by (intro exI [of _ vol] exI [of _ N]) simp
next
  case (Suc rounds)
  let ?B = "next_cow_block_address (superblock vol)" and ?c = "card (cross vol N)"
  show ?case
  proof (cases "freed = [] \<or> L = 0")
    case True
    have "return_freed_cow_blocks_to_free_extent_tree (Suc rounds) fuel D freed vol = (Ok (), vol)"
    proof (cases "freed = []")
      case False
      with True Suc.prems(3) have "filter (\<lambda>b. b < ?B) freed = []" by simp
      then have "free_cross_session_blocks fuel D ?B (next_transaction_id vol) freed [] vol = (Ok [], vol)"
        by (rule free_cross_session_none)
      then show ?thesis
        using False by (cases rounds) (simp_all add: bindS_def getS_def)
    qed simp
    then show ?thesis
      using Suc.prems(1,4) pool_step_refl by (intro exI [of _ vol] exI [of _ N]) simp
  next
    case False
    have "\<exists>s' vol' N'. free_cross_session_blocks fuel D ?B (next_transaction_id vol) freed [] vol = (Ok s', vol') \<and> pool_step vol vol' \<and>
      pool_on D (device vol) (cow_of s' vol') (free_root vol') N' \<and> turnover (cow_of [] vol) (cow_of s' vol') N N' \<and>
      cow_step (cow_of [] vol) (cow_of s' vol') \<and> unat (volume_next_free_block vol') + 96 * (2 * ?c + k) < 2 ^ 64 \<and>
      unat (free_block_count (superblock vol')) = unat (free_block_count (superblock vol)) + length (filter (\<lambda>b. b < ?B) freed)"
      using Suc.prems(3-5) by (intro free_cross_session_pool [OF Suc.prems(1) assms(2)]) simp_all
    then obtain s' vol1 N1 where f: "free_cross_session_blocks fuel D ?B (next_transaction_id vol) freed [] vol = (Ok s', vol1)"
        "pool_step vol vol1" "pool_on D (device vol) (cow_of s' vol1) (free_root vol1) N1"
        "turnover (cow_of [] vol) (cow_of s' vol1) N N1"
        "unat (volume_next_free_block vol1) + 96 * (2 * ?c + k) < 2 ^ 64"
        "unat (free_block_count (superblock vol1)) = unat (free_block_count (superblock vol)) + L"
      using Suc.prems(3) by blast
    have same: "next_cow_block_address (superblock vol1) = ?B" "device vol1 = device vol"
      using f(2) by (auto simp: pool_step_def)
    have bound: "unat (next_cow_block_address (superblock vol1)) \<le> unat (volume_next_free_block vol1)"
      using f(2) Suc.prems(2) same(1) cow_step_next [of "cow_of [] vol" "cow_of [] vol1"] by (auto simp: pool_step_def)
    let ?L1 = "length (filter (\<lambda>b. b < next_cow_block_address (superblock vol1)) s')"
    have L1: "?L1 + 2 * card (cross vol1 N1) \<le> 2 * ?c"
      using secondary_bound [OF f(4) Suc.prems(2) same(1)] same(1) by simp
    have "?c + 1 \<le> rounds"
      using Suc.prems(6) False by simp
    moreover have "card (cross vol1 N1) + 1 \<le> ?c" if "?L1 \<noteq> 0"
      using that L1 by linarith
    ultimately have R: "(if s' = [] then 0 else if ?L1 = 0 then 1 else card (cross vol1 N1) + 2) \<le> rounds"
      by (cases "?L1 = 0") (simp_all del: length_0_conv)
    have "\<exists>vol' N'. return_freed_cow_blocks_to_free_extent_tree rounds fuel D s' vol1 = (Ok (), vol') \<and>
      pool_step vol1 vol' \<and> pool_on D (device vol') (cow_of [] vol') (free_root vol') N' \<and>
      card (cross vol' N') \<le> card (cross vol1 N1) \<and>
      unat (volume_next_free_block vol') + 96 * (2 * card (cross vol' N') + k) < 2 ^ 64 \<and>
      unat (free_block_count (superblock vol')) + 2 * card (cross vol' N')
        \<le> unat (free_block_count (superblock vol1)) + ?L1 + 2 * card (cross vol1 N1)"
    proof (rule Suc.IH [OF _ bound refl _ _ R])
      show "pool_on D (device vol1) (cow_of [] vol1) (free_root vol1) N1"
        using f(3) same(2) pool_on_cow_of [of D "device vol" s' vol1] by simp
      show "unat (volume_next_free_block vol1) + 96 * (?L1 + 2 * card (cross vol1 N1) + k) < 2 ^ 64"
        using f(5) L1 by simp
      show "unat (free_block_count (superblock vol1)) + ?L1 + 2 * card (cross vol1 N1) < 2 ^ 64"
        using f(6) L1 Suc.prems(5) by simp
    qed
    then obtain vol' N' where v: "return_freed_cow_blocks_to_free_extent_tree rounds fuel D s' vol1 = (Ok (), vol')"
        "pool_step vol1 vol'" "pool_on D (device vol') (cow_of [] vol') (free_root vol') N'"
        "card (cross vol' N') \<le> card (cross vol1 N1)"
        "unat (volume_next_free_block vol') + 96 * (2 * card (cross vol' N') + k) < 2 ^ 64"
        "unat (free_block_count (superblock vol')) + 2 * card (cross vol' N')
          \<le> unat (free_block_count (superblock vol1)) + ?L1 + 2 * card (cross vol1 N1)"
      by blast
    have "return_freed_cow_blocks_to_free_extent_tree (Suc rounds) fuel D freed vol = (Ok (), vol')"
      using False f(1) v(1) by (simp add: bindS_def getS_def)
    then show ?thesis
      using v pool_step_trans [OF f(2) v(2)] L1 f(6) by (intro exI [of _ vol'] exI [of _ N']) auto
  qed
qed

end
