(* ===== verification/Volume_State.thy ===== *)
theory Volume_State
  imports Free_Pool
begin

text \<open>
  The state of a mounted volume and what one modifying operation costs.

  \<open>trees_of\<close> says which items the inode tree and the checksum tree of a volume hold, \<open>funds\<close> that the
  free tree is well formed and that enough addresses are left. Every operation on a tree takes at most
  32 blocks, and every block it frees may later go back to the free tree at the price of three tree
  operations; one unit of \<open>funds\<close> is 96 addresses.
\<close>

section \<open>Running a tree operation on a volume\<close>

definition after :: "'d bafs_volume \<Rightarrow> cow_state \<Rightarrow> 'd bafs_volume" where
  "after vol st = vol\<lparr>dirty_block_cache := dirty_cache st, volume_next_free_block := next_free_block st\<rparr>"

lemma after_simps [simp]:
  "device (after vol st) = device vol" "superblock (after vol st) = superblock vol"
  "next_transaction_id (after vol st) = next_transaction_id vol"
  "dirty_block_cache (after vol st) = dirty_cache st" "volume_next_free_block (after vol st) = next_free_block st"
  by (simp_all add: after_def)

lemma cow_of_after: "cow_of s (after vol st) = st\<lparr>freed_blocks := s\<rparr>"
  by (cases st) (simp add: cow_of_def after_def)

lemma on_volume_Ok [simp]:
  "m (device vol) (cow_of freed vol) = (Ok x, st) \<Longrightarrow> on_volume m freed vol = (Ok (x, freed_blocks st), after vol st)"
  by (simp add: on_volume_def after_def)

lemma on_volume_Err:
  "m (device vol) (cow_of freed vol) = (Err e, st) \<Longrightarrow> on_volume m freed vol = (Err e, after vol st)"
  by (simp add: on_volume_def after_def)

lemma after_cow_of [simp]: "after vol (cow_of s vol) = vol"
  by (simp add: after_def)

lemma cow_step_freed: "cow_step st st' \<Longrightarrow> cow_step (st\<lparr>freed_blocks := []\<rparr>) (st'\<lparr>freed_blocks := []\<rparr>)"
  by (auto simp: cow_step_def)

lemma tree_at_freed: "tree_at Q lo D dev (st\<lparr>freed_blocks := s\<rparr>) r its = tree_at Q lo D dev st r its"
proof -
  have "tree_on Q lo D dev (st\<lparr>freed_blocks := s\<rparr>) r its N = tree_on Q lo D dev st r its N" for N
    by (rule tree_on_cong) simp_all
  then show ?thesis by (simp add: tree_at_def)
qed

lemma inode_tree_freed: "inode_tree D dev (st\<lparr>freed_blocks := s\<rparr>) r its = inode_tree D dev st r its"
  by (simp add: inode_tree_def tree_at_freed)

lemma cow_of_freed: "cow_of s vol = (cow_of [] vol)\<lparr>freed_blocks := s\<rparr>"
  by (simp add: cow_of_def)

section \<open>The cost of a tree operation\<close>

text \<open>The tree functions promise \<open>room n\<close> afterwards whenever there was \<open>room (n + 1)\<close>; taking the
  largest such \<open>n\<close> bounds what they take.\<close>

definition cheap :: "nat \<Rightarrow> cow_state \<Rightarrow> cow_state \<Rightarrow> bool" where
  "cheap c st st' \<longleftrightarrow> cow_step st st' \<and> unat (next_free_block st') \<le> unat (next_free_block st) + c"

lemma cheap_freed:
  assumes "cheap c st st'"
  shows "length (freed_blocks st') \<le> length (freed_blocks st) + c"
  using assms by (auto simp: cheap_def cow_step_def)

lemma cheap_trans: "cheap c st st' \<Longrightarrow> cheap c' st' st'' \<Longrightarrow> cheap (c + c') st st''"
  using cow_step_trans by (auto simp: cheap_def)

lemma room_quotient:
  assumes "room m st"
  shows "32 * ((2 ^ 64 - 1 - unat (next_free_block st)) div 32) + unat (next_free_block st) < 2 ^ 64 \<and>
    2 ^ 64 \<le> 32 * ((2 ^ 64 - 1 - unat (next_free_block st)) div 32) + unat (next_free_block st) + 32 \<and>
    m \<le> (2 ^ 64 - 1 - unat (next_free_block st)) div 32"
proof -
  define M where "M = (2 :: nat) ^ 64 - 1 - unat (next_free_block st)"
  have M: "M + unat (next_free_block st) + 1 = 2 ^ 64" "32 * m \<le> M"
    using assms unat_bound [of "next_free_block st"] unfolding M_def room_def by simp_all
  have d: "M = 32 * (M div 32) + M mod 32" "M mod 32 < 32" by simp_all
  then have "m \<le> M div 32" using M(2) by linarith
  moreover have "32 * (M div 32) + unat (next_free_block st) < 2 ^ 64"
      "2 ^ 64 \<le> 32 * (M div 32) + unat (next_free_block st) + 32"
    using M(1) d by linarith+
  ultimately show ?thesis unfolding M_def by blast
qed

lemma tree_op_cheap:
  assumes op: "\<And>n. room (Suc n) st \<Longrightarrow> \<exists>st' r. m st = (Ok r, st') \<and> P r st' \<and> cow_step st st' \<and> room n st'"
    and "room 2 st"
  shows "\<exists>st' r. m st = (Ok r, st') \<and> P r st' \<and> cheap 64 st st'"
proof -
  define q where "q = (2 ^ 64 - 1 - unat (next_free_block st)) div 32"
  define n where "n = q - 1"
  have q: "32 * q + unat (next_free_block st) < 2 ^ 64" "2 ^ 64 \<le> 32 * q + unat (next_free_block st) + 32" "2 \<le> q"
    using room_quotient [OF assms(2)] unfolding q_def by simp_all
  have "room (Suc n) st"
    using q unfolding room_def n_def by simp
  then obtain st' r where o: "m st = (Ok r, st')" "P r st'" "cow_step st st'" "room n st'"
    using op by blast
  have "unat (next_free_block st') \<le> unat (next_free_block st) + 64"
    using o(4) q unfolding room_def n_def by simp
  then show ?thesis
    using o by (auto simp: cheap_def)
qed

lemma tree_op3_cheap:
  assumes op: "\<And>n. room (Suc (Suc (Suc n))) st \<Longrightarrow> \<exists>st' r. m st = (Ok r, st') \<and> P r st' \<and> cow_step st st' \<and> room n st'"
    and "room 4 st"
  shows "\<exists>st' r. m st = (Ok r, st') \<and> P r st' \<and> cheap 128 st st'"
proof -
  define q where "q = (2 ^ 64 - 1 - unat (next_free_block st)) div 32"
  define n where "n = q - 3"
  have q: "32 * q + unat (next_free_block st) < 2 ^ 64" "2 ^ 64 \<le> 32 * q + unat (next_free_block st) + 32" "4 \<le> q"
    using room_quotient [OF assms(2)] unfolding q_def by simp_all
  have "room (Suc (Suc (Suc n))) st"
    using q unfolding room_def n_def by simp
  then obtain st' r where o: "m st = (Ok r, st')" "P r st'" "cow_step st st'" "room n st'"
    using op by blast
  have "unat (next_free_block st') \<le> unat (next_free_block st) + 128"
    using o(4) q unfolding room_def n_def by simp
  then show ?thesis
    using o by (auto simp: cheap_def)
qed

section \<open>Funds\<close>

definition funds :: "'d block_device \<Rightarrow> nat \<Rightarrow> nat \<Rightarrow> 'd bafs_volume \<Rightarrow> bool" where
  "funds D rounds u vol \<longleftrightarrow> (\<exists>N. pool_on D (device vol) (cow_of [] vol) (free_root vol) N \<and>
     card (cross vol N) + 2 \<le> rounds \<and>
     unat (volume_next_free_block vol) + 96 * (2 * card (cross vol N) + u) < 2 ^ 64 \<and>
     unat (free_block_count (superblock vol)) + 2 * card (cross vol N) + u < 2 ^ 64 \<and>
     unat (next_cow_block_address (superblock vol)) \<le> unat (volume_next_free_block vol))"

lemma funds_mono: "funds D rounds u vol \<Longrightarrow> u' \<le> u \<Longrightarrow> funds D rounds u' vol"
  by (auto simp: funds_def)

lemma funds_room: "funds D rounds u vol \<Longrightarrow> 32 * n \<le> 96 * u \<Longrightarrow> room n (cow_of s vol)"
  by (auto simp: funds_def room_def)

lemma pool_on_step:
  assumes "cow_step st st'" "pool_on D dev st r N"
  shows "pool_on D dev st' r N"
proof -
  obtain its E where t: "tree_on (keys_of BAFS_FREE_EXTENT_OBJECT_ID ITEM_TYPE_EXTENT_DATA) None D dev st r its N"
      and E: "set its = free_item ` E" "\<forall>a n. (a, n) \<in> E \<longrightarrow> unat a + unat n < 2 ^ 64"
    using assms(2) by (auto simp: pool_on_def)
  have "tree_on (keys_of BAFS_FREE_EXTENT_OBJECT_ID ITEM_TYPE_EXTENT_DATA) None D dev st' r its N"
    by (rule tree_on_step [OF assms(1) t])
  with E show ?thesis unfolding pool_on_def by (intro exI conjI)
qed

text \<open>A change that spends addresses, and possibly lowers the free count.\<close>

lemma funds_spend:
  assumes "funds D rounds u vol" "cheap (96 * c) (cow_of [] vol) (cow_of [] vol')" "u' + c \<le> u"
    and "device vol' = device vol" "free_root vol' = free_root vol"
    and "next_cow_block_address (superblock vol') = next_cow_block_address (superblock vol)"
    and "unat (free_block_count (superblock vol')) + u' \<le> unat (free_block_count (superblock vol)) + u"
  shows "funds D rounds u' vol'"
proof -
  obtain N where N: "pool_on D (device vol) (cow_of [] vol) (free_root vol) N" "card (cross vol N) + 2 \<le> rounds"
      "unat (volume_next_free_block vol) + 96 * (2 * card (cross vol N) + u) < 2 ^ 64"
      "unat (free_block_count (superblock vol)) + 2 * card (cross vol N) + u < 2 ^ 64"
      "unat (next_cow_block_address (superblock vol)) \<le> unat (volume_next_free_block vol)"
    using assms(1) by (auto simp: funds_def)
  have c: "cow_step (cow_of [] vol) (cow_of [] vol')"
      "unat (volume_next_free_block vol') \<le> unat (volume_next_free_block vol) + 96 * c"
    using assms(2) by (simp_all add: cheap_def)
  have x: "cross vol' N = cross vol N" using assms(6) by (simp add: cross_def)
  have "pool_on D (device vol') (cow_of [] vol') (free_root vol') N"
    using pool_on_step [OF c(1) N(1)] assms(4,5) by simp
  then show ?thesis
    unfolding funds_def using N(2-5) c(2) assms(3,6,7) cow_step_next [OF c(1)] x
    by (intro exI [of _ N]) auto
qed

lemma return_freed_funds:
  assumes "funds D rounds (length freed + u) vol" "deep fuel"
  shows "\<exists>vol'. return_freed_cow_blocks_to_free_extent_tree rounds fuel D freed vol = (Ok (), vol') \<and>
    pool_step vol vol' \<and> funds D rounds u vol'"
proof -
  define L where "L = length (filter (\<lambda>b. b < next_cow_block_address (superblock vol)) freed)"
  have L: "L \<le> length freed" unfolding L_def by simp
  obtain N where N: "pool_on D (device vol) (cow_of [] vol) (free_root vol) N" "card (cross vol N) + 2 \<le> rounds"
      "unat (volume_next_free_block vol) + 96 * (2 * card (cross vol N) + (length freed + u)) < 2 ^ 64"
      "unat (free_block_count (superblock vol)) + 2 * card (cross vol N) + (length freed + u) < 2 ^ 64"
      "unat (next_cow_block_address (superblock vol)) \<le> unat (volume_next_free_block vol)"
    using assms(1) by (auto simp: funds_def)
  have "\<exists>vol' N'. return_freed_cow_blocks_to_free_extent_tree rounds fuel D freed vol = (Ok (), vol') \<and>
    pool_step vol vol' \<and> pool_on D (device vol') (cow_of [] vol') (free_root vol') N' \<and>
    card (cross vol' N') \<le> card (cross vol N) \<and>
    unat (volume_next_free_block vol') + 96 * (2 * card (cross vol' N') + u) < 2 ^ 64 \<and>
    unat (free_block_count (superblock vol')) + 2 * card (cross vol' N')
      \<le> unat (free_block_count (superblock vol)) + L + 2 * card (cross vol N)"
    using N(2-4) L by (intro return_freed_pool [OF N(1) assms(2) N(5) L_def]) auto
  then obtain vol' N' where v: "return_freed_cow_blocks_to_free_extent_tree rounds fuel D freed vol = (Ok (), vol')"
      "pool_step vol vol'" "pool_on D (device vol') (cow_of [] vol') (free_root vol') N'"
      "card (cross vol' N') \<le> card (cross vol N)"
      "unat (volume_next_free_block vol') + 96 * (2 * card (cross vol' N') + u) < 2 ^ 64"
      "unat (free_block_count (superblock vol')) + 2 * card (cross vol' N')
        \<le> unat (free_block_count (superblock vol)) + L + 2 * card (cross vol N)" by blast
  have "next_cow_block_address (superblock vol') = next_cow_block_address (superblock vol)"
      "unat (volume_next_free_block vol) \<le> unat (volume_next_free_block vol')"
    using v(2) cow_step_next [of "cow_of [] vol" "cow_of [] vol'"] by (auto simp: pool_step_def)
  then have "funds D rounds u vol'"
    unfolding funds_def using v(3-6) N(2,4,5) L by (intro exI [of _ N']) auto
  with v(1,2) show ?thesis by blast
qed

section \<open>The trees of a volume\<close>

definition trees_of :: "'d block_device \<Rightarrow> 'd bafs_volume \<Rightarrow> bafs_leaf_item list \<Rightarrow> bafs_leaf_item list \<Rightarrow> bool" where
  "trees_of D vol its cks \<longleftrightarrow>
     inode_tree D (device vol) (cow_of [] vol) (inode_tree_root_block (superblock vol)) its \<and>
     checksum_tree D (device vol) (cow_of [] vol) (checksum_tree_root_block (superblock vol)) cks"

text \<open>What an operation may change of a volume besides the inode counter: the cache above the bump pointer,
  the three roots and the free count.\<close>

definition vol_step :: "'d bafs_volume \<Rightarrow> 'd bafs_volume \<Rightarrow> bool" where
  "vol_step vol vol' \<longleftrightarrow> device vol' = device vol \<and> next_transaction_id vol' = next_transaction_id vol \<and>
     (\<exists>i f c n. superblock vol' = (superblock vol)\<lparr>inode_tree_root_block := i, free_extent_tree_root_block := f,
        checksum_tree_root_block := c, free_block_count := n\<rparr>) \<and>
     cow_step (cow_of [] vol) (cow_of [] vol')"

lemma vol_step_trans:
  assumes "vol_step a b" "vol_step b c"
  shows "vol_step a c"
proof -
  obtain i f k n i' f' k' n' where "superblock b = (superblock a)\<lparr>inode_tree_root_block := i,
        free_extent_tree_root_block := f, checksum_tree_root_block := k, free_block_count := n\<rparr>"
      "superblock c = (superblock b)\<lparr>inode_tree_root_block := i',
        free_extent_tree_root_block := f', checksum_tree_root_block := k', free_block_count := n'\<rparr>"
    using assms by (auto simp: vol_step_def)
  then have "superblock c = (superblock a)\<lparr>inode_tree_root_block := i',
        free_extent_tree_root_block := f', checksum_tree_root_block := k', free_block_count := n'\<rparr>" by simp
  then show ?thesis
    using assms cow_step_trans [of "cow_of [] a" "cow_of [] b" "cow_of [] c"] unfolding vol_step_def by auto
qed

lemma vol_stepI:
  "device vol' = device vol \<Longrightarrow> next_transaction_id vol' = next_transaction_id vol \<Longrightarrow>
    superblock vol' = (superblock vol)\<lparr>inode_tree_root_block := i, free_extent_tree_root_block := f,
      checksum_tree_root_block := c, free_block_count := n\<rparr> \<Longrightarrow>
    cow_step (cow_of [] vol) (cow_of [] vol') \<Longrightarrow> vol_step vol vol'"
  unfolding vol_step_def by blast

lemma vol_step_refl: "vol_step vol vol"
  by (rule vol_stepI [where i = "inode_tree_root_block (superblock vol)" and f = "free_root vol"
        and c = "checksum_tree_root_block (superblock vol)" and n = "free_block_count (superblock vol)"]) simp_all

lemma pool_step_vol: "pool_step vol vol' \<Longrightarrow> vol_step vol vol'"
proof -
  assume p: "pool_step vol vol'"
  then obtain f n where "superblock vol' = (superblock vol)\<lparr>free_extent_tree_root_block := f, free_block_count := n\<rparr>"
    by (auto simp: pool_step_def)
  with p show ?thesis
    by (intro vol_stepI [where i = "inode_tree_root_block (superblock vol)" and f = f
          and c = "checksum_tree_root_block (superblock vol)" and n = n]) (simp_all add: pool_step_def)
qed

lemma vol_step_simps:
  assumes "vol_step vol vol'"
  shows "device vol' = device vol" "next_transaction_id vol' = next_transaction_id vol"
    "allocated_inode_count (superblock vol') = allocated_inode_count (superblock vol)"
    "next_cow_block_address (superblock vol') = next_cow_block_address (superblock vol)"
    "total_block_count (superblock vol') = total_block_count (superblock vol)"
    "root_inode_number (superblock vol') = root_inode_number (superblock vol)"
    "cow_step (cow_of [] vol) (cow_of [] vol')"
  using assms by (auto simp: vol_step_def)

lemma pool_step_trees:
  assumes "pool_step vol vol'" "trees_of D vol its cks"
  shows "trees_of D vol' its cks"
proof -
  have c: "cow_step (cow_of [] vol) (cow_of [] vol')" "device vol' = device vol"
      "inode_tree_root_block (superblock vol') = inode_tree_root_block (superblock vol)"
      "checksum_tree_root_block (superblock vol') = checksum_tree_root_block (superblock vol)"
    using assms(1) by (auto simp: pool_step_def)
  show ?thesis
    using assms(2) unfolding trees_of_def c(2-4) by (auto intro: it.frame [OF c(1)] bt.frame [OF c(1)])
qed

section \<open>Changing the inode tree\<close>

lemma cow_of_set [simp]:
  "cow_of s (vol\<lparr>superblock := f\<rparr>) = cow_of s vol"
  by (simp add: cow_of_def)

lemma cheap_after:
  assumes "cheap c (cow_of freed vol) st"
  shows "cheap c (cow_of [] vol) (cow_of [] (after vol st))"
proof -
  have e: "(cow_of freed vol)\<lparr>freed_blocks := []\<rparr> = cow_of [] vol" by (simp add: cow_of_def)
  have "cow_step (cow_of [] vol) (st\<lparr>freed_blocks := []\<rparr>)"
    using cow_step_freed [of "cow_of freed vol" st] assms unfolding e by (simp add: cheap_def)
  then show ?thesis
    using assms by (simp add: cheap_def cow_of_after)
qed

definition inode_op :: "'d block_device \<Rightarrow> ('d \<Rightarrow> u64 \<Rightarrow> u64 \<Rightarrow> (cow_state, u64) sop) \<Rightarrow> u64 list \<Rightarrow> 'd bafs_volume
    \<Rightarrow> bafs_leaf_item list \<Rightarrow> bool" where
  "inode_op D m freed vol its' \<longleftrightarrow> (\<forall>n. room (Suc n) (cow_of freed vol) \<longrightarrow>
     (\<exists>st' r. m (device vol) (inode_tree_root_block (superblock vol)) (next_transaction_id vol) (cow_of freed vol) = (Ok r, st') \<and>
        inode_tree D (device vol) st' r its' \<and> cow_step (cow_of freed vol) st' \<and> room n st'))"

lemma update_inode_tree_at:
  assumes "trees_of D vol its cks" "funds D rounds (Suc u) vol" "1 \<le> u"
    and op: "inode_op D m freed vol its'"
  shows "\<exists>freed' vol'. update_inode_tree m freed vol = (Ok freed', vol') \<and> trees_of D vol' its' cks \<and>
    vol_step vol vol' \<and> funds D rounds u vol' \<and> length freed' \<le> length freed + 64"
proof -
  have "room 2 (cow_of freed vol)" by (rule funds_room [OF assms(2)]) (use assms(3) in simp)
  then have "\<exists>st r. m (device vol) (inode_tree_root_block (superblock vol)) (next_transaction_id vol) (cow_of freed vol) = (Ok r, st) \<and> inode_tree D (device vol) st r its' \<and>
      cheap 64 (cow_of freed vol) st"
    using op unfolding inode_op_def by (intro tree_op_cheap) blast+
  then obtain st r where o: "m (device vol) (inode_tree_root_block (superblock vol)) (next_transaction_id vol) (cow_of freed vol) = (Ok r, st)"
      "inode_tree D (device vol) st r its'" "cheap 64 (cow_of freed vol) st"
    by blast
  let ?vol = "(after vol st)\<lparr>superblock := (superblock vol)\<lparr>inode_tree_root_block := r\<rparr>\<rparr>"
  have run: "update_inode_tree m freed vol = (Ok (freed_blocks st), ?vol)"
    by (simp add: update_inode_tree_def o(1) set_superblock_def)
  note c = cheap_after [OF o(3)]
  have k: "cow_step (cow_of [] vol) (cow_of [] ?vol)" using c by (simp add: cheap_def)
  have "trees_of D ?vol its' cks"
    using assms(1) o(2) bt.frame [OF k] by (auto simp: trees_of_def cow_of_after inode_tree_freed)
  moreover have "vol_step vol ?vol"
    using k by (intro vol_stepI [where i = r and f = "free_root vol" and c = "checksum_tree_root_block (superblock vol)"
          and n = "free_block_count (superblock vol)"]) simp_all
  moreover have "cheap (96 * 1) (cow_of [] vol) (cow_of [] ?vol)"
    using c by (simp add: cheap_def)
  from funds_spend [OF assms(2) this, of u] have "funds D rounds u ?vol" by simp
  ultimately show ?thesis
    using run cheap_freed [OF o(3)] by (intro exI [of _ "freed_blocks st"] exI [of _ ?vol]) simp
qed

lemma return_freed_trees:
  assumes "trees_of D vol its cks" "funds D rounds (length freed + u) vol" "deep fuel"
  shows "\<exists>vol'. return_freed_cow_blocks_to_free_extent_tree rounds fuel D freed vol = (Ok (), vol') \<and>
    trees_of D vol' its cks \<and> vol_step vol vol' \<and> funds D rounds u vol'"
  using return_freed_funds [OF assms(2,3)] pool_step_trees [OF _ assms(1)] pool_step_vol by blast

text \<open>One change of the inode tree costs 65 units: one for the blocks it takes and 64 for those it
  frees.\<close>

lemma update_and_return:
  assumes "trees_of D vol its cks" "funds D rounds (65 + u) vol" "deep fuel"
    and op: "inode_op D m [] vol its'"
  shows "\<exists>freed vol1 vol'. update_inode_tree m [] vol = (Ok freed, vol1) \<and>
    return_freed_cow_blocks_to_free_extent_tree rounds fuel D freed vol1 = (Ok (), vol') \<and>
    trees_of D vol' its' cks \<and> vol_step vol vol' \<and> funds D rounds u vol'"
proof -
  have f: "funds D rounds (Suc (64 + u)) vol" using assms(2) by simp
  obtain freed vol1 where a: "update_inode_tree m [] vol = (Ok freed, vol1)" "trees_of D vol1 its' cks"
      "vol_step vol vol1" "funds D rounds (64 + u) vol1" "length freed \<le> 64"
    using update_inode_tree_at [OF assms(1) f _ op] by fastforce
  then have "funds D rounds (length freed + u) vol1" using funds_mono [OF a(4)] by simp
  from return_freed_trees [OF a(2) this assms(3)] a(1,3) vol_step_trans show ?thesis by blast
qed

lemma volume_write_inode_at:
  assumes "trees_of D vol its cks" "funds D rounds (65 + u) vol" "deep fuel"
    and "wf_inode inode" "1 \<le> inode_number inode"
  shows "\<exists>vol'. volume_write_inode rounds fuel D inode vol = (Ok (), vol') \<and>
    trees_of D vol' (upd_items (inode_key (inode_number inode)) (serialise_inode_to_bytes inode) its) cks \<and>
    vol_step vol vol' \<and> funds D rounds u vol'"
proof -
  have i: "inode_tree D (device vol) (cow_of [] vol) (inode_tree_root_block (superblock vol)) its"
    using assms(1) by (simp add: trees_of_def)
  have op: "inode_op D (\<lambda>dev root generation. write_inode_to_tree fuel D dev root inode generation) [] vol
      (upd_items (inode_key (inode_number inode)) (serialise_inode_to_bytes inode) its)"
    unfolding inode_op_def using write_inode_at [OF i assms(3) _ assms(4,5)] by blast
  show ?thesis
    using update_and_return [OF assms(1-3) op] by (auto simp: volume_write_inode_def)
qed

end
