(* ===== verification/File_System.thy ===== *)
theory File_System
  imports Volume_State
begin

text \<open>
  The abstract file system of a volume: inodes, directory entries, file extents and block checksums as
  maps, and how the items of the two trees represent them.
\<close>

section \<open>The abstract state\<close>

record file_system =
  fs_inodes :: "u64 \<Rightarrow> bafs_inode option"
  fs_entries :: "u64 \<Rightarrow> bytes \<Rightarrow> bafs_dir_entry option"
  fs_extents :: "u64 \<Rightarrow> bafs_extent_data set"
  fs_checksums :: "u64 \<Rightarrow> bytes option"

definition fs_of :: "bafs_leaf_item list \<Rightarrow> bafs_leaf_item list \<Rightarrow> file_system" where
  "fs_of its cks = \<lparr>fs_inodes = inode_at its, fs_entries = dir_map its, fs_extents = file_extents its,
     fs_checksums = (\<lambda>a. kv_map cks (checksum_key a))\<rparr>"

lemma fs_of_simps [simp]:
  "fs_inodes (fs_of its cks) = inode_at its" "fs_entries (fs_of its cks) = dir_map its"
  "fs_extents (fs_of its cks) = file_extents its" "fs_checksums (fs_of its cks) a = kv_map cks (checksum_key a)"
  by (simp_all add: fs_of_def)

text \<open>Every item of the inode tree is an inode, a directory entry or an extent, stored under its key.\<close>

definition inode_item :: "bafs_leaf_item \<Rightarrow> bafs_inode \<Rightarrow> bool" where
  "inode_item i inode \<longleftrightarrow> i = \<lparr>item_key = inode_key (inode_number inode),
     item_value = serialise_inode_to_bytes inode\<rparr> \<and> wf_inode inode"

definition items_wf :: "bafs_leaf_item list \<Rightarrow> bool" where
  "items_wf its \<longleftrightarrow> (\<forall>i\<in>set its. (\<exists>inode. inode_item i inode) \<or> (\<exists>p e. dir_item p i e) \<or> (\<exists>ino e. extent_item ino i e))"

lemmas item_types = ITEM_TYPE_INODE_def ITEM_TYPE_DIRECTORY_ENTRY_def ITEM_TYPE_EXTENT_DATA_def

lemma item_keys_simps [simp]:
  "item_type (inode_key ino) = ITEM_TYPE_INODE" "object_id (inode_key ino) = ino"
  "item_type (extent_key ino off) = ITEM_TYPE_EXTENT_DATA" "object_id (extent_key ino off) = ino"
  "object_id (make_directory_entry_key p n) = p"
  "inode_key ino = inode_key ino' \<longleftrightarrow> ino = ino'"
  "extent_key ino off = extent_key ino' off' \<longleftrightarrow> ino = ino' \<and> off = off'"
  by (simp_all add: inode_key_def extent_key_def make_directory_entry_key_def)

lemma item_keys_differ [simp]:
  "inode_key ino \<noteq> make_directory_entry_key p n" "make_directory_entry_key p n \<noteq> inode_key ino"
  "inode_key ino \<noteq> extent_key ino' off" "extent_key ino' off \<noteq> inode_key ino"
  "extent_key ino off \<noteq> make_directory_entry_key p n" "make_directory_entry_key p n \<noteq> extent_key ino off"
  by (simp_all add: inode_key_def extent_key_def make_directory_entry_key_def item_types)

lemma items_wf_dirs: "items_wf its \<Longrightarrow> dir_wf its p"
proof -
  assume w: "items_wf its"
  have "\<exists>e. dir_item p i e" if i: "i \<in> set its" "keys_of p ITEM_TYPE_DIRECTORY_ENTRY (item_key i)" for i
  proof -
    consider (a) inode where "inode_item i inode" | (b) p' e where "dir_item p' i e" | (c) ino e where "extent_item ino i e"
      using w i(1) unfolding items_wf_def by blast
    then show ?thesis
    proof cases
      case b
      with i(2) have "p' = p" by (auto simp: dir_item_def)
      with b show ?thesis by blast
    qed (use i(2) in \<open>auto simp: inode_item_def extent_item_def keys_of_def item_types\<close>)
  qed
  then show ?thesis by (auto simp: dir_wf_def)
qed

lemma items_wf_extents: "items_wf its \<Longrightarrow> extents_wf its ino"
proof -
  assume w: "items_wf its"
  have "\<exists>e. extent_item ino i e" if i: "i \<in> set its" "keys_of ino ITEM_TYPE_EXTENT_DATA (item_key i)" for i
  proof -
    consider (a) inode where "inode_item i inode" | (b) p' e where "dir_item p' i e" | (c) ino' e where "extent_item ino' i e"
      using w i(1) unfolding items_wf_def by blast
    then show ?thesis
    proof cases
      case c
      with i(2) have "ino' = ino" by (auto simp: extent_item_def keys_of_def)
      with c show ?thesis by blast
    qed (use i(2) in \<open>auto simp: inode_item_def dir_item_def keys_of_def item_types\<close>)
  qed
  then show ?thesis by (auto simp: extents_wf_def)
qed

lemma inode_at_Some:
  assumes "sorted_items its" "items_wf its"
  shows "inode_at its ino = Some inode \<longleftrightarrow>
    inode_number inode = ino \<and> wf_inode inode \<and> kv_map its (inode_key ino) = Some (serialise_inode_to_bytes inode)"
proof
  assume a: "inode_at its ino = Some inode"
  then obtain v where v: "kv_map its (inode_key ino) = Some v" "deserialise_inode_from_bytes v = Ok inode"
    by (auto simp: inode_at_def split: option.splits result.splits)
  then obtain i where i: "i \<in> set its" "item_key i = inode_key ino" "item_value i = v"
    using kv_map_Some [OF assms(1)] by blast
  then obtain inode' where "inode_item i inode'"
    using assms(2) by (auto simp: items_wf_def dir_item_def extent_item_def)
  with i v show "inode_number inode = ino \<and> wf_inode inode \<and> kv_map its (inode_key ino) = Some (serialise_inode_to_bytes inode)"
    by (auto simp: inode_item_def inode_codec)
qed (auto simp: inode_at_def inode_codec)

section \<open>Updates\<close>

text \<open>A key of one kind does not affect the views of the other kinds.\<close>

lemma dir_map_upd_other:
  "sorted_items its \<Longrightarrow> item_type k \<noteq> ITEM_TYPE_DIRECTORY_ENTRY \<Longrightarrow> dir_map (upd_items k v its) = dir_map its"
  by (rule ext, rule dir_upd_other(2)) (auto simp: keys_of_def)

lemma file_extents_upd_other:
  "sorted_items its \<Longrightarrow> (\<And>off. k \<noteq> extent_key ino off) \<Longrightarrow> file_extents (upd_items k v its) ino = file_extents its ino"
  by (auto simp: file_extents_def set_upd_items extent_item_def)

lemma items_wf_upd:
  assumes "sorted_items its" "items_wf its" and
    "(\<exists>inode. inode_item \<lparr>item_key = k, item_value = v\<rparr> inode) \<or> (\<exists>p e. dir_item p \<lparr>item_key = k, item_value = v\<rparr> e) \<or>
      (\<exists>ino e. extent_item ino \<lparr>item_key = k, item_value = v\<rparr> e)"
  shows "items_wf (upd_items k v its)"
  using assms by (auto simp: items_wf_def set_upd_items)

lemma items_wf_del: "items_wf its \<Longrightarrow> items_wf (del_items k its)"
  by (auto simp: items_wf_def del_items_def)

definition put_inode :: "bafs_inode \<Rightarrow> file_system \<Rightarrow> file_system" where
  "put_inode inode fs = fs\<lparr>fs_inodes := (fs_inodes fs)(inode_number inode \<mapsto> inode)\<rparr>"

definition put_entry :: "u64 \<Rightarrow> bafs_dir_entry \<Rightarrow> file_system \<Rightarrow> file_system" where
  "put_entry p e fs = fs\<lparr>fs_entries := (fs_entries fs)(p := \<lambda>n. if n = filename e then Some e
     else if xxhash64_with_seed_zero n = xxhash64_with_seed_zero (filename e) then None else fs_entries fs p n)\<rparr>"

definition put_extent :: "u64 \<Rightarrow> bafs_extent_data \<Rightarrow> file_system \<Rightarrow> file_system" where
  "put_extent ino e fs = fs\<lparr>fs_extents := (fs_extents fs)(ino :=
     insert e {e' \<in> fs_extents fs ino. logical_byte_offset e' \<noteq> logical_byte_offset e})\<rparr>"

definition drop_entry :: "u64 \<Rightarrow> bytes \<Rightarrow> file_system \<Rightarrow> file_system" where
  "drop_entry p n fs = fs\<lparr>fs_entries := (fs_entries fs)(p := (fs_entries fs p)(n := None))\<rparr>"

definition drop_inode :: "u64 \<Rightarrow> file_system \<Rightarrow> file_system" where
  "drop_inode ino fs = fs\<lparr>fs_inodes := (fs_inodes fs)(ino := None)\<rparr>"

definition drop_extent :: "u64 \<Rightarrow> u64 \<Rightarrow> file_system \<Rightarrow> file_system" where
  "drop_extent ino off fs = fs\<lparr>fs_extents := (fs_extents fs)(ino :=
     {e \<in> fs_extents fs ino. logical_byte_offset e \<noteq> off})\<rparr>"

lemma fs_put_inode:
  assumes "sorted_items its" "items_wf its" "wf_inode inode"
  defines "its' \<equiv> upd_items (inode_key (inode_number inode)) (serialise_inode_to_bytes inode) its"
  shows "items_wf its'" "fs_of its' cks = put_inode inode (fs_of its cks)"
proof -
  show "items_wf its'"
    unfolding its'_def using assms(3) by (intro items_wf_upd [OF assms(1,2)]) (auto simp: inode_item_def)
  have "dir_map its' = dir_map its"
    unfolding its'_def by (rule dir_map_upd_other [OF assms(1)]) (simp add: item_types)
  moreover have "file_extents its' = file_extents its"
    unfolding its'_def by (rule ext, rule file_extents_upd_other [OF assms(1)]) simp
  moreover have "inode_at its' = (inode_at its)(inode_number inode \<mapsto> inode)"
    unfolding its'_def by (rule inode_at_upd [OF assms(1,3)])
  ultimately show "fs_of its' cks = put_inode inode (fs_of its cks)"
    by (simp add: fs_of_def put_inode_def)
qed

lemma fs_put_entry:
  fixes p :: u64
  assumes "sorted_items its" "items_wf its" "entry_ok e"
  defines "its' \<equiv> upd_items (make_directory_entry_key p (filename e)) (serialise_dir_entry_to_bytes e) its"
  shows "items_wf its'" "fs_of its' cks = put_entry p e (fs_of its cks)"
proof -
  have d: "dir_item p \<lparr>item_key = make_directory_entry_key p (filename e), item_value = serialise_dir_entry_to_bytes e\<rparr> e"
    using assms(3) by (simp add: dir_item_def)
  show "items_wf its'"
    unfolding its'_def using d by (intro items_wf_upd [OF assms(1,2)]) blast
  have "inode_at its' = inode_at its"
    unfolding its'_def by (rule inode_at_upd_other [OF assms(1)]) (simp add: item_types)
  moreover have "file_extents its' = file_extents its"
    unfolding its'_def by (rule ext, rule file_extents_upd_other [OF assms(1)]) simp
  moreover have "dir_map its' p = (\<lambda>n'. if n' = filename e then Some e
      else if xxhash64_with_seed_zero n' = xxhash64_with_seed_zero (filename e) then None else dir_map its p n')"
    unfolding its'_def by (rule dir_upd(2) [OF assms(1) items_wf_dirs [OF assms(2)] assms(3) refl])
  moreover have "dir_map its' p' = dir_map its p'" if "p' \<noteq> p" for p'
    unfolding its'_def using that by (intro dir_upd_other(2) [OF assms(1)]) simp
  ultimately show "fs_of its' cks = put_entry p e (fs_of its cks)"
    by (auto simp: fs_of_def put_entry_def fun_eq_iff)
qed

lemma fs_put_extent:
  fixes ino :: u64
  assumes "sorted_items its" "items_wf its" "extent_end e < 2 ^ 64"
  defines "its' \<equiv> upd_items (extent_key ino (logical_byte_offset e)) (serialise_extent_data_to_bytes e) its"
  shows "items_wf its'" "fs_of its' cks = put_extent ino e (fs_of its cks)"
proof -
  have d: "extent_item ino \<lparr>item_key = extent_key ino (logical_byte_offset e), item_value = serialise_extent_data_to_bytes e\<rparr> e"
    using assms(3) by (simp add: extent_item_def)
  show "items_wf its'"
    unfolding its'_def using d by (intro items_wf_upd [OF assms(1,2)]) blast
  have "inode_at its' = inode_at its"
    unfolding its'_def by (rule inode_at_upd_other [OF assms(1)]) (simp add: item_types)
  moreover have "dir_map its' = dir_map its"
    unfolding its'_def by (rule dir_map_upd_other [OF assms(1)]) (simp add: item_types)
  moreover have "file_extents its' ino = insert e {e' \<in> file_extents its ino. logical_byte_offset e' \<noteq> logical_byte_offset e}"
    unfolding its'_def by (rule file_extents_upd(2) [OF assms(1) items_wf_extents [OF assms(2)] assms(3)])
  moreover have "file_extents its' ino' = file_extents its ino'" if "ino' \<noteq> ino" for ino'
    unfolding its'_def using that by (intro file_extents_upd_other [OF assms(1)]) simp
  ultimately show "fs_of its' cks = put_extent ino e (fs_of its cks)"
    by (auto simp: fs_of_def put_extent_def fun_eq_iff)
qed

lemma fs_del_other:
  "(\<And>ino. k \<noteq> inode_key ino) \<Longrightarrow> inode_at (del_items k its) = inode_at its"
  "(\<And>n. k \<noteq> make_directory_entry_key p n) \<Longrightarrow> dir_map (del_items k its) p = dir_map its p"
  "(\<And>off. k \<noteq> extent_key ino off) \<Longrightarrow> file_extents (del_items k its) ino = file_extents its ino"
proof -
  show "inode_at (del_items k its) = inode_at its" if "\<And>ino. k \<noteq> inode_key ino"
    using that [symmetric] by (simp add: inode_at_def kv_map_del_items fun_eq_iff)
  show "dir_map (del_items k its) p = dir_map its p" if "\<And>n. k \<noteq> make_directory_entry_key p n"
    using that [symmetric] by (simp add: dir_map_def kv_map_del_items fun_eq_iff)
  show "file_extents (del_items k its) ino = file_extents its ino" if "\<And>off. k \<noteq> extent_key ino off"
    using that by (auto simp: file_extents_def del_items_def extent_item_def)
qed

lemma fs_drop_entry:
  assumes "sorted_items its" "items_wf its" "dir_map its p n \<noteq> None"
  shows "fs_of (del_items (make_directory_entry_key p n) its) cks = drop_entry p n (fs_of its cks)"
proof -
  let ?k = "make_directory_entry_key p n"
  have "dir_map (del_items ?k its) p = (dir_map its p)(n := None)"
    by (rule dir_del(2) [OF assms(1) items_wf_dirs [OF assms(2)] assms(3)])
  moreover have "dir_map (del_items ?k its) p' = dir_map its p'" if "p' \<noteq> p" for p'
    by (rule fs_del_other) (use that in auto)
  moreover have "inode_at (del_items ?k its) = inode_at its" by (rule fs_del_other) simp
  moreover have "file_extents (del_items ?k its) ino = file_extents its ino" for ino by (rule fs_del_other) simp
  ultimately show ?thesis by (auto simp: fs_of_def drop_entry_def fun_eq_iff)
qed

lemma fs_drop_inode: "fs_of (del_items (inode_key ino) its) cks = drop_inode ino (fs_of its cks)"
proof -
  have "dir_map (del_items (inode_key ino) its) p = dir_map its p" for p by (rule fs_del_other) simp
  moreover have "file_extents (del_items (inode_key ino) its) i = file_extents its i" for i by (rule fs_del_other) simp
  ultimately show ?thesis
    by (auto simp: fs_of_def drop_inode_def fun_eq_iff inode_at_def kv_map_del_items)
qed

lemma fs_drop_extent: "fs_of (del_items (extent_key ino off) its) cks = drop_extent ino off (fs_of its cks)"
proof -
  have "inode_at (del_items (extent_key ino off) its) = inode_at its" by (rule fs_del_other) simp
  moreover have "dir_map (del_items (extent_key ino off) its) p = dir_map its p" for p by (rule fs_del_other) simp
  moreover have "file_extents (del_items (extent_key ino off) its) i = file_extents its i" if "i \<noteq> ino" for i
    by (rule fs_del_other) (use that in auto)
  moreover have "file_extents (del_items (extent_key ino off) its) ino = {e \<in> file_extents its ino. logical_byte_offset e \<noteq> off}"
    by (auto simp: file_extents_def del_items_def extent_item_def)
  ultimately show ?thesis
    by (auto simp: fs_of_def drop_extent_def fun_eq_iff)
qed

section \<open>Consistent file systems\<close>

text \<open>\<open>fs_valid c fs\<close>, for a file system whose inode numbers are at most \<open>c\<close>: the root is a directory;
  every inode is stored under its number; only regular files have extents; every entry is in a
  directory and leads to an inode of the type that it states, no other entry leads there, and the inode
  has the link count of its type.\<close>

definition linked :: "file_system \<Rightarrow> bafs_dir_entry \<Rightarrow> bool" where
  "linked fs e \<longleftrightarrow> (\<exists>inode. fs_inodes fs (child_inode_number e) = Some inode \<and>
     (is_directory inode \<and> child_type e = CHILD_TYPE_DIRECTORY \<and> hard_link_count inode = 2 \<or>
      is_regular_file inode \<and> child_type e = CHILD_TYPE_REGULAR_FILE \<and> hard_link_count inode = 1))"

definition fs_valid :: "u64 \<Rightarrow> file_system \<Rightarrow> bool" where
  "fs_valid c fs \<longleftrightarrow>
     (\<exists>r. fs_inodes fs BAFS_ROOT_INODE_NUMBER = Some r \<and> is_directory r) \<and>
     (\<forall>ino inode. fs_inodes fs ino = Some inode \<longrightarrow> inode_number inode = ino \<and> wf_inode inode \<and> 1 \<le> ino \<and> ino \<le> c) \<and>
     (\<forall>ino. fs_extents fs ino \<noteq> {} \<longrightarrow> (\<exists>inode. fs_inodes fs ino = Some inode \<and> is_regular_file inode)) \<and>
     (\<forall>p n e. fs_entries fs p n = Some e \<longrightarrow> entry_ok e \<and> filename e = n \<and> linked fs e \<and>
        child_inode_number e \<noteq> BAFS_ROOT_INODE_NUMBER \<and> (\<exists>d. fs_inodes fs p = Some d \<and> is_directory d)) \<and>
     (\<forall>p n e p' n' e'. fs_entries fs p n = Some e \<and> fs_entries fs p' n' = Some e' \<and>
        child_inode_number e' = child_inode_number e \<longrightarrow> p' = p \<and> n' = n)"

lemma fs_validI:
  assumes "\<exists>r. fs_inodes fs BAFS_ROOT_INODE_NUMBER = Some r \<and> is_directory r"
    and "\<And>ino inode. fs_inodes fs ino = Some inode \<Longrightarrow> inode_number inode = ino \<and> wf_inode inode \<and> 1 \<le> ino \<and> ino \<le> c"
    and "\<And>ino. fs_extents fs ino \<noteq> {} \<Longrightarrow> \<exists>inode. fs_inodes fs ino = Some inode \<and> is_regular_file inode"
    and "\<And>p n e. fs_entries fs p n = Some e \<Longrightarrow> entry_ok e \<and> filename e = n \<and> linked fs e \<and>
        child_inode_number e \<noteq> BAFS_ROOT_INODE_NUMBER \<and> (\<exists>d. fs_inodes fs p = Some d \<and> is_directory d)"
    and "\<And>p n e p' n' e'. fs_entries fs p n = Some e \<Longrightarrow> fs_entries fs p' n' = Some e' \<Longrightarrow>
        child_inode_number e' = child_inode_number e \<Longrightarrow> p' = p \<and> n' = n"
  shows "fs_valid c fs"
  unfolding fs_valid_def
proof (intro conjI)
  show "\<exists>r. fs_inodes fs BAFS_ROOT_INODE_NUMBER = Some r \<and> is_directory r" by (rule assms(1))
qed (use assms(2-5) in blast)+

lemma fs_validD:
  assumes "fs_valid c fs"
  shows "\<exists>r. fs_inodes fs BAFS_ROOT_INODE_NUMBER = Some r \<and> is_directory r"
    "fs_inodes fs ino = Some inode \<Longrightarrow> inode_number inode = ino \<and> wf_inode inode \<and> 1 \<le> ino \<and> ino \<le> c"
    "fs_extents fs ino \<noteq> {} \<Longrightarrow> \<exists>inode. fs_inodes fs ino = Some inode \<and> is_regular_file inode"
    "fs_entries fs p n = Some e \<Longrightarrow> entry_ok e \<and> filename e = n \<and> linked fs e \<and>
        child_inode_number e \<noteq> BAFS_ROOT_INODE_NUMBER \<and> (\<exists>d. fs_inodes fs p = Some d \<and> is_directory d)"
    "fs_entries fs p n = Some e \<Longrightarrow> fs_entries fs p' n' = Some e' \<Longrightarrow>
        child_inode_number e' = child_inode_number e \<Longrightarrow> p' = p \<and> n' = n"
proof -
  note v = assms [unfolded fs_valid_def]
  show "\<exists>r. fs_inodes fs BAFS_ROOT_INODE_NUMBER = Some r \<and> is_directory r" using v by (elim conjE)
  show "fs_inodes fs ino = Some inode \<Longrightarrow> inode_number inode = ino \<and> wf_inode inode \<and> 1 \<le> ino \<and> ino \<le> c"
    using v by (elim conjE) blast
  show "fs_extents fs ino \<noteq> {} \<Longrightarrow> \<exists>inode. fs_inodes fs ino = Some inode \<and> is_regular_file inode"
    using v by (elim conjE) blast
  show "fs_entries fs p n = Some e \<Longrightarrow> entry_ok e \<and> filename e = n \<and> linked fs e \<and>
        child_inode_number e \<noteq> BAFS_ROOT_INODE_NUMBER \<and> (\<exists>d. fs_inodes fs p = Some d \<and> is_directory d)"
    using v by (elim conjE) blast
  show "fs_entries fs p n = Some e \<Longrightarrow> fs_entries fs p' n' = Some e' \<Longrightarrow>
        child_inode_number e' = child_inode_number e \<Longrightarrow> p' = p \<and> n' = n"
    using v by (elim conjE) blast
qed

lemma file_not_directory: "is_directory inode \<Longrightarrow> \<not> is_regular_file inode"
  by (simp add: is_directory_def is_regular_file_def INODE_MODE_DIRECTORY_def INODE_MODE_REGULAR_FILE_def)

section \<open>Volumes that represent a file system\<close>

definition represents :: "'d block_device \<Rightarrow> 'd bafs_volume \<Rightarrow> file_system \<Rightarrow> bool" where
  "represents D vol fs \<longleftrightarrow> (\<exists>its cks. trees_of D vol its cks \<and> items_wf its \<and> fs_of its cks = fs)"

definition volume_fs :: "'d block_device \<Rightarrow> 'd bafs_volume \<Rightarrow> file_system \<Rightarrow> bool" where
  "volume_fs D vol fs \<longleftrightarrow> represents D vol fs \<and> fs_valid (allocated_inode_count (superblock vol)) fs"

lemma representsE:
  assumes "represents D vol fs"
  obtains its cks where "trees_of D vol its cks" "items_wf its" "fs_of its cks = fs" "sorted_items its" "sorted_items cks"
    "inode_tree D (device vol) (cow_of [] vol) (inode_tree_root_block (superblock vol)) its"
    "checksum_tree D (device vol) (cow_of [] vol) (checksum_tree_root_block (superblock vol)) cks"
  using assms unfolding represents_def trees_of_def by (blast intro: it.at_sorted bt.at_sorted)

lemma pool_step_represents: "pool_step vol vol' \<Longrightarrow> represents D vol fs \<Longrightarrow> represents D vol' fs"
  using pool_step_trees unfolding represents_def by blast

lemma volume_read_inode_fs:
  assumes "represents D vol fs" "deep fuel"
  shows "volume_read_inode fuel D vol ino = (case fs_inodes fs ino of Some inode \<Rightarrow> Ok inode | None \<Rightarrow> Err NotFound)"
proof -
  obtain its cks where r: "items_wf its" "fs_of its cks = fs" "sorted_items its"
      "inode_tree D (device vol) (cow_of [] vol) (inode_tree_root_block (superblock vol)) its"
    using assms(1) by (rule representsE)
  show ?thesis
  proof (cases "inode_at its ino")
    case (Some inode)
    then have "volume_read_inode fuel D vol ino = Ok inode"
      using read_inode_at [OF r(4) assms(2)] by (simp add: volume_read_inode_def)
    with Some show ?thesis by (simp flip: r(2))
  next
    case None
    have "kv_map its (inode_key ino) = None"
    proof (rule ccontr)
      assume "kv_map its (inode_key ino) \<noteq> None"
      then obtain i where i: "i \<in> set its" "item_key i = inode_key ino" "kv_map its (inode_key ino) = Some (item_value i)"
        using kv_map_Some [OF r(3)] by auto
      then obtain inode where "inode_item i inode"
        using r(1) by (auto simp: items_wf_def dir_item_def extent_item_def)
      with i None show False by (auto simp: inode_item_def inode_at_def inode_codec)
    qed
    then have "volume_read_inode fuel D vol ino = Err NotFound"
      using read_inode_missing [OF r(4) assms(2)] by (simp add: volume_read_inode_def)
    with None show ?thesis by (simp flip: r(2))
  qed
qed

lemma directory_lookup_fs:
  assumes "represents D vol fs" "deep fuel"
  shows "directory_lookup_entry fuel D (device vol) (dirty_block_cache vol) (inode_tree_root_block (superblock vol)) p n
    = Ok (fs_entries fs p n)"
proof -
  obtain its cks where r: "items_wf its" "fs_of its cks = fs"
      "inode_tree D (device vol) (cow_of [] vol) (inode_tree_root_block (superblock vol)) its"
    using assms(1) by (rule representsE)
  then show ?thesis
    using lookup_entry_at [OF r(3) assms(2) items_wf_dirs [OF r(1)]] by (simp flip: r(2))
qed

lemma volume_lookup_fs:
  assumes "represents D vol fs" "deep fuel"
  shows "volume_lookup_directory_entry fuel D vol p n =
    (case fs_inodes fs p of
       None \<Rightarrow> Err NotFound
     | Some d \<Rightarrow> if is_directory d then Ok (map_option child_inode_number (fs_entries fs p n)) else Err NotADirectory)"
  by (simp add: volume_lookup_directory_entry_def volume_read_inode_fs [OF assms] directory_lookup_fs [OF assms]
      split: option.split)

section \<open>Elementary changes\<close>

lemma write_inode_fs:
  assumes "represents D vol fs" "funds D rounds (65 + u) vol" "deep fuel"
    and "wf_inode inode" "1 \<le> inode_number inode"
  shows "\<exists>vol'. volume_write_inode rounds fuel D inode vol = (Ok (), vol') \<and>
    represents D vol' (put_inode inode fs) \<and> vol_step vol vol' \<and> funds D rounds u vol'"
proof -
  obtain its cks where r: "trees_of D vol its cks" "items_wf its" "fs_of its cks = fs" "sorted_items its"
    using assms(1) by (rule representsE)
  show ?thesis
    using volume_write_inode_at [OF r(1) assms(2-5)] fs_put_inode(1) [OF r(4,2) assms(4)] fs_put_inode(2) [OF r(4,2) assms(4), of cks] r(3)
    unfolding represents_def by metis
qed

lemma create_entry_fs:
  assumes "represents D vol fs" "funds D rounds (65 + u) vol" "deep fuel"
    and "1 \<le> p" "valid_name n" "fs_entries fs p n = None"
  shows "\<exists>freed vol1 vol'. update_inode_tree (\<lambda>dev root generation. directory_create_entry fuel D dev root p n child ctype generation) [] vol
      = (Ok freed, vol1) \<and>
    return_freed_cow_blocks_to_free_extent_tree rounds fuel D freed vol1 = (Ok (), vol') \<and>
    represents D vol' (put_entry p (new_entry child ctype n) fs) \<and> vol_step vol vol' \<and> funds D rounds u vol'"
proof -
  obtain its cks where r: "trees_of D vol its cks" "items_wf its" "fs_of its cks = fs" "sorted_items its"
      "inode_tree D (device vol) (cow_of [] vol) (inode_tree_root_block (superblock vol)) its"
    using assms(1) by (rule representsE)
  let ?e = "new_entry child ctype n"
  let ?its = "upd_items (make_directory_entry_key p n) (serialise_dir_entry_to_bytes ?e) its"
  have none: "dir_map its p n = None" using assms(6) by (simp flip: r(3))
  have op: "inode_op D (\<lambda>dev root generation. directory_create_entry fuel D dev root p n child ctype generation) [] vol ?its"
    unfolding inode_op_def
    using create_entry_at [OF r(5) assms(3) _ items_wf_dirs [OF r(2)] assms(4,5) none] by blast
  have "items_wf ?its" "fs_of ?its cks = put_entry p ?e fs"
    using fs_put_entry [OF r(4,2) new_entry_ok(1) [OF assms(5)]] r(3) by simp_all
  with update_and_return [OF r(1) assms(2,3) op] show ?thesis
    unfolding represents_def by metis
qed

lemma create_entry_refused:
  assumes "represents D vol fs" "deep fuel" "n = [] \<or> 255 < length n \<or> valid_name n \<and> fs_entries fs p n \<noteq> None"
  shows "update_inode_tree (\<lambda>dev root generation. directory_create_entry fuel D dev root p n child ctype generation) [] vol
    = (Err (if n = [] \<or> 255 < length n then InvalidArgument else AlreadyExists), vol)"
proof -
  have "directory_create_entry fuel D (device vol) (inode_tree_root_block (superblock vol)) p n child ctype
      (next_transaction_id vol) (cow_of [] vol)
    = (Err (if n = [] \<or> 255 < length n then InvalidArgument else AlreadyExists), cow_of [] vol)"
    using assms(3) by (auto simp: directory_create_entry_def directory_lookup_fs [OF assms(1,2)])
  from on_volume_Err [of "\<lambda>dev. directory_create_entry fuel D dev (inode_tree_root_block (superblock vol)) p n child ctype
      (next_transaction_id vol)" vol "[]", OF this]
  show ?thesis by (simp add: update_inode_tree_def bindS_Err)
qed

end
