(* ===== verification/Volume_Namespace.thy ===== *)
theory Volume_Namespace
  imports File_System
begin

text \<open>
  The operations of a volume that change the name space, as operations on the abstract file system.
\<close>

section \<open>Consistency of the changes\<close>

lemma put_simps [simp]:
  "fs_inodes (put_inode inode fs) = (fs_inodes fs)(inode_number inode \<mapsto> inode)"
  "fs_entries (put_inode inode fs) = fs_entries fs" "fs_extents (put_inode inode fs) = fs_extents fs"
  "fs_checksums (put_inode inode fs) = fs_checksums fs"
  "fs_inodes (put_entry p e fs) = fs_inodes fs" "fs_extents (put_entry p e fs) = fs_extents fs"
  "fs_checksums (put_entry p e fs) = fs_checksums fs"
  "fs_inodes (put_extent ino x fs) = fs_inodes fs" "fs_entries (put_extent ino x fs) = fs_entries fs"
  "fs_checksums (put_extent ino x fs) = fs_checksums fs"
  by (simp_all add: put_inode_def put_entry_def put_extent_def)

lemma put_entry_entries:
  "fs_entries (put_entry p e fs) p' n = (if p' = p \<and> n = filename e then Some e
     else if p' = p \<and> xxhash64_with_seed_zero n = xxhash64_with_seed_zero (filename e) then None else fs_entries fs p' n)"
  by (simp add: put_entry_def)

lemma put_extent_extents:
  "fs_extents (put_extent ino e fs) ino' = (if ino' = ino then insert e {e' \<in> fs_extents fs ino. logical_byte_offset e' \<noteq> logical_byte_offset e}
     else fs_extents fs ino')"
  by (simp add: put_extent_def)

lemma fs_valid_put_inode:
  assumes "fs_valid c fs" "c \<le> c'" "wf_inode inode" "1 \<le> inode_number inode" "inode_number inode \<le> c'"
    and "\<And>old. fs_inodes fs (inode_number inode) = Some old \<Longrightarrow>
      posix_mode inode = posix_mode old \<and> hard_link_count inode = hard_link_count old"
  shows "fs_valid c' (put_inode inode fs)"
proof -
  note v = fs_validD [OF assms(1)]
  have keep: "\<exists>d'. fs_inodes (put_inode inode fs) p = Some d' \<and> posix_mode d' = posix_mode d \<and> hard_link_count d' = hard_link_count d"
    if "fs_inodes fs p = Some d" for p d
    using that assms(6) [of d] by (cases "p = inode_number inode") simp_all
  have dir: "\<exists>d. fs_inodes (put_inode inode fs) p = Some d \<and> is_directory d"
    if "\<exists>d. fs_inodes fs p = Some d \<and> is_directory d" for p
    using that keep [of p] unfolding is_directory_def by metis
  have reg: "\<exists>d. fs_inodes (put_inode inode fs) p = Some d \<and> is_regular_file d"
    if "\<exists>d. fs_inodes fs p = Some d \<and> is_regular_file d" for p
    using that keep [of p] unfolding is_regular_file_def by metis
  have link: "linked (put_inode inode fs) e" if l: "linked fs e" for e
  proof -
    obtain i where i: "fs_inodes fs (child_inode_number e) = Some i"
        "is_directory i \<and> child_type e = CHILD_TYPE_DIRECTORY \<and> hard_link_count i = 2 \<or>
         is_regular_file i \<and> child_type e = CHILD_TYPE_REGULAR_FILE \<and> hard_link_count i = 1"
      using l by (auto simp: linked_def)
    then show ?thesis
      using keep [OF i(1)] unfolding linked_def is_directory_def is_regular_file_def by metis
  qed
  show ?thesis
  proof (rule fs_validI)
    show "\<exists>r. fs_inodes (put_inode inode fs) BAFS_ROOT_INODE_NUMBER = Some r \<and> is_directory r"
      by (rule dir [OF v(1)])
    show "inode_number i = ino \<and> wf_inode i \<and> 1 \<le> ino \<and> ino \<le> c'"
      if "fs_inodes (put_inode inode fs) ino = Some i" for ino i
      using that v(2) [of ino i] assms(2-5) by (auto split: if_splits)
    show "\<exists>i. fs_inodes (put_inode inode fs) ino = Some i \<and> is_regular_file i"
      if "fs_extents (put_inode inode fs) ino \<noteq> {}" for ino
      using that by (intro reg v(3)) simp
    show "entry_ok e \<and> filename e = n \<and> linked (put_inode inode fs) e \<and>
        child_inode_number e \<noteq> BAFS_ROOT_INODE_NUMBER \<and> (\<exists>d. fs_inodes (put_inode inode fs) p = Some d \<and> is_directory d)"
      if "fs_entries (put_inode inode fs) p n = Some e" for p n e
      using v(4) [of p n e] that link dir [of p] by simp
    show "p' = p \<and> n' = n" if "fs_entries (put_inode inode fs) p n = Some e" "fs_entries (put_inode inode fs) p' n' = Some e'"
        "child_inode_number e' = child_inode_number e" for p n e p' n' e'
      using v(5) [of p n e p' n' e'] that by simp
  qed
qed

lemma fs_valid_put_entry:
  assumes "fs_valid c fs" "fs_inodes fs p = Some d" "is_directory d" "entry_ok e" "linked fs e"
    and "child_inode_number e \<noteq> BAFS_ROOT_INODE_NUMBER"
    and "\<And>p n e'. fs_entries fs p n = Some e' \<Longrightarrow> child_inode_number e' \<noteq> child_inode_number e"
  shows "fs_valid c (put_entry p e fs)"
proof -
  note v = fs_validD [OF assms(1)]
  have link: "linked (put_entry p e fs) = linked fs" by (simp add: linked_def fun_eq_iff)
  have old: "p' = p \<and> n = filename e \<and> e' = e \<or> fs_entries fs p' n = Some e'"
    if "fs_entries (put_entry p e fs) p' n = Some e'" for p' n e'
    using that by (auto simp: put_entry_entries split: if_splits)
  show ?thesis
  proof (rule fs_validI)
    show "\<exists>r. fs_inodes (put_entry p e fs) BAFS_ROOT_INODE_NUMBER = Some r \<and> is_directory r"
      using v(1) by simp
    show "inode_number i = ino \<and> wf_inode i \<and> 1 \<le> ino \<and> ino \<le> c"
      if "fs_inodes (put_entry p e fs) ino = Some i" for ino i
      using that v(2) by simp
    show "\<exists>i. fs_inodes (put_entry p e fs) ino = Some i \<and> is_regular_file i"
      if "fs_extents (put_entry p e fs) ino \<noteq> {}" for ino
      using that v(3) by simp
    show "entry_ok e' \<and> filename e' = n \<and> linked (put_entry p e fs) e' \<and>
        child_inode_number e' \<noteq> BAFS_ROOT_INODE_NUMBER \<and> (\<exists>d. fs_inodes (put_entry p e fs) p' = Some d \<and> is_directory d)"
      if "fs_entries (put_entry p e fs) p' n = Some e'" for p' n e'
      using old [OF that] v(4) [of p' n e'] assms(2-6) by (auto simp: link)
    show "p'' = p' \<and> n'' = n'"
      if "fs_entries (put_entry p e fs) p' n' = Some e'" "fs_entries (put_entry p e fs) p'' n'' = Some e''"
        "child_inode_number e'' = child_inode_number e'" for p' n' e' p'' n'' e''
      using old [OF that(1)] old [OF that(2)] assms(7) [of p' n' e'] assms(7) [of p'' n'' e''] v(5) that(3) by auto
  qed
qed

section \<open>Creating files and directories\<close>

text \<open>\<open>op_step\<close>: what an operation leaves of a volume, the inode counter apart.\<close>

definition op_step :: "'d bafs_volume \<Rightarrow> 'd bafs_volume \<Rightarrow> bool" where
  "op_step vol vol' \<longleftrightarrow> (\<exists>c. vol_step (vol\<lparr>superblock := (superblock vol)\<lparr>allocated_inode_count := c\<rparr>\<rparr>) vol')"

definition kind_ok :: "(u64 \<Rightarrow> u64 \<Rightarrow> u64 \<Rightarrow> bafs_inode) \<Rightarrow> u8 \<Rightarrow> bool" where
  "kind_ok mk t \<longleftrightarrow> mk = new_regular_file \<and> t = CHILD_TYPE_REGULAR_FILE \<or> mk = new_directory \<and> t = CHILD_TYPE_DIRECTORY"

lemma new_inode_kinds:
  "is_regular_file (new_regular_file i g t)" "is_directory (new_directory i g t)"
  "hard_link_count (new_regular_file i g t) = 1" "hard_link_count (new_directory i g t) = 2"
  by (simp_all add: new_regular_file_def new_directory_def is_regular_file_def is_directory_def
      INODE_MODE_REGULAR_FILE_def INODE_MODE_DIRECTORY_def INODE_DEFAULT_FILE_PERMISSIONS_def
      INODE_DEFAULT_DIRECTORY_PERMISSIONS_def)

lemma kind_ok_inode:
  assumes "kind_ok mk t"
  shows "wf_inode (mk k g 0)" "inode_number (mk k g 0) = k"
    "linked (put_inode (mk k g 0) fs) (new_entry k t n)"
  using assms by (auto simp: kind_ok_def linked_def new_entry_def new_inode_kinds)

lemma fs_valid_unused:
  assumes "fs_valid c fs" "unat c + 1 < 2 ^ 64"
  shows "fs_inodes fs (c + 1) = None" "fs_entries fs (c + 1) n = None" "fs_extents fs (c + 1) = {}"
    "fs_entries fs p n = Some e \<Longrightarrow> child_inode_number e \<noteq> c + 1" "1 \<le> c + 1" "c \<le> c + 1"
    "1 \<le> c" "c + 1 \<noteq> BAFS_ROOT_INODE_NUMBER"
proof -
  note v = fs_validD [OF assms(1)]
  have n: "unat (c + 1) = unat c + 1" using assms(2) by (intro unat_plus_1) simp
  show i: "fs_inodes fs (c + 1) = None"
    using v(2) [of "c + 1"] n by (cases "fs_inodes fs (c + 1)") (auto simp: word_le_nat_alt)
  then show "fs_entries fs (c + 1) n = None" "fs_extents fs (c + 1) = {}"
    using v(4) [of "c + 1" n] v(3) [of "c + 1"] by (cases "fs_entries fs (c + 1) n"; auto)+
  show "child_inode_number e \<noteq> c + 1" if "fs_entries fs p n = Some e"
    using v(4) [OF that] i by (auto simp: linked_def)
  show "1 \<le> c + 1" "c \<le> c + 1" using n by (simp_all add: word_le_nat_alt)
  show c: "1 \<le> c" using v(1,2) by (auto simp: BAFS_ROOT_INODE_NUMBER_def)
  show "c + 1 \<noteq> BAFS_ROOT_INODE_NUMBER"
    using n c by (auto simp: BAFS_ROOT_INODE_NUMBER_def word_le_nat_alt word_unat_eq_iff)
qed

lemma funds_count: "funds D rounds u (vol\<lparr>superblock := (superblock vol)\<lparr>allocated_inode_count := c\<rparr>\<rparr>) = funds D rounds u vol"
  by (simp add: funds_def cross_def)

lemma represents_count:
  "represents D (vol\<lparr>superblock := (superblock vol)\<lparr>allocated_inode_count := c\<rparr>\<rparr>) fs = represents D vol fs"
  by (simp add: represents_def trees_of_def)

lemma volume_create_fs:
  assumes "volume_fs D vol fs" "funds D rounds (130 + u) vol" "deep fuel"
    and "unat (allocated_inode_count (superblock vol)) + 1 < 2 ^ 64" "kind_ok mk t"
    and "fs_inodes fs p = Some d" "is_directory d"
    and k: "k = allocated_inode_count (superblock vol) + 1" and inode: "inode = mk k (next_transaction_id vol) 0"
  shows "valid_name n \<and> fs_entries fs p n = None \<longrightarrow>
      (\<exists>vol'. volume_create_entry mk t rounds fuel D p n vol = (Ok k, vol') \<and> op_step vol vol' \<and> allocated_inode_count (superblock vol') = k \<and> funds D rounds u vol' \<and>
        volume_fs D vol' (put_entry p (new_entry k t n) (put_inode inode fs)))" (is "?A \<longrightarrow> ?B")
    and "n = [] \<or> 255 < length n \<or> valid_name n \<and> fs_entries fs p n \<noteq> None \<longrightarrow>
      (\<exists>vol'. volume_create_entry mk t rounds fuel D p n vol =
          (Err (if n = [] \<or> 255 < length n then InvalidArgument else AlreadyExists), vol') \<and> op_step vol vol' \<and>
        allocated_inode_count (superblock vol') = k \<and> funds D rounds u vol' \<and> volume_fs D vol' (put_inode inode fs))" (is "?C \<longrightarrow> ?E")
proof -
  let ?c = "allocated_inode_count (superblock vol)"
  let ?vol = "vol\<lparr>superblock := (superblock vol)\<lparr>allocated_inode_count := k\<rparr>\<rparr>"
  have r: "represents D vol fs" and v: "fs_valid ?c fs" using assms(1) by (simp_all add: volume_fs_def)
  note un = fs_valid_unused [OF v assms(4), folded k]
  have i: "wf_inode inode" "inode_number inode = k" using kind_ok_inode(1,2) [OF assms(5)] by (simp_all add: inode)
  have f: "funds D rounds (65 + (65 + u)) ?vol" using assms(2) by (simp add: funds_count)
  have r': "represents D ?vol fs" using r by (simp add: represents_count)
  obtain vol1 where w: "volume_write_inode rounds fuel D inode ?vol = (Ok (), vol1)" "represents D vol1 (put_inode inode fs)"
      "vol_step ?vol vol1" "funds D rounds (65 + u) vol1"
    using write_inode_fs [OF r' f assms(3) i(1)] un(5) i(2) by auto
  have v1: "fs_valid k (put_inode inode fs)"
    by (rule fs_valid_put_inode [OF v un(6) i(1)]) (use un(1,5) i(2) in auto)
  have a1: "allocated_inode_count (superblock vol1) = k" "next_transaction_id vol1 = next_transaction_id vol"
    using vol_step_simps [OF w(3)] by simp_all
  have run: "volume_create_entry mk t rounds fuel D p n vol =
      bindS (update_inode_tree (\<lambda>dev root generation. directory_create_entry fuel D dev root p n k t generation) []) (\<lambda>freed.
      bindS (return_freed_cow_blocks_to_free_extent_tree rounds fuel D freed) (\<lambda>_. retS k)) vol1"
    using assms(4,6,7) w(1)
    by (simp add: volume_create_entry_def volume_read_inode_fs [OF r assms(3)] volume_allocate_inode_number_def
        allocate_next_inode_number_def set_superblock_def bindS_assoc k inode)
  show "?A \<longrightarrow> ?B"
  proof
    assume ?A
    then have n: "valid_name n" "fs_entries (put_inode inode fs) p n = None" by simp_all
    have p: "1 \<le> p" using fs_validD(2) [OF v assms(6)] by simp
    obtain freed vol2 vol3 where e: "update_inode_tree (\<lambda>dev root generation. directory_create_entry fuel D dev root p n k t generation) [] vol1
          = (Ok freed, vol2)" "return_freed_cow_blocks_to_free_extent_tree rounds fuel D freed vol2 = (Ok (), vol3)"
        "represents D vol3 (put_entry p (new_entry k t n) (put_inode inode fs))" "vol_step vol1 vol3" "funds D rounds u vol3"
      using create_entry_fs [OF w(2,4) assms(3) p n, of k t] by blast
    have "fs_valid k (put_entry p (new_entry k t n) (put_inode inode fs))"
    proof (rule fs_valid_put_entry [OF v1])
      show "fs_inodes (put_inode inode fs) p = Some d" using assms(6) un(1) i(2) by auto
      show "linked (put_inode inode fs) (new_entry k t n)" unfolding inode by (rule kind_ok_inode(3) [OF assms(5)])
    qed (use assms(7) n(1) un(4,8) in \<open>simp_all add: new_entry_def\<close>, use n(1) in \<open>simp add: entry_ok_def valid_name_def unat_of_nat\<close>)
    then show ?B
      using run e a1(1) vol_step_simps(3) [OF e(4)] vol_step_trans [OF w(3) e(4)]
      by (auto simp: volume_fs_def op_step_def intro!: exI [of _ vol3])
  qed
  show "?C \<longrightarrow> ?E"
  proof
    assume ?C
    then have "n = [] \<or> 255 < length n \<or> valid_name n \<and> fs_entries (put_inode inode fs) p n \<noteq> None" by simp
    from create_entry_refused [OF w(2) assms(3) this, of k t] run
    have "volume_create_entry mk t rounds fuel D p n vol =
        (Err (if n = [] \<or> 255 < length n then InvalidArgument else AlreadyExists), vol1)"
      by (simp add: bindS_Err)
    then show ?E
      using w(2-4) a1(1) v1 funds_mono [OF w(4)] by (auto simp: volume_fs_def op_step_def intro!: exI [of _ vol1])
  qed
qed

end
