(* ===== verification/Volume_Data.thy ===== *)
theory Volume_Data
  imports Volume_Namespace
begin

text \<open>
  File data: what a file holds, and that reading returns it.
\<close>

lemma kept_step: "cow_step st st' \<Longrightarrow> kept D dev st dev st'"
  by (simp add: kept_def cow_step_next cow_step_read_block)

section \<open>The content of a file\<close>

text \<open>A block with a matching checksum; the byte at an offset of a file; a file with its content. A file
  that holds \<open>bs\<close> has exactly one extent for each offset, and no extent beyond the last block.\<close>

definition data_at :: "'d block_device \<Rightarrow> 'd \<Rightarrow> cow_state \<Rightarrow> file_system \<Rightarrow> nat \<Rightarrow> bytes \<Rightarrow> bool" where
  "data_at D dev st fs a B \<longleftrightarrow> data_area D dev \<le> a \<and> a < unat (next_free_block st) \<and>
     read_block D dev (dirty_cache st) (of_nat a) = Ok B \<and> length B = 4096 \<and>
     verify_item (fs_checksums fs (of_nat a)) (of_nat a) B = Ok ()"

definition byte_at :: "'d block_device \<Rightarrow> 'd \<Rightarrow> cow_state \<Rightarrow> file_system \<Rightarrow> u64 \<Rightarrow> nat \<Rightarrow> u8 \<Rightarrow> bool" where
  "byte_at D dev st fs ino off b \<longleftrightarrow> (\<exists>e\<in>fs_extents fs ino. \<exists>B.
     unat (logical_byte_offset e) \<le> off \<and> off < extent_end e \<and>
     (\<forall>e'\<in>fs_extents fs ino. unat (logical_byte_offset e') \<le> off \<and> off < extent_end e' \<longrightarrow> e' = e) \<and>
     data_at D dev st fs (unat (first_disk_block e) + (off - unat (logical_byte_offset e)) div 4096) B \<and>
     B ! ((off - unat (logical_byte_offset e)) mod 4096) = b)"

definition file_holds :: "'d block_device \<Rightarrow> 'd \<Rightarrow> cow_state \<Rightarrow> file_system \<Rightarrow> u64 \<Rightarrow> bytes \<Rightarrow> bool" where
  "file_holds D dev st fs ino bs \<longleftrightarrow>
     (\<exists>inode. fs_inodes fs ino = Some inode \<and> is_regular_file inode \<and> unat (file_size_in_bytes inode) = length bs) \<and>
     (\<forall>e\<in>fs_extents fs ino. extent_end e \<le> 4096 * ((length bs + 4095) div 4096)) \<and>
     (\<forall>off<length bs. byte_at D dev st fs ino off (bs ! off))"

lemma byte_atE:
  assumes "byte_at D dev st fs ino off b"
  obtains e B where "e \<in> fs_extents fs ino" "unat (logical_byte_offset e) \<le> off" "off < extent_end e"
    "\<forall>e'\<in>fs_extents fs ino. unat (logical_byte_offset e') \<le> off \<and> off < extent_end e' \<longrightarrow> e' = e"
    "data_at D dev st fs (unat (first_disk_block e) + (off - unat (logical_byte_offset e)) div 4096) B"
    "B ! ((off - unat (logical_byte_offset e)) mod 4096) = b"
  using assms unfolding byte_at_def by (elim bexE exE conjE) (rule that)

lemma data_at_frame:
  assumes "kept D dev st dev' st'" "fs_checksums fs' (of_nat a) = fs_checksums fs (of_nat a)" "data_at D dev st fs a B"
  shows "data_at D dev' st' fs' a B"
proof -
  have "a < 2 ^ 64" using assms(3) unat_bound [of "next_free_block st"] by (simp add: data_at_def)
  then have a: "unat (of_nat a :: u64) = a" by (simp add: unat_of_nat)
  then have "read_block D dev' (dirty_cache st') (of_nat a) = read_block D dev (dirty_cache st) (of_nat a)"
    using assms(1,3) by (simp add: kept_def data_at_def)
  then show ?thesis
    using assms by (auto simp: data_at_def kept_def)
qed

lemma file_holds_frame:
  assumes "kept D dev st dev' st'" "fs_inodes fs' ino = fs_inodes fs ino" "fs_extents fs' ino = fs_extents fs ino"
    and "\<And>a. a < unat (next_free_block st) \<Longrightarrow> fs_checksums fs' (of_nat a) = fs_checksums fs (of_nat a)"
    and "file_holds D dev st fs ino bs"
  shows "file_holds D dev' st' fs' ino bs"
proof -
  have "byte_at D dev' st' fs' ino off b" if b: "byte_at D dev st fs ino off b" for off b
  proof -
    obtain e B where e: "e \<in> fs_extents fs ino" "unat (logical_byte_offset e) \<le> off" "off < extent_end e"
        "\<forall>e'\<in>fs_extents fs ino. unat (logical_byte_offset e') \<le> off \<and> off < extent_end e' \<longrightarrow> e' = e"
        "data_at D dev st fs (unat (first_disk_block e) + (off - unat (logical_byte_offset e)) div 4096) B"
        "B ! ((off - unat (logical_byte_offset e)) mod 4096) = b"
      using b by (rule byte_atE)
    have "data_at D dev' st' fs' (unat (first_disk_block e) + (off - unat (logical_byte_offset e)) div 4096) B"
    proof (rule data_at_frame [OF assms(1) assms(4) e(5)])
      show "unat (first_disk_block e) + (off - unat (logical_byte_offset e)) div 4096 < unat (next_free_block st)"
        using e(5) by (simp add: data_at_def)
    qed
    then show ?thesis
      unfolding byte_at_def assms(3) using e(1-4,6) by blast
  qed
  then show ?thesis
    using assms(2,3,5) by (simp add: file_holds_def)
qed

section \<open>Reading\<close>

lemma read_extent_fs:
  assumes "represents D vol fs" "deep fuel" "e \<in> fs_extents fs ino" "covers e off"
    and "\<forall>e'\<in>fs_extents fs ino. covers e' off \<longrightarrow> e' = e"
  shows "read_extent_data_for_file_offset fuel D (device vol) (dirty_block_cache vol) (inode_tree_root_block (superblock vol)) ino off
    = Ok (Some e)"
proof -
  obtain its cks where r: "items_wf its" "fs_of its cks = fs"
      "inode_tree D (device vol) (cow_of [] vol) (inode_tree_root_block (superblock vol)) its"
    using assms(1) by (rule representsE)
  have x: "fs_extents fs = file_extents its" by (simp flip: r(2))
  show ?thesis
    using read_extent_at [OF r(3) assms(2) items_wf_extents [OF r(1)], of ino off]
  proof (elim disjE bexE conjE)
    fix e' assume "e' \<in> file_extents its ino" "covers e' off"
      and f: "read_extent_data_for_file_offset fuel D (device vol) (dirty_cache (cow_of [] vol))
        (inode_tree_root_block (superblock vol)) ino off = Ok (Some e')"
    then have "e' = e" using assms(5) unfolding x by blast
    with f show ?thesis by simp
  next
    assume "\<forall>e\<in>file_extents its ino. \<not> covers e off"
    then show ?thesis using assms(3,4) unfolding x by blast
  qed
qed

lemma verify_fs:
  assumes "represents D vol fs" "deep fuel"
  shows "verify_data_block_checksum fuel D (device vol) (dirty_block_cache vol) (checksum_tree_root_block (superblock vol)) a B
    = verify_item (fs_checksums fs a) a B"
proof -
  obtain its cks where r: "fs_of its cks = fs"
      "checksum_tree D (device vol) (cow_of [] vol) (checksum_tree_root_block (superblock vol)) cks"
    using assms(1) by (rule representsE)
  show ?thesis using verify_at [OF r(2) assms(2)] by (simp flip: r(1))
qed

text \<open>One step of the loop copies the rest of a block.\<close>

lemma block_bytes:
  assumes "file_holds D dev st fs ino bs" "off < length bs"
  obtains e B where "e \<in> fs_extents fs ino" "unat (logical_byte_offset e) \<le> off" "off < extent_end e"
    "\<forall>e'\<in>fs_extents fs ino. unat (logical_byte_offset e') \<le> off \<and> off < extent_end e' \<longrightarrow> e' = e"
    "data_at D dev st fs (unat (first_disk_block e) + (off - unat (logical_byte_offset e)) div 4096) B"
    "\<forall>i. off + i < length bs \<and> (off - unat (logical_byte_offset e)) mod 4096 + i < 4096 \<longrightarrow>
       bs ! (off + i) = B ! ((off - unat (logical_byte_offset e)) mod 4096 + i)"
proof -
  have each: "byte_at D dev st fs ino o' (bs ! o')" if "o' < length bs" for o'
    using assms(1) that by (simp add: file_holds_def)
  obtain e B where e: "e \<in> fs_extents fs ino" "unat (logical_byte_offset e) \<le> off" "off < extent_end e"
      "\<forall>e'\<in>fs_extents fs ino. unat (logical_byte_offset e') \<le> off \<and> off < extent_end e' \<longrightarrow> e' = e"
      "data_at D dev st fs (unat (first_disk_block e) + (off - unat (logical_byte_offset e)) div 4096) B"
    by (rule byte_atE [OF each [OF assms(2)]])
  define l where "l = unat (logical_byte_offset e)"
  have "bs ! (off + i) = B ! ((off - l) mod 4096 + i)"
    if i: "off + i < length bs" "(off - l) mod 4096 + i < 4096" for i
  proof -
    define k m where "k = (off - l) div 4096" and "m = (off - l) mod 4096"
    have split: "off - l = 4096 * k + m" by (simp add: k_def m_def)
    have l: "l \<le> off" using e(2) by (simp add: l_def)
    then have d: "off + i - l = 4096 * k + (m + i)" using split by linarith
    have "m + i < 4096" using i(2) by (simp add: m_def)
    then have q: "(off + i - l) div 4096 = k" "(off + i - l) mod 4096 = m + i"
      unfolding d by simp_all
    obtain n where n: "extent_end e = l + n * 4096" by (simp add: extent_end_def l_def)
    have "k < n" using e(3) l n by (simp add: k_def less_mult_imp_div_less)
    then have "4096 * k + 4096 \<le> n * 4096" by simp
    then have c: "unat (logical_byte_offset e) \<le> off + i \<and> off + i < extent_end e"
      using d \<open>m + i < 4096\<close> l n unfolding l_def [symmetric] by linarith
    obtain e' B' where e': "e' \<in> fs_extents fs ino" 
        "\<forall>e''\<in>fs_extents fs ino. unat (logical_byte_offset e'') \<le> off + i \<and> off + i < extent_end e'' \<longrightarrow> e'' = e'"
        "data_at D dev st fs (unat (first_disk_block e') + (off + i - unat (logical_byte_offset e')) div 4096) B'"
        "B' ! ((off + i - unat (logical_byte_offset e')) mod 4096) = bs ! (off + i)"
      by (rule byte_atE [OF each [OF i(1)]])
    have ee: "e' = e" using e'(2) e(1) c by blast
    have B: "data_at D dev st fs (unat (first_disk_block e) + k) B" "data_at D dev st fs (unat (first_disk_block e) + k) B'"
        "B' ! (m + i) = bs ! (off + i)"
      using e(5) e'(3,4) q unfolding ee l_def [symmetric] k_def [symmetric] by simp_all
    then have "B' = B" by (simp add: data_at_def)
    with B(3) show ?thesis by (simp flip: m_def)
  qed
  with that e show thesis unfolding l_def by blast
qed

lemma write_slice_twice:
  "k + length xs + length ys \<le> length buf \<Longrightarrow> k' = k + length xs \<Longrightarrow>
    write_slice (write_slice buf k xs) k' ys = write_slice buf k (xs @ ys)"
  by (simp add: write_slice_append)

lemma read_file_step:
  assumes "represents D vol fs" "deep fuel" "file_holds D (device vol) (cow_of [] vol) fs ino bs"
    and "off + n \<le> length bs" "k < n" "length bs < 2 ^ 64"
  shows "\<exists>m. 0 < m \<and> k + m \<le> n \<and> read_file_blocks fuel D vol ino (of_nat off) n k buf =
    read_file_blocks fuel D vol ino (of_nat off) n (k + m) (write_slice buf k (slice (off + k) (off + k + m) bs))"
proof -
  have "off + k < length bs" using assms(4,5) by simp
  obtain e B where e: "e \<in> fs_extents fs ino" "unat (logical_byte_offset e) \<le> off + k" "off + k < extent_end e"
      "\<forall>e'\<in>fs_extents fs ino. unat (logical_byte_offset e') \<le> off + k \<and> off + k < extent_end e' \<longrightarrow> e' = e"
      "data_at D (device vol) (cow_of [] vol) fs (unat (first_disk_block e) + (off + k - unat (logical_byte_offset e)) div 4096) B"
      "\<forall>i. off + k + i < length bs \<and> (off + k - unat (logical_byte_offset e)) mod 4096 + i < 4096 \<longrightarrow>
         bs ! (off + k + i) = B ! ((off + k - unat (logical_byte_offset e)) mod 4096 + i)"
    by (rule block_bytes [OF assms(3) \<open>off + k < length bs\<close>])
  define cur :: u64 where "cur = of_nat off + of_nat k"
  define x where "x = cur - logical_byte_offset e"
  define w m where "w = unat (x mod 4096)" and "m = min (4096 - w) (n - k)"
  have o: "unat (of_nat off :: u64) = off" "unat (of_nat k :: u64) = k"
    using assms(4-6) by (simp_all add: unat_of_nat)
  have cur: "unat cur = off + k" "add_u (of_nat off) (of_nat k) = Ok cur"
    using assms(4-6) o by (simp_all add: cur_def add_run)
  have x: "sub_u cur (logical_byte_offset e) = Ok x" "unat x = off + k - unat (logical_byte_offset e)"
    using e(2) cur(1) by (simp_all add: sub_u_def x_def word_le_nat_alt unat_sub)
  have q: "unat (x div 4096) = (off + k - unat (logical_byte_offset e)) div 4096"
      "w = (off + k - unat (logical_byte_offset e)) mod 4096"
    by (simp_all add: w_def unat_div unat_mod x(2))
  have of: "of_nat (unat (first_disk_block e) + unat (x div 4096)) = first_disk_block e + x div 4096" by simp
  note data = e(5) [folded q(1), unfolded data_at_def of]
  have d: "unat (first_disk_block e) + unat (x div 4096) < unat (volume_next_free_block vol)"
      "read_block D (device vol) (dirty_block_cache vol) (first_disk_block e + x div 4096) = Ok B" "length B = 4096"
      "verify_item (fs_checksums fs (first_disk_block e + x div 4096)) (first_disk_block e + x div 4096) B = Ok ()"
    using data unfolding cow_of_simps by blast+
  have a: "add_u (first_disk_block e) (x div 4096) = Ok (first_disk_block e + x div 4096)"
    using d(1) unat_bound [of "volume_next_free_block vol"] by simp
  have "read_extent_data_for_file_offset fuel D (device vol) (dirty_block_cache vol)
      (inode_tree_root_block (superblock vol)) ino cur = Ok (Some e)"
    by (rule read_extent_fs [OF assms(1,2) e(1)]) (use e(2-4) in \<open>simp_all only: covers_def cur(1) simp_thms\<close>)
  then have "read_file_blocks fuel D vol ino (of_nat off) n k buf =
      read_file_blocks fuel D vol ino (of_nat off) n (k + m) (write_slice buf k (slice w (w + m) B))"
    using assms(5) cur(2) x(1) a d(2-4)
    by (subst read_file_blocks.simps)
      (simp add: verify_fs [OF assms(1,2)] ok_or_def Let_def BAFS_DEFAULT_BLOCK_SIZE_BYTES_def w_def [symmetric] m_def [symmetric])
  moreover have "w < 4096" using q(2) by simp
  then have m: "0 < m" "k + m \<le> n" "w + m \<le> 4096" using assms(5) by (auto simp: m_def)
  moreover have "slice w (w + m) B = slice (off + k) (off + k + m) bs"
    using m assms(4) d(3) e(6) by (intro nth_equalityI) (auto simp: nth_slice simp flip: q(2))
  ultimately show ?thesis by auto
qed

lemma read_file_blocks_fs:
  assumes "represents D vol fs" "deep fuel" "file_holds D (device vol) (cow_of [] vol) fs ino bs"
    and "off + n \<le> length bs" "length bs < 2 ^ 64" "k \<le> n" "n \<le> length buf"
  shows "read_file_blocks fuel D vol ino (of_nat off) n k buf = (Ok n, write_slice buf k (slice (off + k) (off + n) bs))"
  using assms(6,7)
proof (induction "n - k" arbitrary: k buf rule: less_induct)
  case less
  show ?case
  proof (cases "k = n")
    case True
    then show ?thesis by (subst read_file_blocks.simps) (simp add: write_slice_def slice_def)
  next
    case False
    then obtain m where m: "0 < m" "k + m \<le> n" "read_file_blocks fuel D vol ino (of_nat off) n k buf =
        read_file_blocks fuel D vol ino (of_nat off) n (k + m) (write_slice buf k (slice (off + k) (off + k + m) bs))"
      using read_file_step [OF assms(1-4) _ assms(5), of k buf] less.prems by auto
    have l: "length (slice (off + k) (off + k + m) bs) = m" using m(2) assms(4) by simp
    have "read_file_blocks fuel D vol ino (of_nat off) n (k + m) (write_slice buf k (slice (off + k) (off + k + m) bs)) =
        (Ok n, write_slice (write_slice buf k (slice (off + k) (off + k + m) bs)) (k + m) (slice (off + (k + m)) (off + n) bs))"
      using m less.prems l by (intro less.hyps) simp_all
    also have "write_slice (write_slice buf k (slice (off + k) (off + k + m) bs)) (k + m) (slice (off + (k + m)) (off + n) bs)
        = write_slice buf k (slice (off + k) (off + n) bs)"
      using m(2) less.prems assms(4) l slice_join [of "off + k" "off + k + m" "off + n" bs]
      by (subst write_slice_twice) (simp_all add: add.assoc)
    finally show ?thesis using m(3) by simp
  qed
qed

lemma volume_read_fs:
  assumes "represents D vol fs" "deep fuel" "file_holds D (device vol) (cow_of [] vol) fs ino bs"
    and "length buf < 2 ^ 64" "m = min (length buf) (length bs - unat off)"
  shows "volume_read_file_data fuel D vol ino off buf = (Ok m, write_slice buf 0 (slice (unat off) (unat off + m) bs))"
proof -
  obtain inode where i: "fs_inodes fs ino = Some inode" "is_regular_file inode" "unat (file_size_in_bytes inode) = length bs"
    using assms(3) by (auto simp: file_holds_def)
  have len: "length bs < 2 ^ 64" using unat_bound [of "file_size_in_bytes inode"] i(3) by simp
  show ?thesis
  proof (cases "buf = [] \<or> length bs \<le> unat off")
    case True
    then have "m = 0" using assms(5) by auto
    with True i show ?thesis
      by (cases "buf = []") (auto simp: volume_read_file_data_def volume_read_inode_fs [OF assms(1,2)] word_le_nat_alt slice_def)
  next
    case False
    then have o: "\<not> file_size_in_bytes inode \<le> off" "unat (file_size_in_bytes inode - off) = length bs - unat off"
      using i(3) by (simp_all add: word_le_nat_alt unat_sub)
    have "unat (min (of_nat (length buf)) (file_size_in_bytes inode - off)) = m"
      using assms(4,5) o(2) by (simp add: min_def word_le_nat_alt unat_of_nat)
    then have "volume_read_file_data fuel D vol ino off buf = read_file_blocks fuel D vol ino (of_nat (unat off)) m 0 buf"
      using False i o(1) by (simp add: volume_read_file_data_def volume_read_inode_fs [OF assms(1,2)] Let_def)
    moreover have "unat off + m \<le> length bs" "m \<le> length buf" using False assms(5) by auto
    ultimately show ?thesis
      using read_file_blocks_fs [OF assms(1-3) _ len, of "unat off" m 0 buf] by simp
  qed
qed

end
