(* ===== verification/Volume_Write.thy ===== *)
theory Volume_Write
  imports Volume_Data
begin

text \<open>
  Writing file data: the data blocks in the cache, their checksums, the extent and the inode.
\<close>

section \<open>One data block\<close>

abbreviation checksum_on :: "'d block_device \<Rightarrow> 'd \<Rightarrow> cow_state \<Rightarrow> u64 \<Rightarrow> bafs_leaf_item list \<Rightarrow> u64 set \<Rightarrow> bool" where
  "checksum_on \<equiv> tree_on (keys_of BAFS_CHECKSUM_OBJECT_ID ITEM_TYPE_CHECKSUM_ENTRY) None"

lemma tree_at_cow_of: "tree_at Q lo D dev (cow_of s vol) r its = tree_at Q lo D dev (cow_of [] vol) r its"
  unfolding cow_of_freed [of s vol] by (rule tree_at_freed)

lemma tree_on_at: "tree_on Q lo D dev st r its N \<Longrightarrow> tree_at Q lo D dev st r its"
  by (auto simp: tree_at_def)

lemma store_block_at:
  assumes "checksum_on D dev st root cks N" "b \<notin> N" "length B = 4096" "deep fuel" "room 2 st"
    and st1: "st1 = st\<lparr>dirty_cache := map_insert b B (dirty_cache st)\<rparr>"
  shows "\<exists>st' r N'. store_data_block_checksum fuel D dev root b B g st1 = (Ok r, st') \<and>
    checksum_on D dev st' r (upd_items (checksum_key b) (checksum_value b B) cks) N' \<and>
    turnover st1 st' N N' \<and> cheap 64 st1 st'"
proof -
  let ?its = "upd_items (checksum_key b) (checksum_value b B) cks"
  have on: "checksum_on D dev st1 root cks N"
    using assms(2) by (intro tree_on_transfer [OF assms(1) refl]) (auto simp: st1 read_block_def)
  have r2: "room 2 st1" using assms(5) by (simp add: st1 room_def)
  have ins: "insertable (keys_of BAFS_CHECKSUM_OBJECT_ID ITEM_TYPE_CHECKSUM_ENTRY) None cks (checksum_key b) (checksum_value b B)"
    by (simp add: checksum_key_def checksum_value_def small_value_def)
  have run: "store_data_block_checksum fuel D dev root b B g = insert_into_tree fuel D dev root (checksum_key b) (checksum_value b B) g"
    by (simp add: store_data_block_checksum_def checksum_key_def checksum_value_def Let_def)
  have "\<exists>st' r. insert_into_tree fuel D dev root (checksum_key b) (checksum_value b B) g st1 = (Ok r, st') \<and>
      (\<exists>N'. checksum_on D dev st' r ?its N' \<and> turnover st1 st' N N') \<and> cow_step st1 st' \<and> room n st'" if "room (Suc n) st1" for n
    using tree_on_put [OF on assms(4) that ins, of g] by blast
  then have "\<exists>st' r. insert_into_tree fuel D dev root (checksum_key b) (checksum_value b B) g st1 = (Ok r, st') \<and>
      (\<exists>N'. checksum_on D dev st' r ?its N' \<and> turnover st1 st' N N') \<and> cheap 64 st1 st'"
    by (rule tree_op_cheap [OF _ r2])
  then show ?thesis unfolding run by blast
qed

section \<open>All data blocks\<close>

definition data_block :: "bytes \<Rightarrow> nat \<Rightarrow> bytes" where
  "data_block data j = write_slice (replicate block_size 0) 0
     (slice (j * block_size) (min (j * block_size + block_size) (length data)) data)"

lemma data_block_eq:
  "write_slice (replicate 4096 0) 0 (slice (j * 4096) (min (j * 4096 + 4096) (length data)) data) = data_block data j"
  by (simp add: data_block_def)

lemma length_data_block [simp]: "length (data_block data j) = 4096"
  by (simp add: data_block_def)

text \<open>\<open>data_step\<close>: the blocks \<open>i, \<dots>, n - 1\<close> of the data are in the cache at \<open>a\<^sub>0 + i, \<dots>\<close> with their
  checksums; nothing else below the bump pointer has changed.\<close>

definition in_span :: "u64 \<Rightarrow> nat \<Rightarrow> nat \<Rightarrow> u64 \<Rightarrow> bool" where
  "in_span a0 i n a \<longleftrightarrow> unat a0 + i \<le> unat a \<and> unat a < unat a0 + n"

definition data_step :: "bytes \<Rightarrow> u64 \<Rightarrow> nat \<Rightarrow> nat \<Rightarrow> 'd bafs_volume \<Rightarrow> bafs_leaf_item list
    \<Rightarrow> 'd bafs_volume \<Rightarrow> bafs_leaf_item list \<Rightarrow> bool" where
  "data_step data a0 i n vol cks vol' cks' \<longleftrightarrow>
     device vol' = device vol \<and> next_transaction_id vol' = next_transaction_id vol \<and>
     superblock vol' = (superblock vol)\<lparr>checksum_tree_root_block := checksum_tree_root_block (superblock vol')\<rparr> \<and>
     unat (volume_next_free_block vol) \<le> unat (volume_next_free_block vol') \<and>
     unat (volume_next_free_block vol') \<le> unat (volume_next_free_block vol) + 64 * (n - i) \<and>
     (cache_ok (dirty_block_cache vol) \<longrightarrow> cache_ok (dirty_block_cache vol')) \<and>
     (\<forall>a. in_span a0 i n a \<longrightarrow> map_of (dirty_block_cache vol') a = Some (data_block data (unat a - unat a0))) \<and>
     (\<forall>a. \<not> in_span a0 i n a \<and> (unat a < unat (volume_next_free_block vol) \<or> unat (volume_next_free_block vol') \<le> unat a) \<longrightarrow>
        map_of (dirty_block_cache vol') a = map_of (dirty_block_cache vol) a) \<and>
     (\<forall>a. kv_map cks' (checksum_key a) = (if in_span a0 i n a then Some (checksum_value a (data_block data (unat a - unat a0)))
        else kv_map cks (checksum_key a)))"

lemma data_step_refl: "n \<le> i \<Longrightarrow> data_step data a0 i n vol cks vol cks"
proof -
  assume "n \<le> i"
  then have "\<not> in_span a0 i n a" for a by (auto simp: in_span_def)
  then show ?thesis by (simp add: data_step_def)
qed

lemma data_step_cons:
  assumes "data_step data a0 i (Suc i) vol cks vol1 cks1" "data_step data a0 (Suc i) n vol1 cks1 vol' cks'"
    and "i < n" "unat a0 + n \<le> unat (volume_next_free_block vol)"
  shows "data_step data a0 i n vol cks vol' cks'"
proof -
  have s: "in_span a0 i n a \<longleftrightarrow> in_span a0 i (Suc i) a \<or> in_span a0 (Suc i) n a" for a
    using assms(3) by (auto simp: in_span_def)
  have disj: "\<not> in_span a0 (Suc i) n a" if "in_span a0 i (Suc i) a" for a
    using that by (auto simp: in_span_def)
  have low: "unat a < unat (volume_next_free_block vol)" if "in_span a0 i n a" for a
    using that assms(4) by (auto simp: in_span_def)
  note A = assms(1) [unfolded data_step_def] and B = assms(2) [unfolded data_step_def]
  have nf: "unat (volume_next_free_block vol) \<le> unat (volume_next_free_block vol1)"
      "unat (volume_next_free_block vol1) \<le> unat (volume_next_free_block vol')"
    using A B by blast+
  show ?thesis
    unfolding data_step_def
  proof (intro conjI allI impI)
    show "superblock vol' = (superblock vol)\<lparr>checksum_tree_root_block := checksum_tree_root_block (superblock vol')\<rparr>"
    proof -
      have "superblock vol1 = (superblock vol)\<lparr>checksum_tree_root_block := checksum_tree_root_block (superblock vol1)\<rparr>"
        "superblock vol' = (superblock vol1)\<lparr>checksum_tree_root_block := checksum_tree_root_block (superblock vol')\<rparr>"
        using A B by blast+
      then show ?thesis by (metis bafs_superblock.update_convs(11) bafs_superblock.surjective)
    qed
    show "map_of (dirty_block_cache vol') a = Some (data_block data (unat a - unat a0))" if a: "in_span a0 i n a" for a
    proof (cases "in_span a0 (Suc i) n a")
      case True
      then show ?thesis using B by blast
    next
      case False
      then have "map_of (dirty_block_cache vol') a = map_of (dirty_block_cache vol1) a"
        using B low [OF a] nf(1) by (meson less_le_trans)
      moreover have "in_span a0 i (Suc i) a" using a False by (simp add: s)
      ultimately show ?thesis using A by metis
    qed
    show "map_of (dirty_block_cache vol') a = map_of (dirty_block_cache vol) a"
      if "\<not> in_span a0 i n a \<and> (unat a < unat (volume_next_free_block vol) \<or> unat (volume_next_free_block vol') \<le> unat a)" for a
    proof -
      have "map_of (dirty_block_cache vol') a = map_of (dirty_block_cache vol1) a"
        using that B nf(1) s by (meson less_le_trans)
      also have "\<dots> = map_of (dirty_block_cache vol) a"
        using that A nf(2) s by (meson le_trans)
      finally show ?thesis .
    qed
    show "kv_map cks' (checksum_key a) = (if in_span a0 i n a then Some (checksum_value a (data_block data (unat a - unat a0)))
        else kv_map cks (checksum_key a))" for a
      using A B by (simp add: s)
  qed (use A B nf assms(3) in auto)
qed

lemma write_block_step:
  assumes "checksum_on D (device vol) (cow_of freed vol) (checksum_tree_root_block (superblock vol)) cks N"
    and "\<forall>a\<in>N. \<not> in_span a0 0 n a" "unat a0 + n \<le> unat (volume_next_free_block vol)" "i < n"
    and "deep fuel" "unat (volume_next_free_block vol) + 64 < 2 ^ 64"
  shows "\<exists>freed' vol' cks' N'. write_data_blocks fuel D data a0 (i # is) freed vol = write_data_blocks fuel D data a0 is freed' vol' \<and>
    checksum_on D (device vol') (cow_of freed' vol') (checksum_tree_root_block (superblock vol')) cks' N' \<and>
    (\<forall>a\<in>N'. \<not> in_span a0 0 n a) \<and> data_step data a0 i (Suc i) vol cks vol' cks' \<and>
    length freed' + unat (volume_next_free_block vol) \<le> length freed + unat (volume_next_free_block vol')"
proof -
  let ?b = "a0 + of_nat i" and ?B = "data_block data i" and ?st = "cow_of freed vol"
  have b64: "unat a0 + i < 2 ^ 64"
    using assms(3,4) unat_bound [of "volume_next_free_block vol"] by simp
  then have b: "unat ?b = unat a0 + i" "add_u a0 (of_nat i) = Ok ?b"
    using assms(4) add_run [of a0 "of_nat i"] by (simp_all add: unat_of_nat)
  have "in_span a0 0 n ?b" using b(1) assms(4) by (simp add: in_span_def)
  then have bN: "?b \<notin> N" using assms(2) by blast
  define st1 where "st1 = ?st\<lparr>dirty_cache := map_insert ?b ?B (dirty_cache ?st)\<rparr>"
  have "room 2 ?st" using assms(6) by (simp add: room_def)
  from store_block_at [OF assms(1) bN length_data_block assms(5) this st1_def, of "next_transaction_id vol"]
  obtain st' r N' where s: "store_data_block_checksum fuel D (device vol) (checksum_tree_root_block (superblock vol)) ?b ?B
        (next_transaction_id vol) st1 = (Ok r, st')"
      "checksum_on D (device vol) st' r (upd_items (checksum_key ?b) (checksum_value ?b ?B) cks) N'"
      "turnover st1 st' N N'" "cheap 64 st1 st'"
    by blast
  have w: "on_volume (\<lambda>dev. write_block_to_cache ?b ?B) freed vol = (Ok ((), freed), after vol st1)"
    using on_volume_Ok [of "\<lambda>dev. write_block_to_cache ?b ?B" vol freed "()" st1]
    by (simp add: write_block_to_cache_def st1_def)
  have c1: "cow_of freed (after vol st1) = st1" by (simp add: cow_of_after st1_def cow_of_def)
  let ?v = "(after vol st')\<lparr>superblock := (superblock vol)\<lparr>checksum_tree_root_block := r\<rparr>\<rparr>"
  have aa: "after (after vol st1) st' = after vol st'" by (simp add: after_def)
  have o: "on_volume (\<lambda>dev. store_data_block_checksum fuel D dev (checksum_tree_root_block (superblock vol)) ?b ?B
      (next_transaction_id vol)) freed (after vol st1) = (Ok (r, freed_blocks st'), after vol st')"
    using on_volume_Ok [of "\<lambda>dev. store_data_block_checksum fuel D dev (checksum_tree_root_block (superblock vol)) ?b ?B
      (next_transaction_id vol)" "after vol st1" freed r st'] s(1) by (simp add: c1 aa)
  have run: "write_data_blocks fuel D data a0 (i # is) freed vol = write_data_blocks fuel D data a0 is (freed_blocks st') ?v"
    using b(2) w o by (simp add: set_superblock_def Let_def data_block_eq)
  have cv: "cow_of (freed_blocks st') (after vol st') = st'" by (cases st') (simp add: cow_of_def)
  have "\<not> in_span a0 0 n a" if "a \<in> N'" for a
    using that s(3) assms(2,3) by (auto simp: turnover_def fresh_set_def in_span_def st1_def)
  moreover have "data_step data a0 i (Suc i) vol cks ?v (upd_items (checksum_key ?b) (checksum_value ?b ?B) cks)"
  proof -
    have sp: "in_span a0 i (Suc i) a \<longleftrightarrow> a = ?b" for a
      using b(1) by (auto simp: in_span_def word_unat_eq_iff)
    have bi: "unat ?b - unat a0 = i" using b(1) by simp
    have cs: "cow_step st1 st'" "unat (next_free_block st') \<le> unat (volume_next_free_block vol) + 64"
      using s(4) by (simp_all add: cheap_def st1_def)
    have lo: "unat ?b < unat (volume_next_free_block vol)" using b(1) assms(3,4) by simp
    have m: "map_of (dirty_cache st') a = (if a = ?b then Some ?B else map_of (dirty_block_cache vol) a)"
      if "unat a < unat (volume_next_free_block vol) \<or> unat (next_free_block st') \<le> unat a" for a
      using cs(1) that by (auto simp: cow_step_def st1_def)
    have k: "kv_map (upd_items (checksum_key ?b) (checksum_value ?b ?B) cks) (checksum_key a)
        = (if a = ?b then Some (checksum_value ?b ?B) else kv_map cks (checksum_key a))" for a
    proof -
      have "sorted_items cks" by (rule bt.at_sorted [OF tree_on_at [OF assms(1)]])
      then show ?thesis by (simp add: kv_map_upd_items checksum_key_def)
    qed
    have ok: "cache_ok (dirty_block_cache vol) \<Longrightarrow> cache_ok (dirty_cache st')"
      using cs(1) cache_ok_insert [of "dirty_block_cache vol" ?B ?b] by (simp add: cow_step_def st1_def)
    show ?thesis
      unfolding data_step_def sp using m lo k bi ok cs cow_step_next [OF cs(1)]
      by (auto simp: st1_def)
  qed
  moreover have "length (freed_blocks st') + unat (volume_next_free_block vol) \<le> length freed + unat (next_free_block st')"
    using s(4) by (auto simp: cheap_def cow_step_def st1_def)
  ultimately show ?thesis
    using run s(2) by (intro exI [of _ "freed_blocks st'"] exI [of _ ?v] exI [of _ "upd_items (checksum_key ?b) (checksum_value ?b ?B) cks"]
        exI [of _ N']) (simp add: cv)
qed

lemma write_data_blocks_at:
  assumes "checksum_on D (device vol) (cow_of freed vol) (checksum_tree_root_block (superblock vol)) cks N"
    and "\<forall>a\<in>N. \<not> in_span a0 0 n a" "unat a0 + n \<le> unat (volume_next_free_block vol)" "i \<le> n"
    and "deep fuel" "unat (volume_next_free_block vol) + 64 * (n - i) < 2 ^ 64"
  shows "\<exists>freed' vol' cks'. write_data_blocks fuel D data a0 [i..<n] freed vol = (Ok freed', vol') \<and>
    checksum_tree D (device vol') (cow_of [] vol') (checksum_tree_root_block (superblock vol')) cks' \<and>
    data_step data a0 i n vol cks vol' cks' \<and>
    length freed' + unat (volume_next_free_block vol) \<le> length freed + unat (volume_next_free_block vol')"
  using assms(1-4,6)
proof (induction "n - i" arbitrary: i freed vol cks N)
  case 0
  then have "checksum_tree D (device vol) (cow_of [] vol) (checksum_tree_root_block (superblock vol)) cks"
    using tree_on_at [OF "0.prems"(1)] by (simp add: tree_at_cow_of [of _ _ _ _ freed])
  with 0 show ?case
    using data_step_refl [of n i] by (intro exI [of _ freed] exI [of _ vol] exI [of _ cks]) simp
next
  case (Suc k)
  then have i: "i < n" "unat (volume_next_free_block vol) + 64 < 2 ^ 64" by auto
  have idx: "[i..<n] = i # [Suc i..<n]" using i(1) by (rule upt_conv_Cons)
  obtain freed1 vol1 cks1 N1 where a: "write_data_blocks fuel D data a0 [i..<n] freed vol = write_data_blocks fuel D data a0 [Suc i..<n] freed1 vol1"
      "checksum_on D (device vol1) (cow_of freed1 vol1) (checksum_tree_root_block (superblock vol1)) cks1 N1"
      "\<forall>a\<in>N1. \<not> in_span a0 0 n a" "data_step data a0 i (Suc i) vol cks vol1 cks1"
      "length freed1 + unat (volume_next_free_block vol) \<le> length freed + unat (volume_next_free_block vol1)"
    using write_block_step [OF Suc.prems(1-3) i(1) assms(5) i(2), of data "[Suc i..<n]"] unfolding idx by blast
  have nf: "unat (volume_next_free_block vol) \<le> unat (volume_next_free_block vol1)"
      "unat (volume_next_free_block vol1) \<le> unat (volume_next_free_block vol) + 64"
    using a(4) by (simp_all add: data_step_def)
  have "\<exists>freed' vol' cks'. write_data_blocks fuel D data a0 [Suc i..<n] freed1 vol1 = (Ok freed', vol') \<and>
    checksum_tree D (device vol') (cow_of [] vol') (checksum_tree_root_block (superblock vol')) cks' \<and>
    data_step data a0 (Suc i) n vol1 cks1 vol' cks' \<and>
    length freed' + unat (volume_next_free_block vol1) \<le> length freed1 + unat (volume_next_free_block vol')"
    using Suc.hyps(2) Suc.prems(3,5) i(1) nf by (intro Suc.hyps(1) [OF _ a(2,3)]) auto
  then obtain freed' vol' cks' where b: "write_data_blocks fuel D data a0 [Suc i..<n] freed1 vol1 = (Ok freed', vol')"
      "checksum_tree D (device vol') (cow_of [] vol') (checksum_tree_root_block (superblock vol')) cks'"
      "data_step data a0 (Suc i) n vol1 cks1 vol' cks'"
      "length freed' + unat (volume_next_free_block vol1) \<le> length freed1 + unat (volume_next_free_block vol')"
    by blast
  with a data_step_cons [OF a(4) b(3) i(1) Suc.prems(3)] show ?case
    by (intro exI [of _ freed'] exI [of _ vol'] exI [of _ cks']) simp
qed

section \<open>Allocating and writing the blocks of the data\<close>

definition put_checksums :: "bytes \<Rightarrow> u64 \<Rightarrow> nat \<Rightarrow> file_system \<Rightarrow> file_system" where
  "put_checksums data a0 n fs = fs\<lparr>fs_checksums := \<lambda>a. if in_span a0 0 n a
     then Some (checksum_value a (data_block data (unat a - unat a0))) else fs_checksums fs a\<rparr>"

lemma put_checksums_simps [simp]:
  "fs_inodes (put_checksums data a0 n fs) = fs_inodes fs" "fs_entries (put_checksums data a0 n fs) = fs_entries fs"
  "fs_extents (put_checksums data a0 n fs) = fs_extents fs"
  by (simp_all add: put_checksums_def)

definition blocks_of :: "bytes \<Rightarrow> nat" where
  "blocks_of data = (length data + 4095) div 4096"

definition blocks_at :: "'d block_device \<Rightarrow> 'd bafs_volume \<Rightarrow> file_system \<Rightarrow> bytes \<Rightarrow> u64 \<Rightarrow> bool" where
  "blocks_at D vol fs data a0 \<longleftrightarrow>
     (\<forall>j<blocks_of data. data_at D (device vol) (cow_of [] vol) fs (unat a0 + j) (data_block data j))"

lemma blocks_at_step:
  assumes "vol_step vol vol'" "fs_checksums fs' = fs_checksums fs" "blocks_at D vol fs data a0"
  shows "blocks_at D vol' fs' data a0"
proof -
  note k = kept_step [OF vol_step_simps(7) [OF assms(1)], of D "device vol"]
  have "data_at D (device vol) (cow_of [] vol') fs' a B" if "data_at D (device vol) (cow_of [] vol) fs a B" for a B
    by (rule data_at_frame [OF k _ that]) (simp add: assms(2))
  then show ?thesis
    using assms(3) vol_step_simps(1) [OF assms(1)] by (simp add: blocks_at_def)
qed

lemma tree_at_data_area:
  assumes "tree_at Q lo D dev st r its"
  shows "data_area D dev \<le> unat (next_free_block st)"
proof -
  obtain N where N: "tree_on Q lo D dev st r its N" using assms by (auto simp: tree_at_def)
  then obtain t h where "tree_ok Q lo D dev st h t" "set (nodes_of t) = N" by (rule tree_onE)
  then obtain b where b: "b \<in> N" by (cases t) auto
  then show ?thesis using tree_on_area [OF N b] tree_on_below [OF N] by fastforce
qed

text \<open>Above the old bump pointer, the data step is a step of the whole volume.\<close>

lemma data_step_cow:
  assumes "data_step data a0 0 n vol1 cks vol2 cks'" "dirty_block_cache vol1 = dirty_block_cache vol"
    and "a0 = volume_next_free_block vol" "unat (volume_next_free_block vol1) = unat a0 + n"
  shows "cheap (65 * n) (cow_of [] vol) (cow_of [] vol2)"
proof -
  have "map_of (dirty_block_cache vol2) a = map_of (dirty_block_cache vol) a"
    if "unat a < unat (volume_next_free_block vol) \<or> unat (volume_next_free_block vol2) \<le> unat a" for a
  proof -
    have "\<not> in_span a0 0 n a"
      using that assms(1,3,4) by (auto simp: in_span_def data_step_def)
    moreover have "unat a < unat (volume_next_free_block vol1) \<or> unat (volume_next_free_block vol2) \<le> unat a"
      using that assms(3,4) by auto
    ultimately show ?thesis
      using assms(1,2) unfolding data_step_def by metis
  qed
  then show ?thesis
    using assms by (auto simp: cheap_def cow_step_def data_step_def)
qed

lemma verify_same: "verify_item (Some (checksum_value a B)) a B = Ok ()"
  by (simp add: verify_crc32c_def)

lemma data_step_blocks:
  assumes "data_step data a0 0 (blocks_of data) vol1 cks vol2 cks2" "data_area D (device vol2) \<le> unat a0"
    and "unat a0 + blocks_of data \<le> unat (volume_next_free_block vol2)"
  shows "blocks_at D vol2 (put_checksums data a0 (blocks_of data) fs) data a0"
  unfolding blocks_at_def
proof (intro allI impI)
  fix j assume j: "j < blocks_of data"
  let ?a = "of_nat (unat a0 + j) :: u64" and ?n = "blocks_of data" and ?fs = "put_checksums data a0 (blocks_of data) fs"
  have "unat a0 + j < 2 ^ 64" using assms(3) j unat_bound [of "volume_next_free_block vol2"] by simp
  then have u: "unat ?a = unat a0 + j" by (simp add: unat_of_nat del: of_nat_add)
  then have sp: "in_span a0 0 ?n ?a" using j by (simp add: in_span_def)
  then have "map_of (dirty_block_cache vol2) ?a = Some (data_block data j)"
    using assms(1) u unfolding data_step_def by (metis add_diff_cancel_left')
  moreover have "fs_checksums ?fs ?a = Some (checksum_value ?a (data_block data j))"
    using sp u by (simp add: put_checksums_def del: of_nat_add)
  ultimately show "data_at D (device vol2) (cow_of [] vol2) ?fs (unat a0 + j) (data_block data j)"
    using assms(2,3) j by (simp add: data_at_def read_block_def verify_same del: of_nat_add verify_stored)
qed

lemma unat_saturating_sub: "unat (saturating_sub a b) \<le> unat a" for a b :: "'a::len word"
  by (auto simp: saturating_sub_def unat_sub)

lemma allocate_and_write_fs:
  assumes "represents D vol fs" "funds D rounds (66 * n + u) vol" "deep fuel"
    and n: "n = blocks_of data" "0 < n" "n < 2 ^ 64" "length data < 2 ^ 64 - 4096"
    and "unat (volume_next_free_block vol) + n \<le> unat (total_block_count (superblock vol))"
    and a0: "a0 = volume_next_free_block vol" and fs': "fs' = put_checksums data a0 n fs"
  shows "\<exists>vol'. allocate_and_write_data_blocks rounds fuel D data vol = (Ok a0, vol') \<and>
    represents D vol' fs' \<and> blocks_at D vol' fs' data a0 \<and> vol_step vol vol' \<and> funds D rounds u vol'"
proof -
  obtain its cks where r: "items_wf its" "fs_of its cks = fs"
      "inode_tree D (device vol) (cow_of [] vol) (inode_tree_root_block (superblock vol)) its"
      "checksum_tree D (device vol) (cow_of [] vol) (checksum_tree_root_block (superblock vol)) cks"
    using assms(1) by (rule representsE)
  obtain N where N: "checksum_on D (device vol) (cow_of [] vol) (checksum_tree_root_block (superblock vol)) cks N"
    using r(4) by (auto simp: tree_at_def)
  have nw: "unat (of_nat n :: u64) = n" using n(3) by (simp add: unat_of_nat)
  have sum: "unat a0 + n < 2 ^ 64"
    using assms(8) a0 unat_bound [of "total_block_count (superblock vol)"] by simp
  then have add: "add_u a0 (of_nat n) = Ok (a0 + of_nat n)" "unat (a0 + of_nat n) = unat a0 + n"
    using add_run [of a0 "of_nat n"] nw by simp_all
  define vol1 where "vol1 = vol\<lparr>volume_next_free_block := a0 + of_nat n, superblock := (superblock vol)
    \<lparr>free_block_count := saturating_sub (free_block_count (superblock vol)) (of_nat n)\<rparr>\<rparr>"
  have c1: "cow_of [] vol1 = (cow_of [] vol)\<lparr>next_free_block := a0 + of_nat n\<rparr>" by (simp add: vol1_def cow_of_def)
  have N1: "checksum_on D (device vol1) (cow_of [] vol1) (checksum_tree_root_block (superblock vol1)) cks N"
    using add(2) a0 by (simp add: c1 vol1_def) (intro tree_on_transfer [OF N refl], simp_all)
  have av: "\<forall>a\<in>N. \<not> in_span a0 0 n a"
    using tree_on_below [OF N] by (auto simp: in_span_def a0)
  have "unat (volume_next_free_block vol) + 96 * (66 * n) < 2 ^ 64"
    using assms(2) by (auto simp: funds_def)
  then have rm: "unat (volume_next_free_block vol1) + 64 * (n - 0) < 2 ^ 64" "unat a0 + n \<le> unat (volume_next_free_block vol1)"
    using add(2) by (simp_all add: vol1_def a0)
  obtain freed vol2 cks2 where w: "write_data_blocks fuel D data a0 [0..<n] [] vol1 = (Ok freed, vol2)"
      "checksum_tree D (device vol2) (cow_of [] vol2) (checksum_tree_root_block (superblock vol2)) cks2"
      "data_step data a0 0 n vol1 cks vol2 cks2"
      "length freed + unat (volume_next_free_block vol1) \<le> unat (volume_next_free_block vol2)"
    using write_data_blocks_at [OF N1 av rm(2) _ assms(3) rm(1), of data] by auto
  have ch: "cheap (65 * n) (cow_of [] vol) (cow_of [] vol2)"
    by (rule data_step_cow [OF w(3) _ a0]) (simp_all add: vol1_def add(2))
  then have cs: "cow_step (cow_of [] vol) (cow_of [] vol2)" by (simp add: cheap_def)
  define c where "c = checksum_tree_root_block (superblock vol2)"
  have "superblock vol2 = (superblock vol1)\<lparr>checksum_tree_root_block := c\<rparr>"
    using w(3) unfolding data_step_def c_def by (elim conjE)
  then have sb2: "superblock vol2 = (superblock vol)\<lparr>checksum_tree_root_block := c,
      free_block_count := saturating_sub (free_block_count (superblock vol)) (of_nat n)\<rparr>"
    by (simp add: vol1_def)
  have sb: "device vol2 = device vol" "next_transaction_id vol2 = next_transaction_id vol"
      "unat (volume_next_free_block vol2) \<le> unat (volume_next_free_block vol1) + 64 * n"
    using w(3) by (simp_all add: data_step_def vol1_def)
  have st: "vol_step vol vol2"
    using cs sb sb2 by (intro vol_stepI [where i = "inode_tree_root_block (superblock vol)" and f = "free_root vol"
          and c = c and n = "saturating_sub (free_block_count (superblock vol)) (of_nat n)"]) simp_all
  have f2: "funds D rounds (length freed + u) vol2"
  proof (rule funds_spend [OF assms(2)])
    show "cheap (96 * n) (cow_of [] vol) (cow_of [] vol2)" using ch by (simp add: cheap_def)
    show "length freed + u + n \<le> 66 * n + u" using w(4) sb(3) by simp
    then show "unat (free_block_count (superblock vol2)) + (length freed + u) \<le> unat (free_block_count (superblock vol)) + (66 * n + u)"
      using unat_saturating_sub [of "free_block_count (superblock vol)" "of_nat n"] by (simp add: sb2)
  qed (simp_all add: sb sb2)
  have "fs_of its cks2 = fs'"
    using w(3) by (auto simp: fs' put_checksums_def fs_of_def data_step_def fun_eq_iff simp flip: r(2))
  moreover have "trees_of D vol2 its cks2"
    using it.frame [OF cs r(3)] w(2) by (simp add: trees_of_def sb sb2)
  ultimately have r2: "represents D vol2 fs'"
    unfolding represents_def using r(1) by blast
  have b2: "blocks_at D vol2 fs' data a0"
    unfolding fs' n(1)
    by (rule data_step_blocks [OF w(3) [unfolded n(1)]]) (use w(4) rm(2) tree_at_data_area [OF r(4)] a0 sb(1) n(1) in simp_all)
  obtain vol3 where v3: "return_freed_cow_blocks_to_free_extent_tree rounds fuel D freed vol2 = (Ok (), vol3)"
      "pool_step vol2 vol3" "funds D rounds u vol3"
    using return_freed_funds [OF f2 assms(3)] by blast
  have "blocks_at D vol3 fs' data a0"
    by (rule blocks_at_step [OF pool_step_vol [OF v3(2)] refl b2])
  moreover have "allocate_and_write_data_blocks rounds fuel D data vol = (Ok a0, vol3)"
  proof -
    have len: "(length data + 4095) div 4096 = n" using n(1) by (simp add: blocks_of_def)
    have t: "\<not> total_block_count (superblock vol) < a0 + of_nat n"
      using assms(8) add(2) a0 by (simp add: word_less_nat_alt)
    have z: "(of_nat n :: u64) \<noteq> 0" using nw n(2) by (metis unat_0 less_irrefl)
    show ?thesis
      using add(1) t z w(1) v3(1) nw
      by (simp add: allocate_and_write_data_blocks_def Let_def len a0 [symmetric] vol1_def [symmetric])
  qed
  ultimately show ?thesis
    using v3 pool_step_represents [OF v3(2) r2] vol_step_trans [OF st pool_step_vol [OF v3(2)]] by blast
qed

section \<open>Writing to a file\<close>

lemma write_extent_fs:
  assumes "represents D vol fs" "funds D rounds (65 + u) vol" "deep fuel" "1 \<le> ino" "extent_end e < 2 ^ 64"
  shows "\<exists>freed vol1 vol'. update_inode_tree (\<lambda>dev root generation. write_extent_data_to_inode_tree fuel D dev root ino e generation) [] vol
      = (Ok freed, vol1) \<and>
    return_freed_cow_blocks_to_free_extent_tree rounds fuel D freed vol1 = (Ok (), vol') \<and>
    represents D vol' (put_extent ino e fs) \<and> vol_step vol vol' \<and> funds D rounds u vol'"
proof -
  obtain its cks where r: "trees_of D vol its cks" "items_wf its" "fs_of its cks = fs" "sorted_items its"
      "inode_tree D (device vol) (cow_of [] vol) (inode_tree_root_block (superblock vol)) its"
    using assms(1) by (rule representsE)
  let ?its = "upd_items (extent_key ino (logical_byte_offset e)) (serialise_extent_data_to_bytes e) its"
  have op: "inode_op D (\<lambda>dev root generation. write_extent_data_to_inode_tree fuel D dev root ino e generation) [] vol ?its"
    unfolding inode_op_def using write_extent_at [OF r(5) assms(3) _ assms(4)] by blast
  have "items_wf ?its" "fs_of ?its cks = put_extent ino e fs"
    using fs_put_extent [OF r(4,2) assms(5)] r(3) by simp_all
  with update_and_return [OF r(1) assms(2,3) op] show ?thesis
    unfolding represents_def by metis
qed

definition data_extent :: "u64 \<Rightarrow> u64 \<Rightarrow> bytes \<Rightarrow> bafs_extent_data" where
  "data_extent off a0 data = \<lparr>logical_byte_offset = off, first_disk_block = a0,
     ed_block_count = of_nat (blocks_of data), extent_flags = 0, ed_reserved = 0\<rparr>"

definition grown_inode :: "u64 \<Rightarrow> bytes \<Rightarrow> u64 \<Rightarrow> bafs_inode \<Rightarrow> bafs_inode" where
  "grown_inode off data g inode = inode\<lparr>file_size_in_bytes := max (off + of_nat (length data)) (file_size_in_bytes inode),
     allocated_block_count := allocated_block_count inode + of_nat (blocks_of data), inode_generation := g\<rparr>"

text \<open>The abstract effect of a write of non-empty data to a file.\<close>

definition write_spec :: "u64 \<Rightarrow> u64 \<Rightarrow> bytes \<Rightarrow> u64 \<Rightarrow> u64 \<Rightarrow> bafs_inode \<Rightarrow> file_system \<Rightarrow> file_system" where
  "write_spec ino off data a0 g inode fs = put_inode (grown_inode off data g inode)
     (put_extent ino (data_extent off a0 data) (put_checksums data a0 (blocks_of data) fs))"

lemma fs_valid_put_extent:
  assumes "fs_valid c fs" "fs_inodes fs ino = Some inode" "is_regular_file inode"
  shows "fs_valid c (put_extent ino e (put_checksums data a0 n fs))"
proof -
  note v = fs_validD [OF assms(1)]
  let ?fs = "put_extent ino e (put_checksums data a0 n fs)"
  have link: "linked ?fs x = linked fs x" for x by (simp add: linked_def)
  have "\<exists>i. fs_inodes ?fs ino' = Some i \<and> is_regular_file i" if "fs_extents ?fs ino' \<noteq> {}" for ino'
    using that v(3) [of ino'] assms(2,3) by (auto simp: put_extent_extents split: if_splits)
  then show ?thesis
    using v by (intro fs_validI) (simp_all add: link)
qed

lemma blocks_of_bounds: "length data \<le> 4096 * blocks_of data" "4096 * blocks_of data \<le> length data + 4095"
    "data \<noteq> [] \<Longrightarrow> 0 < blocks_of data"
proof -
  show "length data \<le> 4096 * blocks_of data" "4096 * blocks_of data \<le> length data + 4095"
    unfolding blocks_of_def by linarith+
  then show "0 < blocks_of data" if "data \<noteq> []" using that by (cases "blocks_of data") simp_all
qed

lemma write_no_overflow:
  assumes "unat off + length data + 4096 < 2 ^ 64"
  shows "unat (of_nat (length data) :: u64) = length data"
    "unat (of_nat (blocks_of data) :: u64) = blocks_of data" "extent_end (data_extent off a0 data) = unat off + 4096 * blocks_of data"
    "extent_end (data_extent off a0 data) < 2 ^ 64" "length data < 2 ^ 64 - 4096" "blocks_of data < 2 ^ 64"
proof -
  note b = blocks_of_bounds [of data]
  show l: "unat (of_nat (length data) :: u64) = length data" "unat (of_nat (blocks_of data) :: u64) = blocks_of data"
    "length data < 2 ^ 64 - 4096" "blocks_of data < 2 ^ 64"
    using assms b by (simp_all add: unat_of_nat)
  then show "extent_end (data_extent off a0 data) = unat off + 4096 * blocks_of data"
    by (simp add: extent_end_def data_extent_def)
  then show "extent_end (data_extent off a0 data) < 2 ^ 64" using assms b by simp
qed

lemma block_count_of:
  assumes "length data < 2 ^ 64 - 4096"
  shows "bindR (add_u (of_nat (length data)) (ucast BAFS_DEFAULT_BLOCK_SIZE_BYTES)) (\<lambda>n.
    bindR (sub_u n 1) (\<lambda>n. Ok (n div ucast BAFS_DEFAULT_BLOCK_SIZE_BYTES))) = Ok (of_nat (blocks_of data) :: u64)"
proof -
  let ?l = "of_nat (length data) :: u64"
  have l: "unat ?l = length data" using assms by (simp add: unat_of_nat)
  then have a: "add_u ?l 4096 = Ok (?l + 4096)" "unat (?l + 4096) = length data + 4096"
    using assms add_run [of ?l 4096] by simp_all
  then have s: "sub_u (?l + 4096) 1 = Ok (?l + 4095)" "unat (?l + 4095) = length data + 4095"
    using assms l add_run [of ?l 4095] by (simp_all add: sub_u_def word_le_nat_alt)
  have "blocks_of data < 2 ^ 64" using assms by (simp add: blocks_of_def)
  then have "(?l + 4095) div 4096 = of_nat (blocks_of data)"
    using s(2) by (simp add: word_unat_eq_iff unat_div blocks_of_def unat_of_nat del: of_nat_add)
  then show ?thesis
    using a(1) s(1) by (simp add: BAFS_DEFAULT_BLOCK_SIZE_BYTES_def)
qed

lemma volume_write_fs:
  assumes "volume_fs D vol fs" "funds D rounds (66 * blocks_of data + 130 + u) vol" "deep fuel"
    and "fs_inodes fs ino = Some inode" "is_regular_file inode" "data \<noteq> []"
    and "unat off + length data + 4096 < 2 ^ 64" "unat (allocated_block_count inode) + blocks_of data < 2 ^ 64"
    and "unat (volume_next_free_block vol) + blocks_of data \<le> unat (total_block_count (superblock vol))"
    and fs': "fs' = write_spec ino off data (volume_next_free_block vol) (next_transaction_id vol) inode fs"
  shows "\<exists>vol'. volume_write_file_data rounds fuel D ino off data vol = (Ok (length data), vol') \<and>
    volume_fs D vol' fs' \<and> blocks_at D vol' fs' data (volume_next_free_block vol) \<and> vol_step vol vol' \<and> funds D rounds u vol'"
proof -
  let ?n = "blocks_of data" and ?a0 = "volume_next_free_block vol"
  let ?e = "data_extent off ?a0 data" and ?fs1 = "put_checksums data ?a0 ?n fs"
  let ?c = "allocated_inode_count (superblock vol)" and ?i = "grown_inode off data (next_transaction_id vol) inode"
  note ov = write_no_overflow [OF assms(7)]
  have r: "represents D vol fs" and v: "fs_valid ?c fs" using assms(1) by (simp_all add: volume_fs_def)
  have io: "inode_number inode = ino" "wf_inode inode" "1 \<le> ino" "ino \<le> ?c" using fs_validD(2) [OF v assms(4)] by simp_all
  have n: "0 < ?n" "?n < 2 ^ 64" "length data < 2 ^ 64 - 4096"
    using assms(6) ov(5,6) blocks_of_bounds(3) by auto
  have f: "funds D rounds (66 * ?n + (65 + (65 + u))) vol" using assms(2) by (simp add: algebra_simps)
  obtain vol1 where a: "allocate_and_write_data_blocks rounds fuel D data vol = (Ok ?a0, vol1)" "represents D vol1 ?fs1"
      "blocks_at D vol1 ?fs1 data ?a0" "vol_step vol vol1" "funds D rounds (65 + (65 + u)) vol1"
    using allocate_and_write_fs [OF r f assms(3) refl n assms(9) refl refl] by blast
  obtain freed vol2 vol3 where x: "update_inode_tree (\<lambda>dev root generation. write_extent_data_to_inode_tree fuel D dev root ino ?e generation) [] vol1
        = (Ok freed, vol2)" "return_freed_cow_blocks_to_free_extent_tree rounds fuel D freed vol2 = (Ok (), vol3)"
      "represents D vol3 (put_extent ino ?e ?fs1)" "vol_step vol1 vol3" "funds D rounds (65 + u) vol3"
    using write_extent_fs [OF a(2,5) assms(3) io(3), of ?e] ov(4) by auto
  have i: "wf_inode ?i" "inode_number ?i = ino" "posix_mode ?i = posix_mode inode" "hard_link_count ?i = hard_link_count inode"
    using io by (simp_all add: grown_inode_def wf_inode_def)
  obtain vol4 where y: "volume_write_inode rounds fuel D ?i vol3 = (Ok (), vol4)" "represents D vol4 fs'"
      "vol_step vol3 vol4" "funds D rounds u vol4"
    using write_inode_fs [OF x(3,5) assms(3) i(1)] io(3) i(2) unfolding fs' write_spec_def by auto
  have st: "vol_step vol vol4" by (rule vol_step_trans [OF vol_step_trans [OF a(4) x(4)] y(3)])
  have "fs_valid ?c fs'"
    unfolding fs' write_spec_def
    by (rule fs_valid_put_inode [OF fs_valid_put_extent [OF v assms(4,5)] order_refl i(1)]) (use i io assms(4) in auto)
  then have "volume_fs D vol4 fs'" using y(2) vol_step_simps(3) [OF st] by (simp add: volume_fs_def)
  moreover have "fs_checksums fs' = fs_checksums ?fs1" by (simp add: fs' write_spec_def)
  then have "blocks_at D vol4 fs' data ?a0"
    using blocks_at_step [OF vol_step_trans [OF x(4) y(3)] _ a(3)] by blast
  moreover have "volume_write_file_data rounds fuel D ino off data vol = (Ok (length data), vol4)"
  proof -
    show ?thesis
      using assms(4-6,8) a(1) x(1,2) y(1) assms(7) ov block_count_of [OF n(3)]
      by (simp add: volume_write_file_data_def volume_read_inode_fs [OF r assms(3)] Let_def data_extent_def [symmetric]
          grown_inode_def [symmetric])
  qed
  ultimately show ?thesis using st y(4) by blast
qed

section \<open>The content after a write\<close>

lemma data_block_nth:
  assumes "i < length data"
  shows "data_block data (i div 4096) ! (i mod 4096) = data ! i"
proof -
  define k m where "k = i div 4096" and "m = i mod 4096"
  have i: "i = k * 4096 + m" "m < 4096" by (simp_all add: k_def m_def)
  have "m < min (k * 4096 + 4096) (length data) - k * 4096" using assms i by simp
  then have "data_block data k ! m = slice (k * 4096) (min (k * 4096 + 4096) (length data)) data ! m"
    using i assms by (simp add: data_block_def nth_write_slice)
  also have "\<dots> = data ! i"
    using i assms by (subst nth_slice) simp_all
  finally show ?thesis by (simp add: k_def m_def)
qed

lemma write_spec_simps [simp]:
  "inode_number inode = ino \<Longrightarrow> fs_inodes (write_spec ino off data a0 g inode fs) = (fs_inodes fs)(ino \<mapsto> grown_inode off data g inode)"
  "fs_entries (write_spec ino off data a0 g inode fs) = fs_entries fs"
  "fs_extents (write_spec ino off data a0 g inode fs) = fs_extents (put_extent ino (data_extent off a0 data) fs)"
  "fs_checksums (write_spec ino off data a0 g inode fs) = fs_checksums (put_checksums data a0 (blocks_of data) fs)"
  by (simp_all add: write_spec_def grown_inode_def) (simp add: put_extent_def)

lemma write_checksums_below:
  "a < unat a0 \<Longrightarrow> fs_checksums (put_checksums data a0 n fs) (of_nat a) = fs_checksums fs (of_nat a)"
  using unat_bound [of a0] by (simp add: put_checksums_def in_span_def unat_of_nat)

lemma write_keeps_others:
  assumes "vol_step vol vol'" "ino' \<noteq> ino" "inode_number inode = ino"
    and "file_holds D (device vol) (cow_of [] vol) fs ino' bs"
  shows "file_holds D (device vol') (cow_of [] vol') (write_spec ino off data (volume_next_free_block vol) g inode fs) ino' bs"
  using assms(2,3) vol_step_simps(1) [OF assms(1)]
  by (intro file_holds_frame [OF _ _ _ _ assms(4)])
    (simp_all add: kept_step vol_step_simps(7) [OF assms(1)] put_extent_extents write_checksums_below)

lemma aligned_blocks: "4096 dvd n \<Longrightarrow> 4096 * ((n + m + 4095) div 4096) = n + 4096 * ((m + 4095) div 4096)" for n m :: nat
proof (elim dvdE)
  fix k assume n: "n = 4096 * k"
  have e: "n + m + 4095 = (m + 4095) + k * 4096" by (simp add: n)
  have "(n + m + 4095) div 4096 = k + (m + 4095) div 4096"
    unfolding e by (rule div_mult_self1) simp
  then show ?thesis by (simp add: n)
qed

lemma write_appends:
  assumes "vol_step vol vol'" "blocks_at D vol' fs' data (volume_next_free_block vol)"
    and fs': "fs' = write_spec ino off data (volume_next_free_block vol) g inode fs"
    and "fs_inodes fs ino = Some inode" "inode_number inode = ino" "is_regular_file inode"
    and holds: "file_holds D (device vol) (cow_of [] vol) fs ino bs" and off: "unat off = length bs" "4096 dvd length bs"
    and "unat off + length data + 4096 < 2 ^ 64"
  shows "file_holds D (device vol') (cow_of [] vol') fs' ino (bs @ data)"
proof -
  let ?a0 = "volume_next_free_block vol" and ?e = "data_extent off (volume_next_free_block vol) data"
  note ov = write_no_overflow [OF assms(10)]
  have size: "unat (file_size_in_bytes inode) = length bs"
    using holds assms(4) by (auto simp: file_holds_def)
  have ends: "extent_end x \<le> length bs" if "x \<in> fs_extents fs ino" for x
    using holds that off(2) aligned_blocks [of "length bs" 0] by (auto simp: file_holds_def)
  have X: "fs_extents fs' ino = insert ?e {x \<in> fs_extents fs ino. logical_byte_offset x \<noteq> off}"
    by (simp add: fs' put_extent_extents data_extent_def)
  have ee: "extent_end ?e = length bs + 4096 * blocks_of data" "logical_byte_offset ?e = off" "first_disk_block ?e = ?a0"
    using ov(3) off(1) by (simp_all add: data_extent_def)
  have "unat (file_size_in_bytes (grown_inode off data g inode)) = length (bs @ data)"
    using size off(1) ov(1) assms(10) add_run [of off "of_nat (length data)"]
    by (simp add: grown_inode_def max_def word_le_nat_alt)
  then have "\<exists>i. fs_inodes fs' ino = Some i \<and> is_regular_file i \<and> unat (file_size_in_bytes i) = length (bs @ data)"
    using assms(5,6) by (simp add: fs' grown_inode_def is_regular_file_def)
  moreover have "\<forall>x\<in>fs_extents fs' ino. extent_end x \<le> 4096 * ((length (bs @ data) + 4095) div 4096)"
    using ends ee(1) aligned_blocks [OF off(2), of "length data"] by (fastforce simp: X blocks_of_def)
  moreover have "byte_at D (device vol') (cow_of [] vol') fs' ino i ((bs @ data) ! i)" if i: "i < length (bs @ data)" for i
  proof (cases "i < length bs")
    case True
    then have "byte_at D (device vol) (cow_of [] vol) fs ino i (bs ! i)" using holds by (simp add: file_holds_def)
    then obtain e B where e: "e \<in> fs_extents fs ino" "unat (logical_byte_offset e) \<le> i" "i < extent_end e"
        "\<forall>e'\<in>fs_extents fs ino. unat (logical_byte_offset e') \<le> i \<and> i < extent_end e' \<longrightarrow> e' = e"
        "data_at D (device vol) (cow_of [] vol) fs (unat (first_disk_block e) + (i - unat (logical_byte_offset e)) div 4096) B"
        "B ! ((i - unat (logical_byte_offset e)) mod 4096) = bs ! i"
      by (rule byte_atE)
    have m: "e \<in> fs_extents fs' ino" using e(1,2) True off(1) by (auto simp: X)
    have u: "\<forall>e'\<in>fs_extents fs' ino. unat (logical_byte_offset e') \<le> i \<and> i < extent_end e' \<longrightarrow> e' = e"
      using e(4) True off(1) ee(2) by (auto simp: X)
    have d: "data_at D (device vol') (cow_of [] vol') fs' (unat (first_disk_block e) + (i - unat (logical_byte_offset e)) div 4096) B"
      unfolding vol_step_simps(1) [OF assms(1)]
    proof (rule data_at_frame [OF kept_step [OF vol_step_simps(7) [OF assms(1)]] _ e(5)])
      show "fs_checksums fs' (of_nat (unat (first_disk_block e) + (i - unat (logical_byte_offset e)) div 4096))
          = fs_checksums fs (of_nat (unat (first_disk_block e) + (i - unat (logical_byte_offset e)) div 4096))"
        unfolding fs' write_spec_simps
        by (rule write_checksums_below) (use e(5) in \<open>simp add: data_at_def\<close>)
    qed
    have n: "(bs @ data) ! i = bs ! i" using True by (simp add: nth_append)
    show ?thesis
      unfolding byte_at_def n by (intro bexI [OF _ m] exI [of _ B] conjI e(2,3,6) u d)
  next
    case False
    let ?j = "i - length bs"
    have j: "?j < length data" "?j div 4096 < blocks_of data"
      using i False blocks_of_bounds(1) [of data] by (auto simp: div_less_iff_less_mult)
    have "data_at D (device vol') (cow_of [] vol') fs' (unat ?a0 + ?j div 4096) (data_block data (?j div 4096))"
      using assms(2) j(2) by (simp add: blocks_at_def)
    moreover have "\<forall>e'\<in>fs_extents fs' ino. unat (logical_byte_offset e') \<le> i \<and> i < extent_end e' \<longrightarrow> e' = ?e"
      using ends False by (fastforce simp: X)
    moreover have "unat (logical_byte_offset ?e) \<le> i" "i < extent_end ?e"
      using False j(1) off(1) ee blocks_of_bounds(1) [of data] by simp_all
    ultimately show ?thesis
      unfolding byte_at_def using False data_block_nth [OF j(1)] off(1) ee(2,3)
      by (intro bexI [of _ ?e] exI [of _ "data_block data (?j div 4096)"]) (simp_all add: X nth_append)
  qed
  ultimately show ?thesis unfolding file_holds_def by blast
qed

lemma new_file_empty:
  assumes "fs_inodes fs ino = Some (new_regular_file ino g t)" "fs_extents fs ino = {}"
  shows "file_holds D dev st fs ino []"
  using assms by (simp add: file_holds_def new_inode_kinds) (simp add: new_regular_file_def)

end
