(* ===== verification/Volume_Unlink.thy ===== *)
theory Volume_Unlink
  imports Volume_Write
begin

text \<open>
  Removing a directory entry, and with the last link of a file its extents and its inode.
\<close>

section \<open>Roots that are not yet in the superblock\<close>

definition with_roots :: "u64 \<Rightarrow> u64 \<Rightarrow> 'd bafs_volume \<Rightarrow> 'd bafs_volume" where
  "with_roots ir fr vol = vol\<lparr>superblock := (superblock vol)\<lparr>inode_tree_root_block := ir, free_extent_tree_root_block := fr\<rparr>\<rparr>"

lemma with_roots_simps [simp]:
  "device (with_roots ir fr vol) = device vol" "dirty_block_cache (with_roots ir fr vol) = dirty_block_cache vol"
  "volume_next_free_block (with_roots ir fr vol) = volume_next_free_block vol"
  "next_transaction_id (with_roots ir fr vol) = next_transaction_id vol"
  "cow_of s (with_roots ir fr vol) = cow_of s vol"
  "superblock (with_roots ir fr vol) = (superblock vol)\<lparr>inode_tree_root_block := ir, free_extent_tree_root_block := fr\<rparr>"
  "with_roots (inode_tree_root_block (superblock vol)) (free_root vol) vol = vol"
  by (simp_all add: with_roots_def cow_of_def)

text \<open>Freeing a run of blocks on the pool: two units for the addresses.\<close>

lemma free_blocks_funds:
  assumes "funds D rounds (2 + u) (with_roots ir fr vol)" "deep fuel" "unat a + unat n < 2 ^ 64"
  shows "\<exists>st fr'. free_blocks fuel D (device vol) fr a n g (cow_of freed vol) = (Ok fr', st) \<and>
    cheap 128 (cow_of freed vol) st \<and> funds D rounds u (with_roots ir fr' (after vol st))"
proof -
  obtain N where N: "pool_on D (device vol) (cow_of [] vol) fr N" "card (cross vol N) + 2 \<le> rounds"
      "unat (volume_next_free_block vol) + 96 * (2 * card (cross vol N) + (2 + u)) < 2 ^ 64"
      "unat (free_block_count (superblock vol)) + 2 * card (cross vol N) + (2 + u) < 2 ^ 64"
      "unat (next_cow_block_address (superblock vol)) \<le> unat (volume_next_free_block vol)"
    using assms(1) by (auto simp: funds_def cross_def)
  have on: "pool_on D (device vol) (cow_of freed vol) fr N" using N(1) pool_on_cow_of [of D _ freed vol] by simp
  have r4: "room 4 (cow_of freed vol)" using N(3) by (simp add: room_def)
  have op: "\<exists>st' r. free_blocks fuel D (device vol) fr a n g (cow_of freed vol) = (Ok r, st') \<and>
      (\<exists>N'. pool_on D (device vol) st' r N' \<and> turnover (cow_of freed vol) st' N N') \<and> cow_step (cow_of freed vol) st' \<and> room k st'"
    if "room (Suc (Suc (Suc k))) (cow_of freed vol)" for k
    using free_blocks_pool [OF on assms(2) that assms(3), of g] by blast
  have "\<exists>st r. free_blocks fuel D (device vol) fr a n g (cow_of freed vol) = (Ok r, st) \<and>
      (\<exists>N'. pool_on D (device vol) st r N' \<and> turnover (cow_of freed vol) st N N') \<and> cheap 128 (cow_of freed vol) st"
    by (rule tree_op3_cheap [where m = "free_blocks fuel D (device vol) fr a n g" and
        P = "\<lambda>r st. \<exists>N'. pool_on D (device vol) st r N' \<and> turnover (cow_of freed vol) st N N'", OF op r4])
  then obtain st r N' where f: "free_blocks fuel D (device vol) fr a n g (cow_of freed vol) = (Ok r, st)"
      "pool_on D (device vol) st r N'" "turnover (cow_of freed vol) st N N'" "cheap 128 (cow_of freed vol) st"
    by blast
  let ?v = "with_roots ir r (after vol st)"
  have "pool_on D (device ?v) (cow_of [] ?v) (free_root ?v) N'"
    using f(2) pool_on_cow_of [of D "device vol" "freed_blocks st" "after vol st" r N']
    by (simp add: cow_of_after)
  moreover have "cross ?v N' \<subseteq> cross vol N"
    using f(3) N(5) by (auto simp: cross_def turnover_def fresh_set_def word_less_nat_alt)
  then have "card (cross ?v N') \<le> card (cross vol N)" by (intro card_mono) simp_all
  moreover have "unat (next_free_block st) \<le> unat (volume_next_free_block vol) + 128"
      "unat (volume_next_free_block vol) \<le> unat (next_free_block st)"
    using f(4) cow_step_next [of "cow_of freed vol" st] by (simp_all add: cheap_def)
  ultimately have "funds D rounds u ?v"
    unfolding funds_def using N(2-5) by (intro exI [of _ N']) auto
  with f(1,4) show ?thesis by blast
qed

section \<open>Releasing the extents of a file\<close>

lemma delete_key_at:
  assumes "trees_of D (with_roots ir fr vol) its cks" "funds D rounds (1 + u) (with_roots ir fr vol)" "deep fuel" "1 \<le> u"
    and "kv_map its k \<noteq> None" "k \<noteq> ROOT_KEY"
  shows "\<exists>st ir'. delete_from_tree fuel D (device vol) ir k g (cow_of freed vol) = (Ok ir', st) \<and>
    cheap 64 (cow_of freed vol) st \<and> trees_of D (with_roots ir' fr (after vol st)) (del_items k its) cks \<and>
    funds D rounds u (with_roots ir' fr (after vol st))"
proof -
  have r: "inode_tree D (device vol) (cow_of [] vol) ir its"
      "checksum_tree D (device vol) (cow_of [] vol) (checksum_tree_root_block (superblock vol)) cks"
    using assms(1) by (simp_all add: trees_of_def)
  have at: "inode_tree D (device vol) (cow_of freed vol) ir its"
    using r(1) unfolding cow_of_freed [of freed] by (simp add: inode_tree_freed)
  have r2: "room 2 (cow_of freed vol)"
    using funds_room [OF assms(2), of 2 freed] assms(4) by simp
  have op: "\<exists>st' r. delete_from_tree fuel D (device vol) ir k g (cow_of freed vol) = (Ok r, st') \<and>
      inode_tree D (device vol) st' r (del_items k its) \<and> cow_step (cow_of freed vol) st' \<and> room n st'"
    if "room (Suc n) (cow_of freed vol)" for n
    using it.del_at [OF at assms(3) that assms(6,5), of g] by blast
  have "\<exists>st r. delete_from_tree fuel D (device vol) ir k g (cow_of freed vol) = (Ok r, st) \<and>
      inode_tree D (device vol) st r (del_items k its) \<and> cheap 64 (cow_of freed vol) st"
    by (rule tree_op_cheap [where m = "delete_from_tree fuel D (device vol) ir k g" and
        P = "\<lambda>r st. inode_tree D (device vol) st r (del_items k its)", OF op r2])
  then obtain st r' where d: "delete_from_tree fuel D (device vol) ir k g (cow_of freed vol) = (Ok r', st)"
      "inode_tree D (device vol) st r' (del_items k its)" "cheap 64 (cow_of freed vol) st"
    by blast
  note c = cheap_after [OF d(3)]
  then have cs: "cow_step (cow_of [] vol) (cow_of [] (after vol st))" by (simp add: cheap_def)
  have "trees_of D (with_roots r' fr (after vol st)) (del_items k its) cks"
    using d(2) bt.frame [OF cs r(2)] by (simp add: trees_of_def cow_of_after inode_tree_freed)
  moreover have "funds D rounds u (with_roots r' fr (after vol st))"
    using c by (intro funds_spend [OF assms(2), where c = 1]) (simp_all add: cheap_def)
  ultimately show ?thesis using d(1,3) by blast
qed

lemma delete_extent_fs:
  assumes "represents D (with_roots ir fr vol) fs" "funds D rounds (1 + u) (with_roots ir fr vol)" "deep fuel" "1 \<le> u"
    and "e \<in> fs_extents fs ino"
  shows "\<exists>st ir'. delete_from_tree fuel D (device vol) ir (extent_key ino (logical_byte_offset e)) g (cow_of freed vol) = (Ok ir', st) \<and>
    cheap 64 (cow_of freed vol) st \<and> represents D (with_roots ir' fr (after vol st)) (drop_extent ino (logical_byte_offset e) fs) \<and>
    funds D rounds u (with_roots ir' fr (after vol st))"
proof -
  let ?k = "extent_key ino (logical_byte_offset e)"
  obtain its cks where r: "trees_of D (with_roots ir fr vol) its cks" "items_wf its" "fs_of its cks = fs"
    using assms(1) by (rule representsE)
  have "e \<in> file_extents its ino" using assms(5) by (simp flip: r(3))
  then obtain i where "i \<in> set its" "item_key i = ?k" by (auto simp: file_extents_def extent_item_def)
  then have k: "kv_map its ?k \<noteq> None" unfolding kv_map_None by force
  have kr: "?k \<noteq> ROOT_KEY" by (simp add: ROOT_KEY_def extent_key_def item_types)
  show ?thesis
    using delete_key_at [OF r(1) assms(2-4) k kr] items_wf_del [OF r(2)] fs_drop_extent r(3)
    unfolding represents_def by metis
qed

lemma delete_inode_fs:
  assumes "represents D (with_roots ir fr vol) fs" "funds D rounds (1 + u) (with_roots ir fr vol)" "deep fuel" "1 \<le> u"
    and "fs_inodes fs ino \<noteq> None" "ino \<noteq> BAFS_ROOT_INODE_NUMBER"
  shows "\<exists>st ir'. delete_from_tree fuel D (device vol) ir (inode_key ino) g (cow_of freed vol) = (Ok ir', st) \<and>
    cheap 64 (cow_of freed vol) st \<and> represents D (with_roots ir' fr (after vol st)) (drop_inode ino fs) \<and>
    funds D rounds u (with_roots ir' fr (after vol st))"
proof -
  obtain its cks where r: "trees_of D (with_roots ir fr vol) its cks" "items_wf its" "fs_of its cks = fs"
    using assms(1) by (rule representsE)
  have "inode_at its ino \<noteq> None" using assms(5) by (simp flip: r(3))
  then have k: "kv_map its (inode_key ino) \<noteq> None" by (auto simp: inode_at_def split: option.splits)
  have kr: "inode_key ino \<noteq> ROOT_KEY" using assms(6) by (simp add: ROOT_KEY_def inode_key_def)
  show ?thesis
    using delete_key_at [OF r(1) assms(2-4) k kr] items_wf_del [OF r(2)] fs_drop_inode r(3)
    unfolding represents_def by metis
qed

definition drop_extents :: "u64 \<Rightarrow> u64 set \<Rightarrow> file_system \<Rightarrow> file_system" where
  "drop_extents ino F fs = fs\<lparr>fs_extents := (fs_extents fs)(ino := {e \<in> fs_extents fs ino. logical_byte_offset e \<notin> F})\<rparr>"

lemma drop_extents_simps [simp]:
  "fs_inodes (drop_extents ino F fs) = fs_inodes fs" "fs_entries (drop_extents ino F fs) = fs_entries fs"
  "fs_checksums (drop_extents ino F fs) = fs_checksums fs"
  "fs_extents (drop_extents ino F fs) i = (if i = ino then {e \<in> fs_extents fs ino. logical_byte_offset e \<notin> F} else fs_extents fs i)"
  "drop_extents ino {} fs = fs"
  by (simp_all add: drop_extents_def)

lemma drop_extents_insert: "drop_extents ino F (drop_extent ino off fs) = drop_extents ino (insert off F) fs"
  by (auto simp: drop_extents_def drop_extent_def intro: file_system.equality)

definition extent_leaf :: "u64 \<Rightarrow> bafs_extent_data \<Rightarrow> bafs_leaf_item" where
  "extent_leaf ino e = \<lparr>item_key = extent_key ino (logical_byte_offset e), item_value = serialise_extent_data_to_bytes e\<rparr>"

lemma represents_step:
  assumes "represents D (with_roots ir fr vol) fs" "cow_step (cow_of [] vol) (cow_of [] vol')"
    and "device vol' = device vol" "superblock vol' = superblock vol"
  shows "represents D (with_roots ir fr' vol') fs"
proof -
  obtain its cks where r: "items_wf its" "fs_of its cks = fs"
      "inode_tree D (device vol) (cow_of [] vol) ir its"
      "checksum_tree D (device vol) (cow_of [] vol) (checksum_tree_root_block (superblock vol)) cks"
    using assms(1) by (rule representsE) simp
  have "trees_of D (with_roots ir fr' vol') its cks"
    using it.frame [OF assms(2) r(3)] bt.frame [OF assms(2) r(4)] assms(3,4) by (simp add: trees_of_def)
  with r(1,2) show ?thesis unfolding represents_def by blast
qed

lemma cheap_steps:
  assumes "cheap c (cow_of freed vol) st"
  shows "cow_step (cow_of [] vol) (cow_of [] (after vol st))"
  using cheap_after [OF assms] by (simp add: cheap_def)

lemma release_extents_fs:
  assumes "represents D (with_roots ir fr vol) fs" "deep fuel" "distinct (map logical_byte_offset es)"
    and "funds D rounds (length freed + 195 * length es + (2 + u)) (with_roots ir fr vol)"
    and "\<forall>e\<in>set es. e \<in> fs_extents fs ino \<and> unat (first_disk_block e) + unat (ed_block_count e) < 2 ^ 64"
  shows "\<exists>ir' fr' freed' vol'. release_extents fuel D g (map (extent_leaf ino) es) ir fr freed vol = (Ok (ir', fr', freed'), vol') \<and>
    represents D (with_roots ir' fr' vol') (drop_extents ino (logical_byte_offset ` set es) fs) \<and>
    funds D rounds (length freed' + (2 + u)) (with_roots ir' fr' vol') \<and>
    cow_step (cow_of [] vol) (cow_of [] vol') \<and> device vol' = device vol \<and> superblock vol' = superblock vol \<and>
    next_transaction_id vol' = next_transaction_id vol"
  using assms
proof (induction es arbitrary: ir fr freed vol fs)
  case Nil
  then show ?case by simp
next
  case (Cons e es)
  let ?o = "logical_byte_offset e"
  let ?u = "length freed + 192 + 195 * length es + (2 + u)"
  have e: "e \<in> fs_extents fs ino" "unat (first_disk_block e) + unat (ed_block_count e) < 2 ^ 64"
    using Cons.prems(5) by simp_all
  have f0: "funds D rounds (2 + (1 + ?u)) (with_roots ir fr vol)" using Cons.prems(4) by (simp add: algebra_simps)
  obtain st fr' where a: "free_blocks fuel D (device vol) fr (first_disk_block e) (ed_block_count e) g (cow_of freed vol) = (Ok fr', st)"
      "cheap 128 (cow_of freed vol) st" "funds D rounds (1 + ?u) (with_roots ir fr' (after vol st))"
    using free_blocks_funds [OF f0 Cons.prems(2) e(2), of g freed] by blast
  let ?v = "after vol st"
  have s1: "cow_step (cow_of [] vol) (cow_of [] ?v)" by (rule cheap_steps [OF a(2)])
  have r1: "represents D (with_roots ir fr' ?v) fs" by (rule represents_step [OF Cons.prems(1) s1]) simp_all
  obtain st' ir' where b: "delete_from_tree fuel D (device ?v) ir (extent_key ino ?o) g (cow_of (freed_blocks st) ?v) = (Ok ir', st')"
      "cheap 64 (cow_of (freed_blocks st) ?v) st'"
      "represents D (with_roots ir' fr' (after ?v st')) (drop_extent ino ?o fs)"
      "funds D rounds ?u (with_roots ir' fr' (after ?v st'))"
    using delete_extent_fs [OF r1 a(3) Cons.prems(2) _ e(1), of g "freed_blocks st"] by auto
  let ?w = "after ?v st'"
  have fl: "length (freed_blocks st') \<le> length freed + 192"
    using cheap_freed [OF a(2)] cheap_freed [OF b(2)] by simp
  have f2: "funds D rounds (length (freed_blocks st') + 195 * length es + (2 + u)) (with_roots ir' fr' ?w)"
    by (rule funds_mono [OF b(4)]) (use fl in simp)
  have es: "\<forall>e\<in>set es. e \<in> fs_extents (drop_extent ino ?o fs) ino \<and> unat (first_disk_block e) + unat (ed_block_count e) < 2 ^ 64"
    using Cons.prems(3,5) by (auto simp: drop_extent_def) (metis image_eqI)
  have d: "distinct (map logical_byte_offset es)" using Cons.prems(3) by simp
  obtain ir'' fr'' freed'' w where c: "release_extents fuel D g (map (extent_leaf ino) es) ir' fr' (freed_blocks st') ?w = (Ok (ir'', fr'', freed''), w)"
      "represents D (with_roots ir'' fr'' w) (drop_extents ino (logical_byte_offset ` set es) (drop_extent ino ?o fs))"
      "funds D rounds (length freed'' + (2 + u)) (with_roots ir'' fr'' w)"
      "cow_step (cow_of [] ?w) (cow_of [] w)" "device w = device ?w" "superblock w = superblock ?w"
      "next_transaction_id w = next_transaction_id ?w"
    using Cons.IH [OF b(3) Cons.prems(2) d f2 es] by blast
  have run: "release_extents fuel D g (map (extent_leaf ino) (e # es)) ir fr freed vol = (Ok (ir'', fr'', freed''), w)"
    using a(1) b(1) c(1) by (simp add: extent_leaf_def)
  have "cow_step (cow_of [] vol) (cow_of [] w)"
    using cow_step_trans [OF cow_step_trans [OF s1 cheap_steps [OF b(2)]] c(4)] .
  with run c(2,3,5-7) show ?case
    by (intro exI [of _ ir''] exI [of _ fr''] exI [of _ freed''] exI [of _ w]) (simp add: drop_extents_insert)
qed

text \<open>The scan of the file's extent items, in the order of their offsets.\<close>

lemma scan_extents_fs:
  assumes "represents D vol fs" "deep fuel"
  obtains es where "iterate_tree_range fuel D (device vol) (dirty_block_cache vol) (inode_tree_root_block (superblock vol))
      (BafsKey ino ITEM_TYPE_EXTENT_DATA 0) (BafsKey ino ITEM_TYPE_EXTENT_DATA (- 1)) = Ok (map (extent_leaf ino) es)"
    "distinct (map logical_byte_offset es)" "set es = fs_extents fs ino"
proof -
  obtain its cks where r: "items_wf its" "fs_of its cks = fs" "sorted_items its"
      "inode_tree D (device vol) (cow_of [] vol) (inode_tree_root_block (superblock vol)) its"
    using assms(1) by (rule representsE)
  let ?xs = "filter (\<lambda>i. keys_of ino ITEM_TYPE_EXTENT_DATA (item_key i)) its"
  have x: "iterate_tree_range fuel D (device vol) (dirty_block_cache vol) (inode_tree_root_block (superblock vol))
      (BafsKey ino ITEM_TYPE_EXTENT_DATA 0) (BafsKey ino ITEM_TYPE_EXTENT_DATA (- 1)) = Ok ?xs"
    using it.scan_at [OF r(4) assms(2), of "BafsKey ino ITEM_TYPE_EXTENT_DATA 0" "BafsKey ino ITEM_TYPE_EXTENT_DATA (- 1)"]
    by simp
  have w: "\<forall>i\<in>set ?xs. \<exists>e. extent_item ino i e"
    using items_wf_extents [OF r(1), of ino] by (simp add: extents_wf_def)
  then have "\<exists>es. ?xs = map (extent_leaf ino) es" 
    by (intro iffD2 [OF ex_map_conv]) (auto simp: extent_item_def extent_leaf_def)
  then obtain es where es: "?xs = map (extent_leaf ino) es" by blast
  have "sorted_items ?xs" by (rule sorted_items_filter [OF r(3)])
  then have "distinct (map item_key (map (extent_leaf ino) es))"
    unfolding es by (simp add: sorted_items_def strict_sorted_iff)
  then have d: "distinct (map logical_byte_offset es)"
    by (auto simp: extent_leaf_def distinct_map inj_on_def comp_def)
  have "set es = file_extents its ino"
  proof -
    have "file_extents its ino = {e. \<exists>i\<in>set ?xs. extent_item ino i e}"
      using file_extents_filter [of ino its] by (simp add: file_extents_def)
    also have "\<dots> = set es"
      using w serialise_inj unfolding es by (auto simp: extent_item_def extent_leaf_def)
    finally show ?thesis ..
  qed
  then show thesis using that [OF _ d] x es r(2) by (metis fs_of_simps(3))
qed

definition runs_ok :: "file_system \<Rightarrow> bool" where
  "runs_ok fs \<longleftrightarrow> (\<forall>ino. \<forall>e\<in>fs_extents fs ino. unat (first_disk_block e) + unat (ed_block_count e) < 2 ^ 64)"

lemma saturating_add_le: "unat (saturating_add a b) \<le> unat a + unat b"
  by (auto simp: saturating_add_def unat_word_ariths not_less intro: less_imp_le [OF order.strict_trans2 [OF unsigned_less]])

lemma drop_simps [simp]:
  "fs_inodes (drop_inode ino fs) = (fs_inodes fs)(ino := None)" "fs_entries (drop_inode ino fs) = fs_entries fs"
  "fs_extents (drop_inode ino fs) = fs_extents fs" "fs_checksums (drop_inode ino fs) = fs_checksums fs"
  "fs_inodes (drop_entry p n fs) = fs_inodes fs" "fs_extents (drop_entry p n fs) = fs_extents fs"
  "fs_entries (drop_entry p n fs) = (fs_entries fs)(p := (fs_entries fs p)(n := None))"
  "fs_checksums (drop_entry p n fs) = fs_checksums fs"
  by (simp_all add: drop_inode_def drop_entry_def)

lemma release_inode_fs:
  assumes "represents D vol fs" "deep fuel" "runs_ok fs"
    and "fs_inodes fs ino \<noteq> None" "ino \<noteq> BAFS_ROOT_INODE_NUMBER"
    and "funds D rounds (length freed + 195 * card (fs_extents fs ino) + unat (allocated_block_count inode) + (66 + u)) vol"
  shows "\<exists>freed' vol'. release_inode fuel D ino inode freed vol = (Ok freed', vol') \<and>
    represents D vol' (drop_inode ino (drop_extents ino UNIV fs)) \<and> vol_step vol vol' \<and>
    funds D rounds (length freed' + u) vol'"
proof -
  let ?ir = "inode_tree_root_block (superblock vol)" and ?g = "next_transaction_id vol"
  obtain es where es: "iterate_tree_range fuel D (device vol) (dirty_block_cache vol) ?ir
      (BafsKey ino ITEM_TYPE_EXTENT_DATA 0) (BafsKey ino ITEM_TYPE_EXTENT_DATA (- 1)) = Ok (map (extent_leaf ino) es)"
    "distinct (map logical_byte_offset es)" "set es = fs_extents fs ino"
    using assms(1,2) by (rule scan_extents_fs)
  have "length es = card (fs_extents fs ino)"
    using es(2) by (simp add: distinct_map distinct_card flip: es(3))
  then have f: "funds D rounds (length freed + 195 * length es + (2 + (64 + unat (allocated_block_count inode) + u)))
      (with_roots ?ir (free_root vol) vol)"
    using assms(6) by (simp add: algebra_simps)
  have r: "represents D (with_roots ?ir (free_root vol) vol) fs" using assms(1) by simp
  have ok: "\<forall>e\<in>set es. e \<in> fs_extents fs ino \<and> unat (first_disk_block e) + unat (ed_block_count e) < 2 ^ 64"
    using assms(3) by (simp add: runs_ok_def es(3))
  let ?fs = "drop_extents ino UNIV fs"
  have fs: "drop_extents ino (logical_byte_offset ` set es) fs = ?fs"
    by (auto simp: drop_extents_def es(3) fun_eq_iff)
  obtain ir fr freed1 w where l: "release_extents fuel D ?g (map (extent_leaf ino) es) ?ir (free_root vol) freed vol = (Ok (ir, fr, freed1), w)"
      "represents D (with_roots ir fr w) ?fs"
      "funds D rounds (length freed1 + (2 + (64 + unat (allocated_block_count inode) + u))) (with_roots ir fr w)"
      "cow_step (cow_of [] vol) (cow_of [] w)" "device w = device vol" "superblock w = superblock vol" "next_transaction_id w = ?g"
    using release_extents_fs [OF r assms(2) es(2) f ok, of ?g] unfolding fs by blast
  have i: "fs_inodes ?fs ino \<noteq> None" using assms(4) by simp
  let ?u = "length freed1 + 65 + unat (allocated_block_count inode) + u"
  have f1: "funds D rounds (1 + ?u) (with_roots ir fr w)"
    by (rule funds_mono [OF l(3)]) simp
  obtain st ir' where d: "delete_from_tree fuel D (device w) ir (inode_key ino) ?g (cow_of freed1 w) = (Ok ir', st)"
      "cheap 64 (cow_of freed1 w) st" "represents D (with_roots ir' fr (after w st)) (drop_inode ino ?fs)"
      "funds D rounds ?u (with_roots ir' fr (after w st))"
    using delete_inode_fs [OF l(2) f1 assms(2) _ i assms(5), of ?g freed1] by auto
  let ?n = "saturating_add (free_block_count (superblock vol)) (allocated_block_count inode)"
  let ?v = "(after w st)\<lparr>superblock := (superblock vol)\<lparr>inode_tree_root_block := ir',
     free_extent_tree_root_block := fr, free_block_count := ?n\<rparr>\<rparr>"
  have run: "release_inode fuel D ino inode freed vol = (Ok (freed_blocks st), ?v)"
    using es(1) l(1,6) d(1) by (simp add: release_inode_def set_superblock_def inode_key_def)
  have "represents D ?v (drop_inode ino ?fs)"
    using d(3) l(6) by (simp add: represents_def trees_of_def with_roots_def)
  moreover have "cow_step (cow_of [] vol) (cow_of [] ?v)"
    using cow_step_trans [OF l(4) cheap_steps [OF d(2)]] by simp
  then have "vol_step vol ?v"
    using l(5,7) by (intro vol_stepI [where i = ir' and f = fr and c = "checksum_tree_root_block (superblock vol)" and n = ?n]) simp_all
  moreover have "unat ?n \<le> unat (free_block_count (superblock vol)) + unat (allocated_block_count inode)"
    by (rule saturating_add_le)
  then have "funds D rounds (length (freed_blocks st) + u) ?v"
    using cheap_freed [OF d(2)] l(6) by (intro funds_spend [OF d(4), where c = 0]) (simp_all add: cheap_def)
  ultimately show ?thesis using run by blast
qed

section \<open>Removing an entry\<close>

definition unlink_spec :: "u64 \<Rightarrow> bytes \<Rightarrow> u64 \<Rightarrow> bafs_inode \<Rightarrow> file_system \<Rightarrow> file_system" where
  "unlink_spec p n k inode fs =
     (if is_regular_file inode then drop_inode k (drop_extents k UNIV (drop_entry p n fs))
      else put_inode (inode\<lparr>hard_link_count := 1\<rparr>) (drop_entry p n fs))"

lemma fs_valid_drop_entry:
  assumes "fs_valid c fs"
  shows "fs_valid c (drop_entry p n fs)"
proof -
  note v = fs_validD [OF assms]
  have old: "fs_entries fs p' n' = Some e" if "fs_entries (drop_entry p n fs) p' n' = Some e" for p' n' e
    using that by (auto split: if_splits)
  show ?thesis
  proof (rule fs_validI)
    show "entry_ok e \<and> filename e = n' \<and> linked (drop_entry p n fs) e \<and>
        child_inode_number e \<noteq> BAFS_ROOT_INODE_NUMBER \<and> (\<exists>d. fs_inodes (drop_entry p n fs) p' = Some d \<and> is_directory d)"
      if "fs_entries (drop_entry p n fs) p' n' = Some e" for p' n' e
      using v(4) [OF old [OF that]] by (simp add: linked_def)
    show "p'' = p' \<and> n'' = n'"
      if "fs_entries (drop_entry p n fs) p' n' = Some e'" "fs_entries (drop_entry p n fs) p'' n'' = Some e''"
        "child_inode_number e'' = child_inode_number e'" for p' n' e' p'' n'' e''
      by (rule v(5) [OF old [OF that(1)] old [OF that(2)] that(3)])
  qed (use v(1-3) in simp_all)
qed

lemma fs_valid_drop_file:
  assumes "fs_valid c fs" "fs_inodes fs k = Some inode" "is_regular_file inode"
    and "\<And>p n e. fs_entries fs p n = Some e \<Longrightarrow> child_inode_number e \<noteq> k"
  shows "fs_valid c (drop_inode k (drop_extents k UNIV fs))" (is "fs_valid c ?fs")
proof -
  note v = fs_validD [OF assms(1)]
  have dir: "\<exists>d. fs_inodes ?fs p = Some d \<and> is_directory d" if "\<exists>d. fs_inodes fs p = Some d \<and> is_directory d" for p
    using that assms(2,3) file_not_directory by (cases "p = k") auto
  show ?thesis
  proof (rule fs_validI)
    show "\<exists>r. fs_inodes ?fs BAFS_ROOT_INODE_NUMBER = Some r \<and> is_directory r" by (rule dir [OF v(1)])
    show "inode_number i = ino \<and> wf_inode i \<and> 1 \<le> ino \<and> ino \<le> c" if "fs_inodes ?fs ino = Some i" for ino i
      using that v(2) [of ino i] by (simp split: if_splits)
    show "\<exists>i. fs_inodes ?fs ino = Some i \<and> is_regular_file i" if "fs_extents ?fs ino \<noteq> {}" for ino
      using that v(3) [of ino] by (simp split: if_splits)
    show "entry_ok e \<and> filename e = n \<and> linked ?fs e \<and>
        child_inode_number e \<noteq> BAFS_ROOT_INODE_NUMBER \<and> (\<exists>d. fs_inodes ?fs p = Some d \<and> is_directory d)"
      if "fs_entries ?fs p n = Some e" for p n e
    proof -
      have e: "fs_entries fs p n = Some e" using that by simp
      have "linked ?fs e = linked fs e" using assms(4) [OF e] by (simp add: linked_def)
      with v(4) [OF e] dir [of p] show ?thesis by blast
    qed
    show "p' = p \<and> n' = n" if "fs_entries ?fs p n = Some e" "fs_entries ?fs p' n' = Some e'"
        "child_inode_number e' = child_inode_number e" for p n e p' n' e'
      using v(5) [of p n e p' n' e'] that by simp
  qed
qed

lemma fs_valid_set_links:
  assumes "fs_valid c fs" "fs_inodes fs k = Some inode"
    and "\<And>p n e. fs_entries fs p n = Some e \<Longrightarrow> child_inode_number e \<noteq> k"
  shows "fs_valid c (put_inode (inode\<lparr>hard_link_count := l\<rparr>) fs)" (is "fs_valid c ?fs")
proof -
  note v = fs_validD [OF assms(1)]
  have i: "inode_number inode = k" "wf_inode inode" "1 \<le> k" "k \<le> c" using v(2) [OF assms(2)] by simp_all
  have dir: "\<exists>d. fs_inodes ?fs p = Some d \<and> is_directory d" if "\<exists>d. fs_inodes fs p = Some d \<and> is_directory d" for p
    using that assms(2) i(1) by (cases "p = k") (auto simp: is_directory_def)
  show ?thesis
  proof (rule fs_validI)
    show "\<exists>r. fs_inodes ?fs BAFS_ROOT_INODE_NUMBER = Some r \<and> is_directory r" by (rule dir [OF v(1)])
    show "inode_number x = ino \<and> wf_inode x \<and> 1 \<le> ino \<and> ino \<le> c" if "fs_inodes ?fs ino = Some x" for ino x
      using that v(2) [of ino x] i by (auto split: if_splits simp: wf_inode_def)
    show "\<exists>x. fs_inodes ?fs ino = Some x \<and> is_regular_file x" if "fs_extents ?fs ino \<noteq> {}" for ino
      using that v(3) [of ino] assms(2) i(1) by (cases "ino = k") (auto simp: is_regular_file_def)
    show "entry_ok e \<and> filename e = n \<and> linked ?fs e \<and>
        child_inode_number e \<noteq> BAFS_ROOT_INODE_NUMBER \<and> (\<exists>d. fs_inodes ?fs p = Some d \<and> is_directory d)"
      if "fs_entries ?fs p n = Some e" for p n e
    proof -
      have e: "fs_entries fs p n = Some e" using that by simp
      have "linked ?fs e = linked fs e" using assms(3) [OF e] i(1) by (simp add: linked_def)
      with v(4) [OF e] dir [of p] show ?thesis by blast
    qed
    show "p' = p \<and> n' = n" if "fs_entries ?fs p n = Some e" "fs_entries ?fs p' n' = Some e'"
        "child_inode_number e' = child_inode_number e" for p n e p' n' e'
      using v(5) [of p n e p' n' e'] that by simp
  qed
qed

lemma fs_valid_unlink:
  assumes "fs_valid c fs" "fs_entries fs p n = Some e" "child_inode_number e = k" "fs_inodes fs k = Some inode"
  shows "fs_valid c (unlink_spec p n k inode fs)"
proof -
  have v: "fs_valid c (drop_entry p n fs)" by (rule fs_valid_drop_entry [OF assms(1)])
  have i: "fs_inodes (drop_entry p n fs) k = Some inode" using assms(4) by simp
  have no: "child_inode_number e' \<noteq> k" if "fs_entries (drop_entry p n fs) p' n' = Some e'" for p' n' e'
    using that assms(2,3) fs_validD(5) [OF assms(1,2), of p' n' e'] by (auto split: if_splits)
  show ?thesis
    unfolding unlink_spec_def using fs_valid_drop_file [OF v i _ no] fs_valid_set_links [OF v i no] by simp
qed

definition unlink_cost :: "u64 \<Rightarrow> bafs_inode \<Rightarrow> file_system \<Rightarrow> nat" where
  "unlink_cost k inode fs = 131 + 195 * card (fs_extents fs k) + unat (allocated_block_count inode)"

lemma unlink_entry_fs:
  assumes "represents D vol fs" "funds D rounds (Suc u) vol" "1 \<le> u" "deep fuel" "fs_entries fs p n \<noteq> None"
  shows "\<exists>freed vol'. update_inode_tree (\<lambda>dev root generation. directory_unlink_entry fuel D dev root p n generation) [] vol
      = (Ok freed, vol') \<and> represents D vol' (drop_entry p n fs) \<and> vol_step vol vol' \<and> funds D rounds u vol' \<and> length freed \<le> 64"
proof -
  obtain its cks where r: "trees_of D vol its cks" "items_wf its" "fs_of its cks = fs" "sorted_items its"
      "inode_tree D (device vol) (cow_of [] vol) (inode_tree_root_block (superblock vol)) its"
    using assms(1) by (rule representsE)
  have some: "dir_map its p n \<noteq> None" using assms(5) by (simp flip: r(3))
  have op: "inode_op D (\<lambda>dev root generation. directory_unlink_entry fuel D dev root p n generation) [] vol
      (del_items (make_directory_entry_key p n) its)"
    unfolding inode_op_def using unlink_entry_at [OF r(5) assms(4) _ items_wf_dirs [OF r(2)] some] by blast
  from update_inode_tree_at [OF r(1) assms(2,3) op] items_wf_del [OF r(2)] fs_drop_entry [OF r(4,2) some, of cks] r(3)
  show ?thesis unfolding represents_def by fastforce
qed

text \<open>The link count falls by one: a regular file with its only link is released, a directory is written
  back with the count 1.\<close>

lemma volume_unlink_fs:
  assumes "volume_fs D vol fs" "deep fuel" "runs_ok fs"
    and "fs_entries fs p n = Some e" "child_inode_number e = k" "fs_inodes fs k = Some inode"
    and "funds D rounds (unlink_cost k inode fs + u) vol"
  shows "\<exists>vol'. volume_unlink_directory_entry rounds fuel D p n vol = (Ok (), vol') \<and>
    volume_fs D vol' (unlink_spec p n k inode fs) \<and> vol_step vol vol' \<and> funds D rounds u vol'"
proof -
  have r: "represents D vol fs" and v: "fs_valid (allocated_inode_count (superblock vol)) fs"
    using assms(1) by (simp_all add: volume_fs_def)
  have l: "linked fs e" "k \<noteq> BAFS_ROOT_INODE_NUMBER" using fs_validD(4) [OF v assms(4)] assms(5) by simp_all
  have i: "wf_inode inode" "inode_number inode = k" "1 \<le> k" using fs_validD(2) [OF v assms(6)] by simp_all
  have kind: "is_regular_file inode \<and> hard_link_count inode = 1 \<or> \<not> is_regular_file inode \<and> hard_link_count inode = 2"
    using l(1) assms(5,6) file_not_directory by (auto simp: linked_def)
  let ?c = "195 * card (fs_extents fs k) + unat (allocated_block_count inode)"
  have f: "funds D rounds (Suc (130 + ?c + u)) vol" using assms(7) by (simp add: unlink_cost_def add.assoc)
  obtain freed vol1 where a: "update_inode_tree (\<lambda>dev root generation. directory_unlink_entry fuel D dev root p n generation) [] vol
        = (Ok freed, vol1)" "represents D vol1 (drop_entry p n fs)" "vol_step vol vol1"
      "funds D rounds (130 + ?c + u) vol1" "length freed \<le> 64"
    using unlink_entry_fs [OF r f _ assms(2), of p n] assms(4) by auto
  let ?i = "inode\<lparr>hard_link_count := saturating_sub (hard_link_count inode) 1\<rparr>"
  have run: "volume_unlink_directory_entry rounds fuel D p n vol =
      bindS (if hard_link_count ?i = 0 then release_inode fuel D k ?i freed
             else bindS (volume_write_inode rounds fuel D ?i) (\<lambda>_. retS freed))
        (return_freed_cow_blocks_to_free_extent_tree rounds fuel D) vol1"
    using assms(4-6) a(1) by (simp add: volume_unlink_directory_entry_def directory_lookup_fs [OF r assms(2)]
        volume_read_inode_fs [OF a(2) assms(2)] ok_or_def)
  have "\<exists>freed' vol2. (if hard_link_count ?i = 0 then release_inode fuel D k ?i freed
             else bindS (volume_write_inode rounds fuel D ?i) (\<lambda>_. retS freed)) vol1 = (Ok freed', vol2) \<and>
      represents D vol2 (unlink_spec p n k inode fs) \<and> vol_step vol1 vol2 \<and> funds D rounds (length freed' + u) vol2"
  proof (cases "is_regular_file inode")
    case True
    then have h: "hard_link_count ?i = 0" using kind by (simp add: saturating_sub_def)
    have f1: "funds D rounds (length freed + 195 * card (fs_extents (drop_entry p n fs) k) + unat (allocated_block_count ?i) + (66 + u)) vol1"
      by (rule funds_mono [OF a(4)]) (use a(5) in simp)
    have "runs_ok (drop_entry p n fs)" "fs_inodes (drop_entry p n fs) k \<noteq> None"
      using assms(3,6) by (simp_all add: runs_ok_def)
    from release_inode_fs [OF a(2) assms(2) this l(2) f1] h True show ?thesis
      by (simp add: unlink_spec_def)
  next
    case False
    then have h: "hard_link_count ?i = 1" using kind by (simp add: saturating_sub_def)
    have f1: "funds D rounds (65 + (length freed + u)) vol1"
      by (rule funds_mono [OF a(4)]) (use a(5) in simp)
    have e1: "?i = inode\<lparr>hard_link_count := 1\<rparr>" using h by (cases inode) simp
    have w: "wf_inode ?i" "1 \<le> inode_number ?i" using i by (simp_all add: wf_inode_def)
    obtain vol2 where c: "volume_write_inode rounds fuel D ?i vol1 = (Ok (), vol2)"
        "represents D vol2 (put_inode ?i (drop_entry p n fs))" "vol_step vol1 vol2" "funds D rounds (length freed + u) vol2"
      using write_inode_fs [OF a(2) f1 assms(2) w] by blast
    have "unlink_spec p n k inode fs = put_inode ?i (drop_entry p n fs)"
      unfolding e1 using False by (simp add: unlink_spec_def)
    with c h show ?thesis by (intro exI [of _ freed] exI [of _ vol2]) simp
  qed
  then obtain freed' vol2 where b: "(if hard_link_count ?i = 0 then release_inode fuel D k ?i freed
             else bindS (volume_write_inode rounds fuel D ?i) (\<lambda>_. retS freed)) vol1 = (Ok freed', vol2)"
      "represents D vol2 (unlink_spec p n k inode fs)" "vol_step vol1 vol2" "funds D rounds (length freed' + u) vol2"
    by blast
  obtain vol3 where c: "return_freed_cow_blocks_to_free_extent_tree rounds fuel D freed' vol2 = (Ok (), vol3)"
      "pool_step vol2 vol3" "funds D rounds u vol3"
    using return_freed_funds [OF b(4) assms(2)] by blast
  have s: "vol_step vol vol3" using vol_step_trans [OF vol_step_trans [OF a(3) b(3)] pool_step_vol [OF c(2)]] .
  have "volume_fs D vol3 (unlink_spec p n k inode fs)"
    using pool_step_represents [OF c(2) b(2)] fs_valid_unlink [OF v assms(4-6)] vol_step_simps(3) [OF s]
    by (simp add: volume_fs_def)
  moreover have "volume_unlink_directory_entry rounds fuel D p n vol = return_freed_cow_blocks_to_free_extent_tree rounds fuel D freed' vol2"
    unfolding run by (rule bindS_Ok) (rule b(1))
  ultimately show ?thesis using c(1,3) s by (intro exI [of _ vol3]) simp
qed

lemma volume_unlink_missing:
  assumes "represents D vol fs" "deep fuel" "fs_entries fs p n = None"
  shows "volume_unlink_directory_entry rounds fuel D p n vol = (Err NotFound, vol)"
  using assms(3) by (simp add: volume_unlink_directory_entry_def directory_lookup_fs [OF assms(1,2)] ok_or_def bindS_Err bindS_def)

text \<open>The files that stay keep their content.\<close>

lemma unlink_keeps_others:
  assumes "vol_step vol vol'" "ino \<noteq> k" "inode_number inode = k"
    and "file_holds D (device vol) (cow_of [] vol) fs ino bs"
  shows "file_holds D (device vol') (cow_of [] vol') (unlink_spec p n k inode fs) ino bs"
  using assms(2,3) vol_step_simps(1) [OF assms(1)]
  by (intro file_holds_frame [OF _ _ _ _ assms(4)])
    (simp_all add: kept_step vol_step_simps(7) [OF assms(1)] unlink_spec_def)

end
