(* ===== verification/Volume_Mount.thy ===== *)
theory Volume_Mount
  imports Volume_Unlink
begin

text \<open>
  Commit and mount of a whole volume: which file system a mount finds after a commit and after a commit
  that was interrupted, and that a commit, also one that fails, keeps the file system in memory.
\<close>

section \<open>The volume that a mount returns\<close>

definition mounted :: "'d \<Rightarrow> bafs_superblock \<Rightarrow> 'd bafs_volume" where
  "mounted d s = \<lparr>device = d, superblock = s, dirty_block_cache = [],
     next_transaction_id = last_committed_transaction_id s + 1, volume_next_free_block = next_cow_block_address s\<rparr>"

lemma mounted_simps [simp]:
  "device (mounted d s) = d" "superblock (mounted d s) = s" "dirty_block_cache (mounted d s) = []"
  "next_transaction_id (mounted d s) = last_committed_transaction_id s + 1"
  "volume_next_free_block (mounted d s) = next_cow_block_address s" "cow_of [] (mounted d s) = mounted_state s"
  by (simp_all add: mounted_def cow_of_def mounted_state_def)

lemma represents_kept:
  assumes "represents D vol fs" "kept D (device vol) (cow_of [] vol) (device vol') (cow_of [] vol')"
    and "inode_tree_root_block (superblock vol') = inode_tree_root_block (superblock vol)"
    and "checksum_tree_root_block (superblock vol') = checksum_tree_root_block (superblock vol)"
  shows "represents D vol' fs"
  using assms(1) kept_tree [OF assms(2)] unfolding represents_def trees_of_def inode_tree_def assms(3,4) by blast

text \<open>\<open>carries D vol vol' fs\<close>: \<open>vol'\<close> holds the file system \<open>fs\<close>, and every file as it is in \<open>vol\<close>.\<close>

definition carries :: "'d block_device \<Rightarrow> 'd bafs_volume \<Rightarrow> 'd bafs_volume \<Rightarrow> file_system \<Rightarrow> bool" where
  "carries D vol vol' fs \<longleftrightarrow> volume_fs D vol' fs \<and>
     (\<forall>ino bs. file_holds D (device vol) (cow_of [] vol) fs ino bs \<longrightarrow> file_holds D (device vol') (cow_of [] vol') fs ino bs)"

lemma carries_kept:
  assumes "volume_fs D vol fs" "kept D (device vol) (cow_of [] vol) (device vol') (cow_of [] vol')"
    and "same_roots ((superblock vol)\<lparr>next_cow_block_address := c\<rparr>) (superblock vol')"
  shows "carries D vol vol' fs"
proof -
  have r: "inode_tree_root_block (superblock vol') = inode_tree_root_block (superblock vol)"
      "checksum_tree_root_block (superblock vol') = checksum_tree_root_block (superblock vol)"
      "allocated_inode_count (superblock vol') = allocated_inode_count (superblock vol)"
    using assms(3) by (auto simp: same_roots_def)
  have "volume_fs D vol' fs"
    using assms(1) represents_kept [OF _ assms(2) r(1,2)] r(3) by (simp add: volume_fs_def)
  then show ?thesis
    using file_holds_frame [OF assms(2) refl refl refl] by (simp add: carries_def)
qed

text \<open>A device whose journal has nothing to replay.\<close>

definition clean :: "'d block_device \<Rightarrow> ('d \<Rightarrow> bytes) \<Rightarrow> 'd \<Rightarrow> bafs_superblock \<Rightarrow> bool" where
  "clean D img d sb \<longleftrightarrow> stable D img d sb \<and>
     parse_commit_record (journal_area (img d) sb) (last_committed_transaction_id sb) = None"

lemma durable_clean: "durable D img sb cache d d' \<Longrightarrow> clean D img d' sb"
  by (simp add: durable_def clean_def)

context block_store
begin

lemma mount_stable:
  assumes "valid d" "stable D image d sb"
  shows "\<exists>r d' s. bafs_mount D d = (r, d') \<and> valid d' \<and>
    (r = Err InputOutputError \<or> r = Panic \<or> r = Ok (mounted d' s) \<and> same_roots sb s \<and> stable D image d' s \<and>
       kept D d (mounted_state sb) d' (mounted_state s))"
proof -
  obtain r d' s where w: "recover_journal_on_mount D (d, sb) = (r, (d', s))" "valid d'" "intact D image sb d d'"
      "r = Err InputOutputError \<or> (\<exists>b. r = Ok b) \<and> same_roots sb s \<and> stable D image d' s"
    using recover_intact [OF assms] by blast
  have m: "read_mount_superblock D d = Ok sb"
    using assms(2) by (simp add: stable_def read_mount_superblock_def)
  from w(4) show ?thesis
  proof (elim disjE conjE exE)
    assume "r = Err InputOutputError"
    then show ?thesis using w(1,2) m by (simp add: bafs_mount_def)
  next
    fix b assume r: "r = Ok b" "same_roots sb s" "stable D image d' s"
    have k: "kept D d (mounted_state sb) d' (mounted_state s)"
      by (rule kept_intact [OF assms(1) w(2) assms(2) w(3) r(2)])
    show ?thesis
    proof (cases "unat (last_committed_transaction_id s) + 1 < 2 ^ 64")
      case True
      then have "bafs_mount D d = (Ok (mounted d' s), d')"
        using w(1) m r(1) by (simp add: bafs_mount_def add_u_def mounted_def)
      with w(2) r k show ?thesis by blast
    next
      case False
      then have "bafs_mount D d = (Panic, d')"
        using w(1) m r(1) by (simp add: bafs_mount_def add_u_def)
      with w(2) show ?thesis by blast
    qed
  qed
qed

text \<open>Without a record to replay the mount changes nothing.\<close>

lemma mount_clean:
  assumes "valid d" "clean D image d sb"
    and "unat (last_committed_transaction_id sb) + 1 < 2 ^ 64"
  shows "bafs_mount D d = (Ok (mounted d sb), d)"
proof -
  have "read_mount_superblock D d = Ok sb" "journal_layout (image d) sb"
      "parse_commit_record (journal_area (image d) sb) (last_committed_transaction_id sb) = None"
    using assms(2) by (simp_all add: clean_def stable_def read_mount_superblock_def)
  with recover_nothing [OF assms(1)] assms(3) show ?thesis
    by (simp add: bafs_mount_def add_u_def mounted_def)
qed

end

section \<open>Commit\<close>

text \<open>The superblock that \<open>flush_and_commit\<close> writes, up to the transaction id and the checksum.\<close>

definition commit_superblock :: "'d bafs_volume \<Rightarrow> bafs_superblock" where
  "commit_superblock vol = (superblock vol)\<lparr>next_cow_block_address := volume_next_free_block vol\<rparr>"

lemma flush_commit:
  assumes "unat (next_transaction_id vol) + 1 < 2 ^ 64"
    and "commit_transaction D \<lparr>transaction_id = next_transaction_id vol\<rparr> (dirty_block_cache vol) (device vol, commit_superblock vol) = (r, (d1, s))"
  shows "\<exists>vol1. flush_and_commit D vol = (r, vol1) \<and> device vol1 = d1 \<and> superblock vol1 = s \<and>
    volume_next_free_block vol1 = volume_next_free_block vol \<and>
    dirty_block_cache vol1 = (if r = Ok () then [] else dirty_block_cache vol) \<and>
    (r = Ok () \<longrightarrow> next_transaction_id vol1 = next_transaction_id vol + 1)"
  using assms
  by (cases r) (simp_all add: flush_and_commit_def begin_transaction_def on_disk_state_def commit_superblock_def
      bindS_def add_u_def)

context block_store
begin

lemma flush_then_recover:
  assumes "valid (device vol)" "stable D image (device vol) sb"
    and "transaction_ok (image (device vol)) sb (commit_superblock vol) (dirty_block_cache vol)"
    and "unat (next_transaction_id vol) + 1 < 2 ^ 64" "flush_and_commit D vol = (r, vol1)"
    and "recovery_attempts D (device vol1) d2" "bafs_mount D d2 = (Ok vol2, d3)"
    and "volume_fs D vol fs" "volume_fs D (mounted (device vol) sb) fs0"
  shows "r = Ok () \<and> carries D vol vol2 fs \<or> r = Err InputOutputError \<and> carries D (mounted (device vol) sb) vol2 fs0"
proof -
  obtain r' d1 s where c: "commit_transaction D \<lparr>transaction_id = next_transaction_id vol\<rparr> (dirty_block_cache vol)
      (device vol, commit_superblock vol) = (r', (d1, s))" by (metis prod.collapse)
  have f: "r' = r" "device vol1 = d1" using flush_commit [OF assms(4) c] assms(5) by auto
  have st: "\<lparr>dirty_cache = dirty_block_cache vol, next_free_block = next_cow_block_address (commit_superblock vol), freed_blocks = []\<rparr> = cow_of [] vol"
    by (simp add: cow_of_def commit_superblock_def)
  have a: "recovery_attempts D d1 d2" using assms(6) f(2) by simp
  obtain s2 where s2: "valid d2" "stable D image d2 s2" and
      k: "r = Ok () \<and> same_roots (commit_superblock vol) s2 \<and> kept D (device vol) (cow_of [] vol) d2 (mounted_state s2) \<or>
       r = Err InputOutputError \<and> same_roots sb s2 \<and> kept D (device vol) (mounted_state sb) d2 (mounted_state s2)"
    using commit_then_recover [OF assms(1-3) c a] unfolding st f(1) by (elim exE conjE)
  obtain s3 where m: "vol2 = mounted d3 s3" "same_roots s2 s3" "kept D d2 (mounted_state s2) d3 (mounted_state s3)"
    using mount_stable [OF s2] assms(7) by auto
  from k show ?thesis
  proof (elim disjE conjE)
    assume h: "r = Ok ()" "same_roots (commit_superblock vol) s2" "kept D (device vol) (cow_of [] vol) d2 (mounted_state s2)"
    have "carries D vol vol2 fs"
      using carries_kept [OF assms(8), of vol2 "volume_next_free_block vol"] kept_trans [OF h(3) m(3)] same_roots_trans [OF h(2) m(2)] m(1)
      by (simp add: commit_superblock_def)
    with h(1) show ?thesis by simp
  next
    assume h: "r = Err InputOutputError" "same_roots sb s2" "kept D (device vol) (mounted_state sb) d2 (mounted_state s2)"
    have "carries D (mounted (device vol) sb) vol2 fs0"
      using carries_kept [OF assms(9), of vol2 "next_cow_block_address sb"] kept_trans [OF h(3) m(3)] same_roots_trans [OF h(2) m(2)] m(1)
      by simp
    with h(1) show ?thesis by simp
  qed
qed

text \<open>After a successful commit the session goes on in the committed state.\<close>

lemma flush_continues:
  assumes "valid (device vol)" "stable D image (device vol) sb"
    and "transaction_fits (image (device vol)) sb (commit_superblock vol) (dirty_block_cache vol)"
    and "unat (next_transaction_id vol) + 1 < 2 ^ 64" "flush_and_commit D vol = (Ok (), vol1)"
    and "volume_fs D vol fs"
  shows "carries D vol vol1 fs" "vol1 = mounted (device vol1) (superblock vol1)" "valid (device vol1)"
    "durable D image (superblock vol1) (dirty_block_cache vol) (device vol) (device vol1)"
    "same_roots (commit_superblock vol) (superblock vol1)" "last_committed_transaction_id (superblock vol1) = next_transaction_id vol"
proof -
  obtain r d1 s where c: "commit_transaction D \<lparr>transaction_id = next_transaction_id vol\<rparr> (dirty_block_cache vol)
      (device vol, commit_superblock vol) = (r, (d1, s))" by (metis prod.collapse)
  have f: "r = Ok ()" "device vol1 = d1" "superblock vol1 = s" "dirty_block_cache vol1 = []"
      "volume_next_free_block vol1 = volume_next_free_block vol" "next_transaction_id vol1 = next_transaction_id vol + 1"
    using flush_commit [OF assms(4) c] assms(5) by auto
  have d: "valid d1" "s = seal_with_checksum ((commit_superblock vol)\<lparr>last_committed_transaction_id := next_transaction_id vol\<rparr>)"
      "durable D image s (dirty_block_cache vol) (device vol) d1"
    using commit_success [OF assms(1-3) c] f(1) by auto
  have n: "next_cow_block_address s = volume_next_free_block vol" "last_committed_transaction_id s = next_transaction_id vol"
    by (simp_all add: d(2) seal_with_checksum_def commit_superblock_def)
  have sr: "same_roots (commit_superblock vol) s" unfolding d(2) by (rule same_roots_seal)
  have m: "vol1 = mounted d1 s" using f n by (cases vol1) (simp add: mounted_def)
  have "kept D (device vol) (cow_of [] vol) d1 (mounted_state s)"
    using kept_durable [OF assms(1) d(1), of s "cow_of [] vol"] d(3) n(1) by (simp add: cow_of_def)
  then have k: "carries D vol vol1 fs"
    using carries_kept [OF assms(6), of vol1 "volume_next_free_block vol"] sr m by (simp add: commit_superblock_def)
  show "carries D vol vol1 fs" "vol1 = mounted (device vol1) (superblock vol1)" "valid (device vol1)"
    "durable D image (superblock vol1) (dirty_block_cache vol) (device vol) (device vol1)"
    "same_roots (commit_superblock vol) (superblock vol1)" "last_committed_transaction_id (superblock vol1) = next_transaction_id vol"
    using k m f(2,3) d(1,3) sr n(2) by simp_all
qed

end

section \<open>Commits that fail\<close>

text \<open>What the session needs for a commit: every dirty block and the bump pointer are inside the device,
  the journal lies before the data area, and there are fewer than \<open>2\<^sup>3\<^sup>2\<close> dirty blocks. The record may
  be too large for the journal, and any write may fail.\<close>

definition commit_ready :: "'d block_device \<Rightarrow> ('d \<Rightarrow> bool) \<Rightarrow> ('d \<Rightarrow> bytes) \<Rightarrow> 'd bafs_volume \<Rightarrow> bool" where
  "commit_ready D valid img vol \<longleftrightarrow> valid (device vol) \<and> unat (next_transaction_id vol) + 1 < 2 ^ 64 \<and>
     wf_superblock (commit_superblock vol) \<and> journal_layout (img (device vol)) (commit_superblock vol) \<and>
     unat (journal_start_block (superblock vol)) + unat (journal_size_in_blocks (superblock vol)) \<le> data_area D (device vol) \<and>
     cache_ok (dirty_block_cache vol) \<and> blocks_fit (img (device vol)) (dirty_block_cache vol) \<and>
     length (dirty_block_cache vol) < 2 ^ 32"

context block_store
begin

lemma commit_frame:
  fixes vol :: "'d bafs_volume"
  defines "e \<equiv> unat (journal_start_block (superblock vol)) + unat (journal_size_in_blocks (superblock vol))"
  assumes "commit_ready D valid image vol"
    and "commit_transaction D \<lparr>transaction_id = txid\<rparr> (dirty_block_cache vol) (device vol, commit_superblock vol) = (r, (d1, s))"
  shows "valid d1 \<and> total_sector_count D d1 = total_sector_count D (device vol) \<and> length (image d1) = length (image (device vol)) \<and>
    (\<forall>a. e \<le> unat a \<and> map_of (dirty_block_cache vol) a = None \<longrightarrow> image_block (image d1) a = image_block (image (device vol)) a) \<and>
    (\<forall>a b. e \<le> unat a \<and> map_of (dirty_block_cache vol) a = Some b \<and> r = Ok () \<longrightarrow> image_block (image d1) a = b)"
proof -
  let ?c = "dirty_block_cache vol" and ?d = "device vol" and ?s = "commit_superblock vol"
  have v: "valid ?d" "wf_superblock ?s" "journal_layout (image ?d) ?s" "cache_ok ?c" "blocks_fit (image ?d) ?c" "length ?c < 2 ^ 32"
    using assms(2) by (simp_all add: commit_ready_def)
  have e: "e = unat (journal_start_block ?s) + unat (journal_size_in_blocks ?s)" "3 \<le> e"
    using v(3) by (auto simp: e_def commit_superblock_def journal_layout_def)
  have l: "\<forall>x\<in>set ?c. length (snd x) = 4096" using v(5) by (simp add: blocks_fit_def)
  consider (empty) "?c = []" | (large) "?c \<noteq> []" "4096 * unat (journal_size_in_blocks ?s) < 28 + 4104 * length ?c"
    | (fits) "commitable (image ?d) ?c ?s"
    using v(5,6) by (fastforce simp: commitable_def)
  then show ?thesis
  proof cases
    case empty
    let ?s1 = "?s\<lparr>last_committed_transaction_id := txid\<rparr>"
    have "wf_superblock ?s1" using v(2) by (simp add: wf_superblock_def)
    then obtain r' where w: "commit_transaction D \<lparr>transaction_id = txid\<rparr> ?c (?d, ?s) = (r', (d1, s))" "valid d1"
        "total_sector_count D d1 = total_sector_count D ?d" "written image ?d (superblock_writes ?s1) r' d1"
      using write_superblock_written [OF v(1) journal_layout_blocks(1,2) [OF v(3)], of ?s1] assms(3) empty
      by (auto simp: commit_transaction_def set_last_committed_def superblock_writes_def Let_def)
    have fit: "blocks_fit (image ?d) (superblock_writes ?s1)"
      using journal_layout_blocks(1,2) [OF v(3)] \<open>wf_superblock ?s1\<close> by (simp add: superblock_writes_def Let_def)
    have "a \<notin> fst ` set (superblock_writes ?s1)" if "e \<le> unat a" for a
      using that e(2) unfolding superblock_writes_addresses by auto
    then show ?thesis using w(2,3) written_frame [OF w(4) fit] empty by simp
  next
    case large
    have "unat (journal_size_in_blocks ?s) \<le> 16384" using v(3) by (simp add: journal_layout_def)
    from commit_too_large [OF large(1) v(6) l this large(2), of D "\<lparr>transaction_id = txid\<rparr>" ?d] assms(3)
    have "d1 = ?d" "r = Err OutOfSpace" by simp_all
    with v(1) show ?thesis by simp
  next
    case fits
    have w: "valid d1" "total_sector_count D d1 = total_sector_count D ?d" "written image ?d (commit_writes txid ?c ?s) r d1"
      using commit_written [OF v(1) fits v(3,2), of txid] assms(3) by auto
    note fit = commit_writes_fit [OF fits v(3,2), of txid]
    have "a \<notin> fst ` set (commit_writes txid ?c ?s)" if "e \<le> unat a" "map_of ?c a = None" for a
    proof -
      have "a \<notin> fst ` set (record_chunks txid ?c ?s)"
        using record_chunks_addresses [OF fits v(3)] that(1) e(1) by fastforce
      moreover have "a \<notin> fst ` set (superblock_writes (?s\<lparr>last_committed_transaction_id := txid\<rparr>))"
        using that(1) e(2) unfolding superblock_writes_addresses by auto
      ultimately show ?thesis
        using that(2) unfolding commit_writes_def map_of_eq_None_iff by auto
    qed
    moreover have "image d1 = blocks_after (image ?d) (commit_writes txid ?c ?s)" if "r = Ok ()"
      using w(3) that by (auto simp: written_def)
    ultimately show ?thesis
      using w(1,2) written_frame [OF w(3) fit] commit_blocks [OF fits v(3,2,4), of _ txid] e(1) by simp
  qed
qed

lemma flush_keeps:
  assumes "commit_ready D valid image vol" "flush_and_commit D vol = (r, vol1)" "volume_fs D vol fs"
  shows "carries D vol vol1 fs"
proof -
  obtain r' d1 s where c: "commit_transaction D \<lparr>transaction_id = next_transaction_id vol\<rparr> (dirty_block_cache vol)
      (device vol, commit_superblock vol) = (r', (d1, s))" by (metis prod.collapse)
  have R: "valid (device vol)" "unat (next_transaction_id vol) + 1 < 2 ^ 64" "journal_layout (image (device vol)) (commit_superblock vol)"
      "unat (journal_start_block (superblock vol)) + unat (journal_size_in_blocks (superblock vol)) \<le> data_area D (device vol)"
    using assms(1) by (simp_all add: commit_ready_def)
  have f: "r' = r" "device vol1 = d1" "superblock vol1 = s" "volume_next_free_block vol1 = volume_next_free_block vol"
      "dirty_block_cache vol1 = (if r = Ok () then [] else dirty_block_cache vol)"
    using flush_commit [OF R(2) c] assms(2) by auto
  note w = commit_frame [OF assms(1) c]
  have i: "valid d1" "data_area D d1 = data_area D (device vol)"
    using w by (simp_all add: data_area_def)
  have "read_block D d1 (dirty_block_cache vol1) a = read_block D (device vol) (dirty_block_cache vol) a"
    if a: "data_area D (device vol) \<le> unat a" "unat a < unat (volume_next_free_block vol)" for a
  proof -
    have "block_in_image (image (device vol)) a" "block_in_image (image d1) a"
      using R(3) a(2) w by (auto simp: journal_layout_def block_in_image_def commit_superblock_def)
    then have "read_device_block D (device vol) a = Ok (image_block (image (device vol)) a)" "read_device_block D d1 a = Ok (image_block (image d1) a)"
      using read_device_block_image R(1) i(1) by blast+
    then show ?thesis
      using w R(4) a(1) unfolding f(1,5) by (simp add: read_block_def split: option.split)
  qed
  then have "kept D (device vol) (cow_of [] vol) (device vol1) (cow_of [] vol1)"
    using i f(2,4) by (simp add: kept_def cow_of_def)
  from carries_kept [OF assms(3) this, of "volume_next_free_block vol"] show ?thesis
    using commit_same_roots [OF c] f(3) by (simp add: commit_superblock_def)
qed

end

section \<open>A volume with uncommitted work\<close>

text \<open>\<open>pending D img sb vol\<close>: the operations on \<open>vol\<close> since the commit of \<open>sb\<close>, the last one on the device,
  have changed neither the device nor the place of the journal, and their dirty blocks lie between the
  bump pointer of that commit and the present one, inside the device.\<close>

definition pending :: "'d block_device \<Rightarrow> ('d \<Rightarrow> bytes) \<Rightarrow> bafs_superblock \<Rightarrow> 'd bafs_volume \<Rightarrow> bool" where
  "pending D img sb vol \<longleftrightarrow> clean D img (device vol) sb \<and> acceptable_superblock (superblock vol) \<and>
     journal_start_block (superblock vol) = journal_start_block sb \<and>
     journal_size_in_blocks (superblock vol) = journal_size_in_blocks sb \<and>
     unat (next_cow_block_address sb) \<le> unat (volume_next_free_block vol) \<and>
     4096 * unat (volume_next_free_block vol) \<le> length (img (device vol)) \<and>
     cache_ok (dirty_block_cache vol) \<and> length (dirty_block_cache vol) < 2 ^ 32 \<and>
     (\<forall>e\<in>set (dirty_block_cache vol). unat (next_cow_block_address sb) \<le> unat (fst e) \<and>
        unat (fst e) < unat (volume_next_free_block vol)) \<and>
     unat (last_committed_transaction_id sb) \<le> unat (next_transaction_id vol) \<and> unat (next_transaction_id vol) + 1 < 2 ^ 64"

lemma pending_fits:
  assumes "pending D img sb vol"
  shows "blocks_fit (img (device vol)) (dirty_block_cache vol)" "acceptable_superblock (commit_superblock vol)"
    "stable D img (device vol) sb"
    "dirty_block_cache vol \<noteq> [] \<Longrightarrow> 28 + 4104 * length (dirty_block_cache vol) \<le> 4096 * unat (journal_size_in_blocks sb) \<Longrightarrow>
      transaction_fits (img (device vol)) sb (commit_superblock vol) (dirty_block_cache vol)"
proof -
  show fit: "blocks_fit (img (device vol)) (dirty_block_cache vol)"
    using assms by (fastforce simp: pending_def blocks_fit_def block_in_image_def cache_ok_def)
  show acc: "acceptable_superblock (commit_superblock vol)"
    using assms by (simp add: pending_def commit_superblock_def acceptable_superblock_def wf_superblock_def)
  show "stable D img (device vol) sb" using assms by (simp add: pending_def clean_def)
  show "dirty_block_cache vol \<noteq> [] \<Longrightarrow> 28 + 4104 * length (dirty_block_cache vol) \<le> 4096 * unat (journal_size_in_blocks sb) \<Longrightarrow>
      transaction_fits (img (device vol)) sb (commit_superblock vol) (dirty_block_cache vol)"
    using assms fit acc by (simp add: pending_def transaction_fits_def commitable_def) (simp add: commit_superblock_def)
qed

lemma pending_ready:
  assumes "valid (device vol)" "pending D img sb vol"
  shows "commit_ready D valid img vol"
proof -
  have "journal_layout (img (device vol)) sb"
      "unat (journal_start_block sb) + unat (journal_size_in_blocks sb) \<le> data_area D (device vol)"
    using pending_fits(3) [OF assms(2)] by (simp_all add: stable_def)
  then show ?thesis
    using assms pending_fits(1,2) [OF assms(2)]
    by (simp add: commit_ready_def pending_def journal_layout_def acceptable_superblock_def) (simp add: commit_superblock_def)
qed

lemma op_step_cache:
  assumes "op_step (mounted d sb) vol"
  shows "unat (next_cow_block_address sb) \<le> unat (volume_next_free_block vol)" "cache_ok (dirty_block_cache vol)"
    "\<forall>e\<in>set (dirty_block_cache vol). unat (next_cow_block_address sb) \<le> unat (fst e) \<and> unat (fst e) < unat (volume_next_free_block vol)"
proof -
  obtain c where c: "vol_step ((mounted d sb)\<lparr>superblock := sb\<lparr>allocated_inode_count := c\<rparr>\<rparr>) vol"
    using assms by (auto simp: op_step_def)
  have w: "unat (next_cow_block_address sb) \<le> unat (volume_next_free_block vol)" "cache_ok (dirty_block_cache vol)"
      "\<And>a. unat a < unat (next_cow_block_address sb) \<or> unat (volume_next_free_block vol) \<le> unat a \<Longrightarrow>
        map_of (dirty_block_cache vol) a = None"
    using vol_step_simps(7) [OF c] by (auto simp: cow_step_def cow_of_def cache_ok_def)
  have "unat (next_cow_block_address sb) \<le> unat (fst e) \<and> unat (fst e) < unat (volume_next_free_block vol)"
    if e: "e \<in> set (dirty_block_cache vol)" for e
  proof -
    have "map_of (dirty_block_cache vol) (fst e) \<noteq> None" using e by (metis imageI map_of_eq_None_iff)
    then show ?thesis using w(3) [of "fst e"] by linarith
  qed
  with w(1,2) show "unat (next_cow_block_address sb) \<le> unat (volume_next_free_block vol)" "cache_ok (dirty_block_cache vol)"
    "\<forall>e\<in>set (dirty_block_cache vol). unat (next_cow_block_address sb) \<le> unat (fst e) \<and> unat (fst e) < unat (volume_next_free_block vol)"
    by blast+
qed

section \<open>Reliable devices\<close>

context reliable_store
begin

lemma write_blocks_image:
  assumes "valid d" "blocks_fit (image d) bs"
  shows "\<exists>d'. write_blocks D bs d = (Ok (), d') \<and> valid d' \<and> total_sector_count D d' = total_sector_count D d \<and>
    image d' = blocks_after (image d) bs"
  using write_blocks_done [OF assms] write_blocks_written [OF assms] by (auto simp: written_def)

lemma commit_done:
  assumes "valid d" "commitable (image d) cache sb" "journal_layout (image d) sb" "wf_superblock sb"
  shows "\<exists>d' s. commit_transaction D \<lparr>transaction_id = txid\<rparr> cache (d, sb) = (Ok (), (d', s))"
proof -
  obtain rcd where rcd: "build_commit_record txid cache = Ok rcd"
    by (rule commitable_record [OF assms(2)])
  have ne: "cache \<noteq> []" and fit: "blocks_fit (image d) cache" using assms(2) by (simp_all add: commitable_def)
  let ?R = "record_chunks txid cache sb"
  have fitR: "blocks_fit (image d) ?R" by (rule record_chunks_fit [OF assms(2,3)])
  obtain d1 where j: "write_bytes_to_journal D sb rcd d = (Ok (), d1)" "valid d1" "image d1 = blocks_after (image d) ?R"
    using write_blocks_image [OF assms(1) fitR] write_record_blocks [OF assms(2,3) rcd, of D d] by auto
  have "blocks_fit (image d1) cache" using fit fitR j(3) by (simp add: blocks_fit_after)
  then obtain d2 where w: "write_blocks D cache d1 = (Ok (), d2)" "valid d2" "image d2 = blocks_after (image d1) cache"
    using write_blocks_image [OF j(2)] by blast
  have "block_in_image (image d2) a = block_in_image (image d) a" for a
    using \<open>blocks_fit (image d1) cache\<close> fitR j(3) w(3) by (simp add: block_in_blocks_after)
  then obtain d3 where "write_superblock_to_device D (d2, sb\<lparr>last_committed_transaction_id := txid\<rparr>)
      = (Ok (), (d3, seal_with_checksum (sb\<lparr>last_committed_transaction_id := txid\<rparr>)))"
    using write_superblock_done [OF w(2), of "sb\<lparr>last_committed_transaction_id := txid\<rparr>"] journal_layout_blocks(1,2) [OF assms(3)] assms(4)
    by (auto simp: wf_superblock_def)
  with j(1) w(1) ne rcd show ?thesis
    by (simp add: commit_transaction_def on_device_eq set_last_committed_def)
qed

lemma flush_and_mount:
  assumes "valid (device vol)" "stable D image (device vol) sb"
    and "transaction_fits (image (device vol)) sb (commit_superblock vol) (dirty_block_cache vol)"
    and "unat (next_transaction_id vol) + 1 < 2 ^ 64" "volume_fs D vol fs"
  shows "\<exists>vol1. flush_and_commit D vol = (Ok (), vol1) \<and> bafs_mount D (device vol1) = (Ok vol1, device vol1) \<and>
    carries D vol vol1 fs \<and> valid (device vol1) \<and> clean D image (device vol1) (superblock vol1) \<and>
    vol1 = mounted (device vol1) (superblock vol1) \<and> same_roots (commit_superblock vol) (superblock vol1) \<and>
    total_sector_count D (device vol1) = total_sector_count D (device vol) \<and>
    last_committed_transaction_id (superblock vol1) = next_transaction_id vol"
proof -
  have L: "journal_layout (image (device vol)) (commit_superblock vol)"
    using transaction_layout [OF assms(3)] assms(2) by (simp add: stable_def)
  have c: "commitable (image (device vol)) (dirty_block_cache vol) (commit_superblock vol)" "wf_superblock (commit_superblock vol)"
    using assms(3) by (simp_all add: transaction_fits_def acceptable_superblock_def)
  obtain d1 s where "commit_transaction D \<lparr>transaction_id = next_transaction_id vol\<rparr> (dirty_block_cache vol)
      (device vol, commit_superblock vol) = (Ok (), (d1, s))"
    using commit_done [OF assms(1) c(1) L c(2)] by blast
  then obtain vol1 where f: "flush_and_commit D vol = (Ok (), vol1)"
    using flush_commit [OF assms(4)] by blast
  note r = flush_continues [OF assms(1-4) f assms(5)]
  have "bafs_mount D (device vol1) = (Ok (mounted (device vol1) (superblock vol1)), device vol1)"
    using assms(4) by (intro mount_clean [OF r(3) durable_clean [OF r(4)]]) (simp add: r(6))
  then show ?thesis
    using f r(1,3,5,6) durable_clean [OF r(4)] r(4) by (intro exI [of _ vol1]) (simp add: r(2) [symmetric] durable_def)
qed

text \<open>A commit without dirty blocks only writes the superblocks, with the next transaction id.\<close>

lemma superblock_durable:
  assumes "valid d" "clean D image d sb" "acceptable_superblock s" "wf_superblock s"
    and "journal_start_block s = journal_start_block sb" "journal_size_in_blocks s = journal_size_in_blocks sb"
    and "unat (next_cow_block_address sb) \<le> unat (next_cow_block_address s)" "4096 * unat (next_cow_block_address s) \<le> length (image d)"
    and "unat (last_committed_transaction_id sb) \<le> unat (last_committed_transaction_id s)"
  shows "\<exists>d1. write_superblock_to_device D (d, s) = (Ok (), (d1, seal_with_checksum s)) \<and> valid d1 \<and>
    durable D image (seal_with_checksum s) [] d d1"
proof -
  have st: "stable D image d sb" and L: "journal_layout (image d) sb"
    and p: "parse_commit_record (journal_area (image d) sb) (last_committed_transaction_id sb) = None"
    using assms(2) by (simp_all add: clean_def stable_def)
  obtain d1 where d1: "write_superblock_to_device D (d, s) = (Ok (), (d1, seal_with_checksum s))" "valid d1"
      "total_sector_count D d1 = total_sector_count D d" "image d1 = blocks_after (image d) (superblock_writes s)"
    using write_superblock_done [OF assms(1) journal_layout_blocks(1,2) [OF L] assms(4)] by blast
  have fit: "blocks_fit (image d) ([] @ superblock_writes s)"
    using journal_layout_blocks(1,2) [OF L] assms(4) by (auto simp: blocks_fit_def superblock_writes_def Let_def)
  have other: "image_block (image d1) a = image_block (image d) a" if "3 \<le> unat a" for a
    using that fit unfolding d1(4) by (intro image_blocks_other) (auto simp: superblock_writes_def Let_def)
  have len: "length (image d1) = length (image d)" unfolding d1(4) using fit by (simp add: length_blocks_after)
  have j3: "3 \<le> unat (journal_start_block sb)" using L by (simp add: journal_layout_def)
  have "journal_area (image d1) (seal_with_checksum s) = journal_area (image d) sb"
    using other j3 assms(5,6) by (intro journal_area_cong [OF L]) (simp_all add: seal_with_checksum_def)
  moreover have "parse_commit_record (journal_area (image d) sb) (last_committed_transaction_id s) = None"
    using p assms(9) by (auto simp: parse_commit_record_def Let_def word_le_nat_alt split: if_splits)
  ultimately have p1: "parse_commit_record (journal_area (image d1) (seal_with_checksum s))
      (last_committed_transaction_id (seal_with_checksum s)) = None" by (simp add: seal_with_checksum_def)
  have "journal_layout (image d1) (seal_with_checksum s)"
    using L len assms(5-8) by (simp add: journal_layout_def) (simp add: seal_with_checksum_def)
  then have "durable D image (seal_with_checksum s) [] d d1"
    using superblock_written_read [OF d1(2) assms(3) fit] d1(3,4) len p1 st other j3 assms(5,6) unfolding durable_def stable_def
    by (simp add: BAFS_PRIMARY_SUPERBLOCK_BLOCK_ADDRESS_def BAFS_BACKUP_SUPERBLOCK_BLOCK_ADDRESS_def journal_safe_def data_area_def)
      (simp add: seal_with_checksum_def)
  then show ?thesis using d1(1,2) by blast
qed

lemma flush_empty:
  assumes "valid (device vol)" "clean D image (device vol) sb" "dirty_block_cache vol = []" "acceptable_superblock (superblock vol)"
    and "journal_start_block (superblock vol) = journal_start_block sb" "journal_size_in_blocks (superblock vol) = journal_size_in_blocks sb"
    and "unat (next_cow_block_address sb) \<le> unat (volume_next_free_block vol)" "4096 * unat (volume_next_free_block vol) \<le> length (image (device vol))"
    and "unat (last_committed_transaction_id sb) \<le> unat (next_transaction_id vol)" "unat (next_transaction_id vol) + 1 < 2 ^ 64"
    and "volume_fs D vol fs"
  shows "\<exists>vol1. flush_and_commit D vol = (Ok (), vol1) \<and> bafs_mount D (device vol1) = (Ok vol1, device vol1) \<and>
    carries D vol vol1 fs \<and> valid (device vol1) \<and> clean D image (device vol1) (superblock vol1) \<and>
    vol1 = mounted (device vol1) (superblock vol1) \<and> same_roots (commit_superblock vol) (superblock vol1) \<and>
    last_committed_transaction_id (superblock vol1) = next_transaction_id vol"
proof -
  let ?s = "(commit_superblock vol)\<lparr>last_committed_transaction_id := next_transaction_id vol\<rparr>"
  have acc: "acceptable_superblock ?s" "wf_superblock ?s"
    using assms(4) by (simp_all add: acceptable_superblock_def wf_superblock_def commit_superblock_def)
  obtain d1 where d1: "write_superblock_to_device D (device vol, ?s) = (Ok (), (d1, seal_with_checksum ?s))" "valid d1"
      "durable D image (seal_with_checksum ?s) [] (device vol) d1"
    using superblock_durable [OF assms(1,2) acc] assms(5-9) by (auto simp: commit_superblock_def)
  have "commit_transaction D \<lparr>transaction_id = next_transaction_id vol\<rparr> (dirty_block_cache vol) (device vol, commit_superblock vol)
      = (Ok (), (d1, seal_with_checksum ?s))"
    using d1(1) assms(3) by (simp add: commit_transaction_def set_last_committed_def)
  then obtain vol1 where f: "flush_and_commit D vol = (Ok (), vol1)" "device vol1 = d1" "superblock vol1 = seal_with_checksum ?s"
      "dirty_block_cache vol1 = []" "volume_next_free_block vol1 = volume_next_free_block vol" "next_transaction_id vol1 = next_transaction_id vol + 1"
    using flush_commit [OF assms(10), of D "Ok ()" d1 "seal_with_checksum ?s"] by auto
  have n: "next_cow_block_address (seal_with_checksum ?s) = volume_next_free_block vol"
      "last_committed_transaction_id (seal_with_checksum ?s) = next_transaction_id vol"
    by (simp_all add: seal_with_checksum_def commit_superblock_def)
  have v: "vol1 = mounted d1 (seal_with_checksum ?s)" using f n by (cases vol1) (simp add: mounted_def)
  have sr: "same_roots (commit_superblock vol) (seal_with_checksum ?s)" by (rule same_roots_seal)
  have "kept D (device vol) (cow_of [] vol) d1 (mounted_state (seal_with_checksum ?s))"
    using kept_durable [OF assms(1) d1(2), of "seal_with_checksum ?s" "cow_of [] vol"] d1(3) assms(3) n(1) by (simp add: cow_of_def)
  then have c: "carries D vol vol1 fs"
    using carries_kept [OF assms(11), of vol1 "volume_next_free_block vol"] sr v by (simp add: commit_superblock_def)
  have "bafs_mount D d1 = (Ok vol1, d1)"
    unfolding v by (rule mount_clean [OF d1(2) durable_clean [OF d1(3)]]) (use assms(10) n(2) in simp)
  then show ?thesis
    using f(1-3) c d1(2) durable_clean [OF d1(3)] sr n(2) v by (intro exI [of _ vol1]) simp
qed

lemma clean_acceptable:
  assumes "valid d" "clean D image d sb"
  shows "acceptable_superblock sb"
proof -
  have L: "journal_layout (image d) sb" "stable D image d sb" using assms(2) by (simp_all add: clean_def stable_def)
  then show ?thesis
    using journal_layout_blocks(1) [OF L(1)] by (intro read_superblock_acceptable [OF assms(1), of 1])
      (simp_all add: stable_def BAFS_PRIMARY_SUPERBLOCK_BLOCK_ADDRESS_def)
qed

text \<open>What the operations do to a mounted volume is uncommitted work.\<close>

lemma op_step_pending:
  assumes "valid d" "clean D image d sb" "op_step (mounted d sb) vol" "unat (last_committed_transaction_id sb) + 2 < 2 ^ 64"
    and "4096 * unat (volume_next_free_block vol) \<le> length (image d)" "length (dirty_block_cache vol) < 2 ^ 32"
  shows "pending D image sb vol" "device vol = d" "root_inode_number (superblock vol) = root_inode_number sb"
    "next_transaction_id vol = last_committed_transaction_id sb + 1"
proof -
  obtain c where c: "vol_step ((mounted d sb)\<lparr>superblock := sb\<lparr>allocated_inode_count := c\<rparr>\<rparr>) vol"
    using assms(3) by (auto simp: op_step_def)
  then obtain i f k n where s: "superblock vol = sb\<lparr>allocated_inode_count := c, inode_tree_root_block := i,
      free_extent_tree_root_block := f, checksum_tree_root_block := k, free_block_count := n\<rparr>"
    by (auto simp: vol_step_def)
  have d: "device vol = d" "next_transaction_id vol = last_committed_transaction_id sb + 1"
    using vol_step_simps(1,2) [OF c] by simp_all
  have t: "unat (next_transaction_id vol) = unat (last_committed_transaction_id sb) + 1"
    using assms(4) d(2) by (simp add: unat_plus_1)
  have "acceptable_superblock (superblock vol)"
    using clean_acceptable [OF assms(1,2)] by (simp add: s acceptable_superblock_def wf_superblock_def)
  then show "pending D image sb vol"
    using assms(2,4-6) d t op_step_cache [OF assms(3)] by (simp add: pending_def s)
  show "device vol = d" "root_inode_number (superblock vol) = root_inode_number sb"
      "next_transaction_id vol = last_committed_transaction_id sb + 1"
    using d by (simp_all add: s)
qed

lemma flush_idle:
  assumes "valid d" "clean D image d sb" "unat (last_committed_transaction_id sb) + 2 < 2 ^ 64" "volume_fs D (mounted d sb) fs"
  shows "\<exists>vol1. flush_and_commit D (mounted d sb) = (Ok (), vol1) \<and> bafs_mount D (device vol1) = (Ok vol1, device vol1) \<and>
    carries D (mounted d sb) vol1 fs"
proof -
  have L: "journal_layout (image d) sb" using assms(2) by (simp add: clean_def stable_def)
  have "acceptable_superblock sb" by (rule clean_acceptable [OF assms(1,2)])
  moreover have "unat (last_committed_transaction_id sb + 1) = unat (last_committed_transaction_id sb) + 1"
    using assms(3) by (simp add: unat_plus_1)
  moreover have "4096 * unat (next_cow_block_address sb) \<le> length (image d)" using L by (simp add: journal_layout_def)
  ultimately show ?thesis
    using flush_empty [of "mounted d sb" sb fs] assms by auto
qed

lemma pending_flush:
  assumes "valid (device vol)" "pending D image sb vol" "volume_fs D vol fs"
    and "28 + 4104 * length (dirty_block_cache vol) \<le> 4096 * unat (journal_size_in_blocks sb)"
  shows "\<exists>vol1. flush_and_commit D vol = (Ok (), vol1) \<and> bafs_mount D (device vol1) = (Ok vol1, device vol1) \<and>
    carries D vol vol1 fs \<and> valid (device vol1) \<and> clean D image (device vol1) (superblock vol1) \<and>
    vol1 = mounted (device vol1) (superblock vol1) \<and> same_roots (commit_superblock vol) (superblock vol1) \<and>
    last_committed_transaction_id (superblock vol1) = next_transaction_id vol"
proof (cases "dirty_block_cache vol = []")
  case True
  from assms(2) show ?thesis
    by (intro flush_empty [where sb = sb, OF assms(1) _ True _ _ _ _ _ _ _ assms(3)]) (simp_all add: pending_def)
next
  case False
  note p = pending_fits(3) [OF assms(2)] pending_fits(4) [OF assms(2) False assms(4)]
  have "unat (next_transaction_id vol) + 1 < 2 ^ 64" using assms(2) by (simp add: pending_def)
  from flush_and_mount [OF assms(1) p this assms(3)] show ?thesis by blast
qed

lemma pending_too_large:
  assumes "valid (device vol)" "pending D image sb vol" "volume_fs D vol fs"
    and "4096 * unat (journal_size_in_blocks sb) < 28 + 4104 * length (dirty_block_cache vol)"
  shows "\<exists>vol1. flush_and_commit D vol = (Err OutOfSpace, vol1) \<and> device vol1 = device vol \<and>
    dirty_block_cache vol1 = dirty_block_cache vol \<and> carries D vol vol1 fs"
proof -
  let ?s = "commit_superblock vol" and ?t = "\<lparr>transaction_id = next_transaction_id vol\<rparr>"
  have R: "commit_ready D valid image vol" by (rule pending_ready [where valid = valid, OF assms(1,2)])
  have j: "journal_size_in_blocks ?s = journal_size_in_blocks sb"
    using assms(2) by (simp add: pending_def commit_superblock_def)
  have b: "1 \<le> unat (journal_size_in_blocks sb)" "unat (journal_size_in_blocks ?s) \<le> 16384"
    using R j by (simp_all add: commit_ready_def journal_layout_def)
  have c: "dirty_block_cache vol \<noteq> []" using b(1) assms(4) by auto
  have l: "length (dirty_block_cache vol) < 2 ^ 32" "\<forall>e\<in>set (dirty_block_cache vol). length (snd e) = 4096"
    using R by (simp_all add: commit_ready_def blocks_fit_def)
  have "commit_transaction D ?t (dirty_block_cache vol) (device vol, ?s) = (Err OutOfSpace, (device vol, ?s))"
    using commit_too_large [OF c l b(2)] assms(4) j by simp
  then obtain vol1 where v: "flush_and_commit D vol = (Err OutOfSpace, vol1)" "device vol1 = device vol"
      "dirty_block_cache vol1 = dirty_block_cache vol"
    using flush_commit [of vol D "Err OutOfSpace"] R by (auto simp: commit_ready_def)
  then show ?thesis using flush_keeps [OF R v(1) assms(3)] by blast
qed

end

end
