(* ===== verification/Volume_Format.thy ===== *)
theory Volume_Format
  imports Volume_Mount
begin

text \<open>
  Formatting: the trees that \<open>bafs_format\<close> builds, the image it leaves on a device that takes all writes,
  and the volume that a mount finds there.
\<close>

section \<open>Trees of one leaf\<close>

abbreviation leaf_ok :: "(bafs_key \<Rightarrow> bool) \<Rightarrow> bafs_key option \<Rightarrow> 'd block_device \<Rightarrow> 'd \<Rightarrow> cow_state \<Rightarrow> u64
    \<Rightarrow> bafs_leaf_item list \<Rightarrow> bool" where
  "leaf_ok Q lo D dev st a its \<equiv> tree_ok Q lo D dev st 0 (BLeaf a its)"

lemma clone_leaf_ok:
  assumes "leaf_node n its" "bt_inv Q 0 lo None (BLeaf a its)" "unat (next_free_block st) + 1 < 2 ^ 64"
  shows "\<exists>st'. write_cow_clone n g a st = (Ok (next_free_block st), st') \<and> cow_step st st' \<and>
    next_free_block st' = next_free_block st + 1 \<and> leaf_ok Q lo D dev st' (next_free_block st) its"
proof -
  have "node_fits n" using assms(1,2) by (intro leaf_node_fits) auto
  from this assms(3) obtain st' n' where w: "write_cow_clone n g a st = (Ok (next_free_block st), st')" "cow_step st st'"
    "unat (next_free_block st') = unat (next_free_block st) + 1"
    "freed_blocks st' = freed_blocks st @ [a]"
    "rd D dev st' (next_free_block st) = Ok n'" "same_content n' n"
    by (rule write_cow_clone_spec)
  have "unat (next_free_block st + 1) = unat (next_free_block st) + 1" using assms(3) by (simp add: unat_plus_1)
  with w(3) have "next_free_block st' = next_free_block st + 1" by (simp add: word_unat_eq_iff)
  moreover have "leaf_ok Q lo D dev st' (next_free_block st) its"
    using w(3,5) same_content_nodes(1) [OF w(6)] assms(1,2) by (simp add: tree_ok_def below_def)
  ultimately show ?thesis using w(1,2) by blast
qed

lemma leaf_put:
  assumes "leaf_ok Q lo D dev st a its" "lo_le lo k" "Q k" "small_value v" "0 < fuel"
    and "leaf_serialised_size (upd_items k v its) \<le> 4096" "unat (next_free_block st) + 1 < 2 ^ 64"
  shows "\<exists>st'. insert_into_tree fuel D dev a k v g st = (Ok (next_free_block st), st') \<and> cow_step st st' \<and>
    next_free_block st' = next_free_block st + 1 \<and> leaf_ok Q lo D dev st' (next_free_block st) (upd_items k v its)"
proof -
  obtain f n where f: "fuel = Suc f" and n: "rd D dev st a = Ok n" "leaf_node n its"
    using assms(1,5) by (cases fuel) (auto simp: tree_ok_def)
  have inv: "sorted_items its" "leaf_serialised_size its \<le> 4096"
      "\<forall>i\<in>set its. Q (item_key i) \<and> small_value (item_value i) \<and> lo_le lo (item_key i)"
    using assms(1) by (auto simp: tree_ok_def)
  have "length its < 65535" using size_length [of its] inv(2) by linarith
  then obtain n' where n': "insert_into_leaf n k v = Ok n'" "leaf_node n' (upd_items k v its)"
    using insert_into_leaf_spec [OF n(2) inv(1)] by blast
  have ok: "\<forall>i\<in>set (upd_items k v its). Q (item_key i) \<and> small_value (item_value i) \<and> lo_le lo (item_key i)"
    using inv(3) assms(2-4) by (induction k v its rule: upd_items.induct) auto
  have "bt_inv Q 0 lo None (BLeaf a (upd_items k v its))"
    using ok sorted_upd_items [OF inv(1)] assms(6) by simp
  from clone_leaf_ok [OF n'(2) this assms(7), of g D dev]
  obtain st' where "write_cow_clone n' g a st = (Ok (next_free_block st), st')" "cow_step st st'"
    "next_free_block st' = next_free_block st + 1" "leaf_ok Q lo D dev st' (next_free_block st) (upd_items k v its)" by blast
  with f n n' assms(6) show ?thesis
    by (auto simp: insert_into_tree_def leaf_node_def leaf_node_would_overflow_def)
qed

lemma leaf_del:
  assumes "leaf_ok Q lo D dev st a its" "kv_map its k \<noteq> None" "0 < fuel" "unat (next_free_block st) + 1 < 2 ^ 64"
  shows "\<exists>st'. delete_from_tree fuel D dev a k g st = (Ok (next_free_block st), st') \<and> cow_step st st' \<and>
    next_free_block st' = next_free_block st + 1 \<and> leaf_ok Q lo D dev st' (next_free_block st) (del_items k its)"
proof -
  obtain f n where f: "fuel = Suc f" and n: "rd D dev st a = Ok n" "leaf_node n its"
    using assms(1,3) by (cases fuel) (auto simp: tree_ok_def)
  have inv: "sorted_items its" "leaf_serialised_size its \<le> 4096"
      "\<forall>i\<in>set its. Q (item_key i) \<and> small_value (item_value i) \<and> lo_le lo (item_key i)"
    using assms(1) by (auto simp: tree_ok_def)
  obtain i where i: "binary_search_by_key k item_key its = SearchOk i" "i < length its"
    "take i its @ drop (i + 1) its = del_items k its"
    using delete_leaf_items [OF inv(1) assms(2)] by blast
  have "length its < 65535" using size_length [of its] inv(2) by linarith
  then have c: "sub_u (item_count n) 1 = Ok (of_nat (length its - 1))"
    using n(2) i(2) by (auto simp: leaf_node_def sub_u_def word_le_nat_alt unat_of_nat of_nat_diff)
  let ?n = "n\<lparr>leaf_items := del_items k its, item_count := of_nat (length its - 1)\<rparr>"
  have l: "length (del_items k its) = length its - 1" using i(2) by (simp flip: i(3))
  have ln: "leaf_node ?n (del_items k its)" using n(2) l by (simp add: leaf_node_def)
  have "bt_inv Q 0 lo None (BLeaf a (del_items k its))"
    using inv sorted_del_items [OF inv(1), of k] size_del_items [of k its] by (auto simp: del_items_def)
  from clone_leaf_ok [OF ln this assms(4), of g D dev]
  obtain st' where "write_cow_clone ?n g a st = (Ok (next_free_block st), st')" "cow_step st st'"
    "next_free_block st' = next_free_block st + 1" "leaf_ok Q lo D dev st' (next_free_block st) (del_items k its)" by blast
  with f n i c show ?thesis
    by (auto simp: delete_from_tree_def leaf_node_def)
qed

lemma leaf_other_block:
  assumes "leaf_ok Q lo D dev st a its" "b \<noteq> a"
  shows "leaf_ok Q lo D dev (st\<lparr>dirty_cache := map_insert b blk (dirty_cache st)\<rparr>) a its"
  using assms by (simp add: tree_ok_def below_def read_tree_node_def read_block_insert)

lemma leaf_tree_on:
  assumes "leaf_ok Q lo D dev st a its" "data_area D dev \<le> unat a"
  shows "tree_on Q lo D dev st a its {a}"
  using tree_onI [OF assms(1)] assms(2) by simp

section \<open>The trees of a new volume\<close>

abbreviation free_keys :: "bafs_key \<Rightarrow> bool" where
  "free_keys \<equiv> keys_of BAFS_FREE_EXTENT_OBJECT_ID ITEM_TYPE_EXTENT_DATA"

abbreviation checksum_keys :: "bafs_key \<Rightarrow> bool" where
  "checksum_keys \<equiv> keys_of BAFS_CHECKSUM_OBJECT_ID ITEM_TYPE_CHECKSUM_ENTRY"

definition root_item :: bafs_leaf_item where
  "root_item = \<lparr>item_key = ROOT_KEY, item_value = serialise_inode_to_bytes (new_directory BAFS_ROOT_INODE_NUMBER 1 0)\<rparr>"

definition format_start :: "u64 \<Rightarrow> cow_state" where
  "format_start a = \<lparr>dirty_cache = [], next_free_block = a + 3, freed_blocks = []\<rparr>"

lemma empty_trees:
  fixes D :: "'d block_device" and dev :: 'd
  assumes "unat a + 13 < 2 ^ 64"
  shows "\<exists>st. bindS (create_empty_tree a 1) (\<lambda>_. bindS (create_empty_tree (a + 1) 1) (\<lambda>_. bindS (create_empty_tree (a + 2) 1) f)) (format_start a)
      = f () st \<and> next_free_block st = a + 3 \<and> cache_ok (dirty_cache st) \<and> fst ` set (dirty_cache st) \<subseteq> {a, a + 1, a + 2} \<and>
    leaf_ok (\<lambda>_. True) (Some ROOT_KEY) D dev st a [] \<and> leaf_ok free_keys None D dev st (a + 1) [] \<and>
    leaf_ok checksum_keys None D dev st (a + 2) []"
proof -
  have u: "unat (a + 1) = unat a + 1" "unat (a + 2) = unat a + 2" "unat (a + 3) = unat a + 3"
    using assms by (simp_all add: unat_word_ariths)
  have ne: "a + 1 \<noteq> a" "a + 2 \<noteq> a" "a + 2 \<noteq> a + 1" using u by (auto simp: word_unat_eq_iff)
  let ?i = "\<lambda>b blk st. st\<lparr>dirty_cache := map_insert b blk (dirty_cache st)\<rparr>"
  let ?s0 = "format_start a"
  have "unat a < unat (next_free_block ?s0)" using u by (simp add: format_start_def)
  then obtain b0 where 0: "create_empty_tree a 1 ?s0 = (Ok (), ?i a b0 ?s0)" "length b0 = 4096"
      "leaf_ok (\<lambda>_. True) (Some ROOT_KEY) D dev (?i a b0 ?s0) a []"
    by (rule create_empty_tree_spec [where Q = "\<lambda>_. True" and lo = "Some ROOT_KEY" and D = D and dev = dev and g = 1])
  let ?s1 = "?i a b0 ?s0"
  have "unat (a + 1) < unat (next_free_block ?s1)" using u by (simp add: format_start_def)
  then obtain b1 where 1: "create_empty_tree (a + 1) 1 ?s1 = (Ok (), ?i (a + 1) b1 ?s1)" "length b1 = 4096"
      "leaf_ok free_keys None D dev (?i (a + 1) b1 ?s1) (a + 1) []"
    by (rule create_empty_tree_spec [where Q = free_keys and lo = None and D = D and dev = dev and g = 1])
  let ?s2 = "?i (a + 1) b1 ?s1"
  have "unat (a + 2) < unat (next_free_block ?s2)" using u by (simp add: format_start_def)
  then obtain b2 where 2: "create_empty_tree (a + 2) 1 ?s2 = (Ok (), ?i (a + 2) b2 ?s2)" "length b2 = 4096"
      "leaf_ok checksum_keys None D dev (?i (a + 2) b2 ?s2) (a + 2) []"
    by (rule create_empty_tree_spec [where Q = checksum_keys and lo = None and D = D and dev = dev and g = 1])
  let ?s3 = "?i (a + 2) b2 ?s2"
  have c0: "cache_ok (dirty_cache ?s0)" by (simp add: format_start_def cache_ok_def)
  have "cache_ok (dirty_cache ?s3)"
    using cache_ok_insert [OF cache_ok_insert [OF cache_ok_insert [OF c0 0(2), of a] 1(2), of "a + 1"] 2(2), of "a + 2"] by simp
  moreover have "fst ` set (dirty_cache ?s3) \<subseteq> {a, a + 1, a + 2}"
  proof -
    have "dom (map_of (dirty_cache ?s3)) \<subseteq> {a, a + 1, a + 2}" by (auto simp: format_start_def split: if_splits)
    then show ?thesis unfolding dom_map_of_conv_image_fst .
  qed
  moreover have "bindS (create_empty_tree a 1) (\<lambda>_. bindS (create_empty_tree (a + 1) 1) (\<lambda>_. bindS (create_empty_tree (a + 2) 1) f)) ?s0
      = f () ?s3" using 0(1) 1(1) 2(1) by simp
  moreover have "next_free_block ?s3 = a + 3" by (simp add: format_start_def)
  moreover have l: "leaf_ok (\<lambda>_. True) (Some ROOT_KEY) D dev ?s2 a []" by (rule leaf_other_block [OF 0(3) ne(1)])
  have "leaf_ok (\<lambda>_. True) (Some ROOT_KEY) D dev ?s3 a []" by (rule leaf_other_block [OF l ne(2)])
  moreover have "leaf_ok free_keys None D dev ?s3 (a + 1) []" by (rule leaf_other_block [OF 1(3) ne(3)])
  ultimately show ?thesis using 2(3) by (intro exI [of _ ?s3] conjI)
qed

lemma step_addresses:
  assumes "cow_step st st'" "next_free_block st' = next_free_block st + 1" "unat (next_free_block st) + 1 < 2 ^ 64"
  shows "fst ` set (dirty_cache st') \<subseteq> insert (next_free_block st) (fst ` set (dirty_cache st))"
proof -
  have "unat (next_free_block st + 1) = unat (next_free_block st) + 1" using assms(3) by (simp add: unat_plus_1)
  then have "map_of (dirty_cache st') a = map_of (dirty_cache st) a" if "a \<noteq> next_free_block st" for a
    using assms(1,2) that unfolding cow_step_def by (metis Suc_eq_plus1 Suc_leI nat_neq_iff word_unat_eq_iff)
  then have "dom (map_of (dirty_cache st')) \<subseteq> insert (next_free_block st) (dom (map_of (dirty_cache st)))"
    by (auto simp: dom_def)
  then show ?thesis by (simp add: dom_map_of_conv_image_fst)
qed

lemma leaf_put_new:
  assumes "leaf_ok Q lo D dev st a []" "lo_le lo k" "Q k" "small_value v" "0 < fuel" "unat (next_free_block st) + 1 < 2 ^ 64"
  shows "\<exists>st'. insert_into_tree fuel D dev a k v g st = (Ok (next_free_block st), st') \<and> cow_step st st' \<and>
    next_free_block st' = next_free_block st + 1 \<and> leaf_ok Q lo D dev st' (next_free_block st) [\<lparr>item_key = k, item_value = v\<rparr>] \<and>
    fst ` set (dirty_cache st') \<subseteq> insert (next_free_block st) (fst ` set (dirty_cache st))"
proof -
  have "leaf_serialised_size (upd_items k v []) \<le> 4096"
    using assms(4) by (simp add: size_single small_value_def)
  from leaf_put [OF assms(1-5) this assms(6), of g] step_addresses [OF _ _ assms(6)] show ?thesis by fastforce
qed

definition formatted :: "'d block_device \<Rightarrow> 'd \<Rightarrow> u64 \<Rightarrow> u64 \<Rightarrow> cow_state \<Rightarrow> bool" where
  "formatted D dev a t st \<longleftrightarrow> next_free_block st = a + 7 \<and> cache_ok (dirty_cache st) \<and>
     fst ` set (dirty_cache st) \<subseteq> {a, a + 1, a + 2, a + 3, a + 4, a + 5, a + 6} \<and>
     leaf_ok (\<lambda>_. True) (Some ROOT_KEY) D dev st (a + 3) [root_item] \<and>
     leaf_ok free_keys None D dev st (a + 6) [free_item (a + 6, t - (a + 6))] \<and> leaf_ok checksum_keys None D dev st (a + 2) []"

lemma small_free_extent: "small_value (serialise_free_extent_to_bytes e)"
  by (simp add: small_value_def)

lemma free_put:
  assumes "leaf_ok free_keys None D dev st r []" "0 < fuel" "unat (next_free_block st) + 1 < 2 ^ 64"
  shows "\<exists>st'. insert_free_extent_into_tree fuel D dev r x m g st = (Ok (next_free_block st), st') \<and> cow_step st st' \<and>
    next_free_block st' = next_free_block st + 1 \<and> leaf_ok free_keys None D dev st' (next_free_block st) [free_item (x, m)] \<and>
    fst ` set (dirty_cache st') \<subseteq> insert (next_free_block st) (fst ` set (dirty_cache st))"
  using leaf_put_new [OF assms(1) _ _ small_free_extent assms(2,3), where k = "free_key x" and g = g]
  by (simp add: insert_free_extent_into_tree_def free_item_def free_key_def keys_of_def)

lemma free_del:
  assumes "leaf_ok free_keys None D dev st r [free_item (x, m)]" "0 < fuel" "unat (next_free_block st) + 1 < 2 ^ 64"
  shows "\<exists>st'. delete_from_tree fuel D dev r (BafsKey BAFS_FREE_EXTENT_OBJECT_ID ITEM_TYPE_EXTENT_DATA x) g st = (Ok (next_free_block st), st') \<and>
    cow_step st st' \<and> next_free_block st' = next_free_block st + 1 \<and> leaf_ok free_keys None D dev st' (next_free_block st) [] \<and>
    fst ` set (dirty_cache st') \<subseteq> insert (next_free_block st) (fst ` set (dirty_cache st))"
proof -
  have k: "kv_map [free_item (x, m)] (free_key x) \<noteq> None" by (simp add: kv_map_None)
  have "del_items (free_key x) [free_item (x, m)] = []" by (simp add: del_items_def)
  with leaf_del [OF assms(1) k assms(2,3), of g] step_addresses [OF _ _ assms(3)] show ?thesis
    unfolding free_key_def by fastforce
qed

text \<open>The whole construction takes seven blocks. The free extent starts at the block of the free tree's
  own root, which the last insertion takes.\<close>

lemma format_trees_spec:
  fixes D :: "'d block_device" and dev :: 'd
  assumes "unat a + 13 \<le> unat t" "0 < fuel"
  shows "\<exists>st. format_trees fuel D dev t a (format_start a) = (Ok (a + 3, a + 6, a + 2), st) \<and> formatted D dev a t st"
proof -
  have b: "unat a + 13 < 2 ^ 64" using assms(1) unat_bound [of t] by simp
  have u: "unat (a + 3) = unat a + 3" "unat (a + 4) = unat a + 4" "unat (a + 5) = unat a + 5" "unat (a + 6) = unat a + 6"
    using b by (simp_all add: unat_word_ariths)
  let ?dir = "new_directory BAFS_ROOT_INODE_NUMBER 1 0" and ?n = next_free_block
  let ?f = "\<lambda>_ :: unit. bindS (write_inode_to_tree fuel D dev a ?dir 1) (\<lambda>inode_root. bindS (getS ?n) (\<lambda>free_start.
     let free_count = saturating_sub t free_start in
     if free_count = 0 then failS OutOfSpace
     else bindS (insert_free_extent_into_tree fuel D dev (a + 1) free_start free_count 1) (\<lambda>root. bindS (getS ?n) (\<lambda>next_free.
       if free_start < next_free then
         bindS (delete_from_tree fuel D dev root (BafsKey BAFS_FREE_EXTENT_OBJECT_ID ITEM_TYPE_EXTENT_DATA free_start) 1) (\<lambda>root.
         bindS (getS ?n) (\<lambda>final. let free_count = saturating_sub t final in
         if 0 < free_count then bindS (insert_free_extent_into_tree fuel D dev root final free_count 1) (\<lambda>root. retS (inode_root, root, a + 2))
         else retS (inode_root, root, a + 2)))
       else retS (inode_root, root, a + 2)))))"
  have fold: "format_trees fuel D dev t a = bindS (create_empty_tree a 1) (\<lambda>_. bindS (create_empty_tree (a + 1) 1) (\<lambda>_. bindS (create_empty_tree (a + 2) 1) ?f))"
    by (simp add: format_trees_def)
  obtain s0 where s0: "format_trees fuel D dev t a (format_start a) = ?f () s0" "?n s0 = a + 3" "cache_ok (dirty_cache s0)"
      "fst ` set (dirty_cache s0) \<subseteq> {a, a + 1, a + 2}" "leaf_ok (\<lambda>_. True) (Some ROOT_KEY) D dev s0 a []"
      "leaf_ok free_keys None D dev s0 (a + 1) []" "leaf_ok checksum_keys None D dev s0 (a + 2) []"
    using empty_trees [OF b, of ?f D dev] unfolding fold by blast
  have ps: "small_value (serialise_inode_to_bytes ?dir)" by (rule small_inode) simp
  obtain s1 where s1: "insert_into_tree fuel D dev a ROOT_KEY (serialise_inode_to_bytes ?dir) 1 s0 = (Ok (a + 3), s1)" "cow_step s0 s1"
      "?n s1 = a + 4" "leaf_ok (\<lambda>_. True) (Some ROOT_KEY) D dev s1 (a + 3) [root_item]"
      "fst ` set (dirty_cache s1) \<subseteq> insert (a + 3) (fst ` set (dirty_cache s0))"
    using leaf_put_new [OF s0(5) _ _ ps assms(2), of ROOT_KEY 1] s0(2) u b by (auto simp: root_item_def add.commute)
  obtain s2 where s2: "insert_free_extent_into_tree fuel D dev (a + 1) (a + 4) (t - (a + 4)) 1 s1 = (Ok (a + 4), s2)" "cow_step s1 s2"
      "?n s2 = a + 5" "leaf_ok free_keys None D dev s2 (a + 4) [free_item (a + 4, t - (a + 4))]"
      "fst ` set (dirty_cache s2) \<subseteq> insert (a + 4) (fst ` set (dirty_cache s1))"
    using free_put [OF tree_ok_step [OF s1(2) s0(6)] assms(2), of "a + 4" "t - (a + 4)" 1] s1(3) u b by (auto simp: add.commute)
  obtain s3 where s3: "delete_from_tree fuel D dev (a + 4) (BafsKey BAFS_FREE_EXTENT_OBJECT_ID ITEM_TYPE_EXTENT_DATA (a + 4)) 1 s2 = (Ok (a + 5), s3)"
      "cow_step s2 s3" "?n s3 = a + 6" "leaf_ok free_keys None D dev s3 (a + 5) []"
      "fst ` set (dirty_cache s3) \<subseteq> insert (a + 5) (fst ` set (dirty_cache s2))"
    using free_del [OF s2(4) assms(2), of 1] s2(3) u b by (auto simp: add.commute)
  obtain s4 where s4: "insert_free_extent_into_tree fuel D dev (a + 5) (a + 6) (t - (a + 6)) 1 s3 = (Ok (a + 6), s4)" "cow_step s3 s4"
      "?n s4 = a + 7" "leaf_ok free_keys None D dev s4 (a + 6) [free_item (a + 6, t - (a + 6))]"
      "fst ` set (dirty_cache s4) \<subseteq> insert (a + 6) (fst ` set (dirty_cache s3))"
    using free_put [OF s3(4) assms(2), of "a + 6" "t - (a + 6)" 1] s3(3) u b by (auto simp: add.commute)
  have cnt: "saturating_sub t (a + 4) = t - (a + 4)" "t - (a + 4) \<noteq> 0" "saturating_sub t (a + 6) = t - (a + 6)" "0 < t - (a + 6)" "a + 4 < a + 5"
    using assms(1) u by (auto simp: saturating_sub_def word_le_nat_alt word_less_nat_alt unat_sub)
  have k: "BafsKey BAFS_ROOT_INODE_NUMBER ITEM_TYPE_INODE 0 = ROOT_KEY" by (simp add: ROOT_KEY_def)
  have run: "format_trees fuel D dev t a (format_start a) = (Ok (a + 3, a + 6, a + 2), s4)"
    unfolding s0(1) using s1(1,3) s2(1,3) s3(1,3) s4(1) cnt by (simp add: write_inode_to_tree_def Let_def k)
  have st: "cow_step s1 s4" "cow_step s0 s4"
    using cow_step_trans [OF s2(2) cow_step_trans [OF s3(2) s4(2)]] cow_step_trans [OF s1(2)] by blast+
  have "cache_ok (dirty_cache s4)" using st(2) s0(3) by (simp add: cow_step_def)
  moreover have "fst ` set (dirty_cache s4) \<subseteq> {a, a + 1, a + 2, a + 3, a + 4, a + 5, a + 6}"
    by (rule order_trans [OF order_trans [OF s4(5) insert_mono [OF order_trans [OF s3(5) insert_mono [OF order_trans [OF s2(5)
          insert_mono [OF order_trans [OF s1(5) insert_mono [OF s0(4)]]]]]]]]]) simp
  ultimately have "formatted D dev a t s4"
    unfolding formatted_def using s4(3,4) tree_ok_step [OF st(1) s1(4)] tree_ok_step [OF st(2) s0(7)] by (intro conjI)
  with run show ?thesis by blast
qed

section \<open>Formatting a device\<close>

definition zero_writes :: "u64 \<Rightarrow> (u64 \<times> bytes) list" where
  "zero_writes n = map (\<lambda>i. (3 + of_nat i, replicate 4096 0)) [0..<unat n]"

lemma zero_writes_addresses:
  assumes "unat n \<le> 16384" "w \<in> set (zero_writes n)"
  shows "3 \<le> unat (fst w)" "unat (fst w) < 3 + unat n" "snd w = replicate 4096 0"
proof -
  obtain i where i: "i < unat n" "w = (3 + of_nat i, replicate 4096 0)"
    using assms(2) by (auto simp: zero_writes_def)
  have "unat (3 + of_nat i :: u64) = 3 + i" using i(1) assms(1) by (simp add: unat_word_ariths unat_of_nat)
  with i show "3 \<le> unat (fst w)" "unat (fst w) < 3 + unat n" "snd w = replicate 4096 0" by simp_all
qed

lemma format_superblock_simps [simp]:
  "acceptable_superblock (format_superblock opt t (i, f, c) n)"
  "journal_start_block (format_superblock opt t (i, f, c) n) = 3"
  "journal_size_in_blocks (format_superblock opt t (i, f, c) n) = compute_journal_size_in_blocks t"
  "next_cow_block_address (format_superblock opt t (i, f, c) n) = n"
  "inode_tree_root_block (format_superblock opt t (i, f, c) n) = i"
  "free_extent_tree_root_block (format_superblock opt t (i, f, c) n) = f"
  "checksum_tree_root_block (format_superblock opt t (i, f, c) n) = c"
  "allocated_inode_count (format_superblock opt t (i, f, c) n) = 1"
  "total_block_count (format_superblock opt t (i, f, c) n) = t"
  "root_inode_number (format_superblock opt t (i, f, c) n) = BAFS_ROOT_INODE_NUMBER"
  "free_block_count (format_superblock opt t (i, f, c) n) = saturating_sub t n"
  "last_committed_transaction_id (format_superblock opt t (i, f, c) n) = 1"
  by (simp_all add: format_superblock_def acceptable_superblock_def wf_superblock_def BAFS_MAGIC_NUMBER_def
      BAFS_JOURNAL_START_BLOCK_ADDRESS_def)

lemma journal_magic_nonzero: "replicate 8 0 \<noteq> JOURNAL_COMMIT_RECORD_MAGIC"
proof
  assume "replicate 8 0 = JOURNAL_COMMIT_RECORD_MAGIC"
  then have "hd (replicate 8 (0 :: u8)) = hd JOURNAL_COMMIT_RECORD_MAGIC" by simp
  then show False by (simp add: JOURNAL_COMMIT_RECORD_MAGIC_def)
qed

lemma zeroed_journal:
  assumes "journal_layout img sb" "image_block img (journal_start_block sb) = replicate 4096 0"
  shows "parse_commit_record (journal_area img sb) i = None"
proof -
  have "slice 0 8 (journal_area img sb) = slice 0 8 (take 4096 (journal_area img sb))" by (simp add: slice_take)
  also have "\<dots> = replicate 8 0" unfolding journal_area_first [OF assms(1)] assms(2) by (simp add: slice_def)
  finally show ?thesis using journal_magic_nonzero by (simp add: parse_commit_record_def)
qed

text \<open>The image that a format leaves.\<close>

definition large_enough :: "'d block_device \<Rightarrow> 'd \<Rightarrow> bool" where
  "large_enough D d \<longleftrightarrow> data_area D d + 13 \<le> unat (total_sector_count D d div 8)"

context block_store
begin

lemma format_bounds:
  fixes a :: u64
  assumes "valid d" "large_enough D d" "t = total_sector_count D d div 8" "unat a = data_area D d"
  shows "256 \<le> unat (compute_journal_size_in_blocks t)" "unat (compute_journal_size_in_blocks t) \<le> 16384"
    "data_area D d = 3 + unat (compute_journal_size_in_blocks t)" "4096 * unat t \<le> length (image d)"
    "unat a + 13 \<le> unat t" "unat (a + 7) = unat a + 7"
proof -
  show "256 \<le> unat (compute_journal_size_in_blocks t)" "unat (compute_journal_size_in_blocks t) \<le> 16384"
    "data_area D d = 3 + unat (compute_journal_size_in_blocks t)"
    using journal_size_bounds [of t] unat_data_area_start [of t] by (simp_all add: word_le_nat_alt data_area_def assms(3))
  show "4096 * unat t \<le> length (image d)" using image_size [OF assms(1)] by (simp add: assms(3) unat_div)
  show t: "unat a + 13 \<le> unat t" using assms(2,4) by (simp add: large_enough_def assms(3))
  show "unat (a + 7) = unat a + 7" using t unat_bound [of t] by (simp add: unat_word_ariths)
qed

lemma formatted_cache:
  assumes "formatted D d a t st" "unat a + 13 \<le> unat t" "e \<in> set (dirty_cache st)"
  shows "unat a \<le> unat (fst e) \<and> unat (fst e) < unat a + 7 \<and> length (snd e) = 4096"
proof -
  have "fst e \<in> {a, a + 1, a + 2, a + 3, a + 4, a + 5, a + 6}"
    using assms(1,3) by (auto simp: formatted_def)
  moreover have "unat (a + k) = unat a + unat k" if "unat k < 7" for k
    using that assms(2) unat_bound [of t] by (simp add: unat_word_ariths)
  ultimately have "unat a \<le> unat (fst e) \<and> unat (fst e) < unat a + 7" by auto
  moreover have "length (snd e) = 4096"
    using assms(1,3) by (cases e) (auto simp: formatted_def cache_ok_def)
  ultimately show ?thesis by simp
qed

lemma format_fits:
  assumes "valid d" "large_enough D d" "t = total_sector_count D d div 8" "unat a = data_area D d" "formatted D d a t st"
    and "wf_superblock sb"
  shows "blocks_fit (image d) (zero_writes (compute_journal_size_in_blocks t) @ dirty_cache st @ superblock_writes sb)" (is "blocks_fit _ ?W")
proof -
  let ?n = "compute_journal_size_in_blocks t"
  note n = format_bounds [OF assms(1-4)]
  have inside: "block_in_image (image d) b" if "unat b < unat t" for b
    using that n(4) by (simp add: block_in_image_def)
  have "block_in_image (image d) (fst w) \<and> length (snd w) = 4096" if w: "w \<in> set ?W" for w
  proof -
    consider "w \<in> set (zero_writes ?n)" | "w \<in> set (dirty_cache st)" | "w \<in> set (superblock_writes sb)"
      using w by auto
    then show ?thesis
    proof cases
      case 1
      then show ?thesis using zero_writes_addresses [OF n(2) 1] n(3,5) assms(4) by (intro conjI inside) simp_all
    next
      case 2
      then show ?thesis using formatted_cache [OF assms(5) n(5) 2] n(5) by (intro conjI inside) simp_all
    next
      case 3
      then show ?thesis using assms(4,6) n(1,3,5) by (intro conjI inside) (auto simp: superblock_writes_def Let_def)
    qed
  qed
  then show ?thesis by (auto simp: blocks_fit_def)
qed

lemma format_image_durable:
  assumes "valid d" "large_enough D d" "t = total_sector_count D d div 8" "unat a = data_area D d" "formatted D d a t st"
    and sb: "sb = format_superblock opt t (i, f, c) (a + 7)"
    and W: "W = zero_writes (compute_journal_size_in_blocks t) @ dirty_cache st @ superblock_writes sb"
    and "image d' = blocks_after (image d) W" "valid d'" "total_sector_count D d' = total_sector_count D d"
  shows "durable D image (seal_with_checksum sb) (dirty_cache st) d d'"
proof -
  let ?n = "compute_journal_size_in_blocks t" and ?s = "seal_with_checksum sb"
  note n = format_bounds [OF assms(1-4)] and cache = formatted_cache [OF assms(5) format_bounds(5) [OF assms(1-4)]]
  have "wf_superblock sb" using format_superblock_simps(1) by (simp add: sb acceptable_superblock_def)
  note fit = format_fits [OF assms(1-5) this, folded W]
  have len': "length (image d') = length (image d)" unfolding assms(8) by (rule length_blocks_after [OF fit])
  have s: "journal_start_block ?s = 3" "journal_size_in_blocks ?s = ?n" "next_cow_block_address ?s = a + 7" "last_committed_transaction_id ?s = 1"
    using format_superblock_simps by (simp_all add: sb seal_with_checksum_def)
  have L: "journal_layout (image d') ?s"
    using len' n assms(4) by (simp add: journal_layout_def s)
  have nosb: "b \<notin> fst ` set (superblock_writes sb)" if "3 \<le> unat b" for b
    unfolding superblock_writes_addresses using that by auto
  have data: "image_block (image d') b = (case map_of (dirty_cache st) b of Some x \<Rightarrow> x | None \<Rightarrow> image_block (image d) b)"
    if "3 + unat ?n \<le> unat b" for b
  proof -
    have "b \<notin> fst ` set (zero_writes ?n)" using zero_writes_addresses(2) [OF n(2)] that by fastforce
    then have "map_of (rev (zero_writes ?n)) b = None" "map_of (rev (superblock_writes sb)) b = None"
      using nosb that by (simp_all add: map_of_eq_None_iff)
    then have "map_of (rev W) b = map_of (rev (dirty_cache st)) b" by (simp add: W map_add_def split: option.split)
    also have "\<dots> = map_of (dirty_cache st) b" using assms(5) by (simp add: map_of_rev_sorted formatted_def)
    finally show ?thesis unfolding assms(8) by (simp add: image_blocks_after [OF fit])
  qed
  have "image_block (image d') 3 = replicate 4096 0"
  proof -
    have "(3, replicate 4096 0) \<in> set (zero_writes ?n)"
      unfolding zero_writes_def set_map using n(1) by (intro image_eqI [of _ _ 0]) simp_all
    then have "3 \<in> fst ` set (zero_writes ?n)" by (rule image_eqI [rotated]) simp
    then obtain x where x: "map_of (rev (zero_writes ?n)) 3 = Some x"
      by (metis image_set map_of_eq_None_iff option.exhaust set_rev)
    then have "(3, x) \<in> set (zero_writes ?n)" using map_of_SomeD by fastforce
    then have "x = replicate 4096 0" using zero_writes_addresses(3) [OF n(2)] by fastforce
    moreover have "3 \<notin> fst ` set (dirty_cache st)" using cache assms(4) n(1,3) by fastforce
    then have "map_of (rev (dirty_cache st)) 3 = None" "map_of (rev (superblock_writes sb)) 3 = None"
      using nosb [of 3] by (simp_all add: map_of_eq_None_iff)
    ultimately have "map_of (rev W) 3 = Some (replicate 4096 0)" using x by (simp add: W map_add_def)
    then show ?thesis unfolding assms(8) image_blocks_after [OF fit] by simp
  qed
  then have p: "parse_commit_record (journal_area (image d') ?s) (last_committed_transaction_id ?s) = None"
    by (intro zeroed_journal [OF L]) (simp add: s)
  have fit2: "blocks_fit (image d) ((zero_writes ?n @ dirty_cache st) @ superblock_writes sb)" using fit by (simp add: W)
  have "acceptable_superblock sb" by (simp add: sb)
  note r = superblock_written_read [OF assms(9) this fit2]
  have "data_area D d' = data_area D d" using assms(10) by (simp add: data_area_def)
  with r p L len' data assms(8,10) n(3) show "durable D image ?s (dirty_cache st) d d'"
    by (simp add: durable_def stable_def journal_safe_def s W BAFS_PRIMARY_SUPERBLOCK_BLOCK_ADDRESS_def
        BAFS_BACKUP_SUPERBLOCK_BLOCK_ADDRESS_def)
qed

end

section \<open>The file system of a new volume\<close>

definition empty_fs :: file_system where
  "empty_fs = \<lparr>fs_inodes = [BAFS_ROOT_INODE_NUMBER \<mapsto> new_directory BAFS_ROOT_INODE_NUMBER 1 0],
     fs_entries = (\<lambda>_ _. None), fs_extents = (\<lambda>_. {}), fs_checksums = (\<lambda>_. None)\<rparr>"

lemma empty_fs_valid: "fs_valid 1 empty_fs"
  by (rule fs_validI) (auto simp: empty_fs_def new_inode_kinds BAFS_ROOT_INODE_NUMBER_def split: if_splits)

lemma empty_fs_items: "items_wf [root_item]" "fs_of [root_item] [] = empty_fs"
proof -
  have k: "ROOT_KEY = inode_key BAFS_ROOT_INODE_NUMBER" by (simp add: ROOT_KEY_def inode_key_def)
  show "items_wf [root_item]"
    unfolding items_wf_def by (auto simp: inode_item_def root_item_def k intro: exI [of _ "new_directory BAFS_ROOT_INODE_NUMBER 1 0"])
  have "inode_at [root_item] = [BAFS_ROOT_INODE_NUMBER \<mapsto> new_directory BAFS_ROOT_INODE_NUMBER 1 0]"
    by (rule ext) (auto simp: inode_at_def kv_map_def root_item_def k inode_codec)
  moreover have "dir_map [root_item] = (\<lambda>_ _. None)"
    by (intro ext) (simp add: dir_map_def kv_map_def root_item_def k)
  moreover have "file_extents [root_item] = (\<lambda>_. {})"
    by (rule ext) (auto simp: file_extents_def root_item_def k extent_item_def)
  ultimately show "fs_of [root_item] [] = empty_fs"
    by (simp add: fs_of_def empty_fs_def kv_map_def)
qed

lemma formatted_volume:
  assumes "formatted D d a t st" "unat a = data_area D d" "kept D d st d' (mounted_state s)"
    and "inode_tree_root_block s = a + 3" "free_extent_tree_root_block s = a + 6" "checksum_tree_root_block s = a + 2"
    and "allocated_inode_count s = 1" "next_cow_block_address s = a + 7" "free_block_count s = saturating_sub t (a + 7)"
    and "unat a + 13 \<le> unat t" "unat a + 7 + 96 * (2 + u) < 2 ^ 64" "unat t + 2 + u < 2 ^ 64" "3 \<le> rounds"
  shows "volume_fs D (mounted d' s) empty_fs" "funds D rounds u (mounted d' s)"
proof -
  have u: "unat (a + 2) = unat a + 2" "unat (a + 3) = unat a + 3" "unat (a + 6) = unat a + 6" "unat (a + 7) = unat a + 7"
    using assms(10) unat_bound [of t] by (simp_all add: unat_word_ariths)
  have i: "tree_on (\<lambda>_. True) (Some ROOT_KEY) D d' (mounted_state s) (a + 3) [root_item] {a + 3}"
    using assms(1,2) u by (intro kept_tree_on [OF assms(3)] leaf_tree_on) (simp_all add: formatted_def)
  have f: "tree_on free_keys None D d' (mounted_state s) (a + 6) [free_item (a + 6, t - (a + 6))] {a + 6}"
    using assms(1,2) u by (intro kept_tree_on [OF assms(3)] leaf_tree_on) (simp_all add: formatted_def)
  have c: "tree_on checksum_keys None D d' (mounted_state s) (a + 2) [] {a + 2}"
    using assms(1,2) u by (intro kept_tree_on [OF assms(3)] leaf_tree_on) (simp_all add: formatted_def)
  have "kv_map [root_item] ROOT_KEY \<noteq> None" by (simp add: kv_map_def root_item_def)
  with i c have "trees_of D (mounted d' s) [root_item] []"
    unfolding trees_of_def inode_tree_def tree_at_def using assms(4,6) by auto
  then have "represents D (mounted d' s) empty_fs"
    unfolding represents_def using empty_fs_items by blast
  then show "volume_fs D (mounted d' s) empty_fs"
    using empty_fs_valid assms(7) by (simp add: volume_fs_def)
  have p: "pool_on D d' (mounted_state s) (a + 6) {a + 6}"
    unfolding pool_on_def
  proof (intro exI conjI)
    show "set [free_item (a + 6, t - (a + 6))] = free_item ` {(a + 6, t - (a + 6))}" by simp
    have "unat (a + 6) + unat (t - (a + 6)) = unat t"
      using assms(10) u by (simp add: unat_sub word_le_nat_alt)
    then show "\<forall>x n. (x, n) \<in> {(a + 6, t - (a + 6))} \<longrightarrow> unat x + unat n < 2 ^ 64"
      using unat_bound [of t] by simp
  qed (rule f)
  have "cross (mounted d' s) {a + 6} \<subseteq> {a + 6}" by (auto simp: cross_def)
  then have "card (cross (mounted d' s) {a + 6}) \<le> 1" using card_mono [of "{a + 6}"] by force
  moreover have "unat (saturating_sub t (a + 7)) \<le> unat t"
    using assms(10) u by (simp add: saturating_sub_def unat_sub word_le_nat_alt)
  ultimately show "funds D rounds u (mounted d' s)"
    unfolding funds_def using p assms(5,8-13) u by (intro exI [of _ "{a + 6}"]) (simp add: algebra_simps)
qed

lemma format_small_device:
  assumes "\<not> large_enough D d"
  shows "bafs_format fuel D opt d = (Err OutOfSpace, d)"
proof -
  let ?t = "total_sector_count D d div 8"
  let ?a = "compute_data_area_start_block ?t"
  have "unat (?a + 3 + 10) = unat ?a + 13"
    using unat_data_area_start [of ?t] journal_size_bounds(2) [of ?t] by (simp add: unat_word_ariths word_le_nat_alt)
  then have "?t < ?a + 3 + 10" using assms by (simp add: large_enough_def data_area_def word_less_nat_alt)
  then show ?thesis by (simp add: bafs_format_def)
qed

definition new_superblock :: "bafs_format_options \<Rightarrow> u64 \<Rightarrow> bafs_superblock" where
  "new_superblock opt t = (let a = compute_data_area_start_block t in
     seal_with_checksum (format_superblock opt t (a + 3, a + 6, a + 2) (a + 7)))"

lemma new_superblock_simps [simp]:
  "journal_start_block (new_superblock opt t) = 3"
  "journal_size_in_blocks (new_superblock opt t) = compute_journal_size_in_blocks t"
  "next_cow_block_address (new_superblock opt t) = compute_data_area_start_block t + 7"
  "allocated_inode_count (new_superblock opt t) = 1" "total_block_count (new_superblock opt t) = t"
  "root_inode_number (new_superblock opt t) = BAFS_ROOT_INODE_NUMBER"
  "last_committed_transaction_id (new_superblock opt t) = 1"
  "acceptable_superblock (new_superblock opt t)"
  using format_superblock_simps by (simp_all add: new_superblock_def Let_def) (simp_all add: seal_with_checksum_def)

context reliable_store
begin

lemma format_and_mount:
  assumes "valid d" "large_enough D d" "0 < fuel" "3 \<le> rounds"
    and "data_area D d + 7 + 96 * (2 + u) < 2 ^ 64" "unat (total_sector_count D d div 8) + 2 + u < 2 ^ 64"
  shows "\<exists>d' vol. bafs_format fuel D opt d = (Ok (), d') \<and> bafs_mount D d' = (Ok vol, d') \<and>
    volume_fs D vol empty_fs \<and> funds D rounds u vol \<and>
    valid d' \<and> total_sector_count D d' = total_sector_count D d \<and> stable D image d' (superblock vol) \<and> vol = mounted d' (superblock vol) \<and>
    superblock vol = new_superblock opt (total_sector_count D d div 8) \<and> clean D image d' (superblock vol)"
proof -
  define t where "t = total_sector_count D d div 8"
  define a where "a = compute_data_area_start_block t"
  define sb where "sb = format_superblock opt t (a + 3, a + 6, a + 2) (a + 7)"
  have ua: "unat a = data_area D d" by (simp add: a_def t_def data_area_def)
  have big: "unat a + 13 \<le> unat t" using assms(2) by (simp add: large_enough_def ua t_def)
  have "unat (a + 3 + 10) = unat a + 13" using big unat_bound [of t] by (simp add: unat_word_ariths)
  then have ns: "\<not> t < a + 3 + 10" using big by (simp add: word_less_nat_alt)
  obtain st where st: "format_trees fuel D d t a (format_start a) = (Ok (a + 3, a + 6, a + 2), st)" "formatted D d a t st"
    using format_trees_spec [OF big assms(3), of D d] by (elim exE conjE)
  have nx: "next_free_block st = a + 7" using st(2) by (simp add: formatted_def)
  let ?Z = "zero_writes (compute_journal_size_in_blocks t)"
  define W where "W = ?Z @ dirty_cache st @ superblock_writes sb"
  have "wf_superblock sb" using format_superblock_simps(1) by (simp add: sb_def acceptable_superblock_def)
  then have "blocks_fit (image d) W" unfolding W_def by (rule format_fits [OF assms(1,2) t_def ua st(2)])
  then have fz: "blocks_fit (image d) ?Z" "blocks_fit (image d) (dirty_cache st)" "blocks_fit (image d) (superblock_writes sb)"
    by (auto simp: W_def blocks_fit_def)
  obtain d1 where d1: "write_blocks D ?Z d = (Ok (), d1)" "valid d1" "total_sector_count D d1 = total_sector_count D d"
      "image d1 = blocks_after (image d) ?Z"
    using write_blocks_image [OF assms(1) fz(1)] by blast
  have f1: "blocks_fit (image d1) bs = blocks_fit (image d) bs" for bs using fz(1) d1(4) by (simp add: blocks_fit_after)
  obtain d2 where d2: "write_blocks D (dirty_cache st) d1 = (Ok (), d2)" "valid d2" "total_sector_count D d2 = total_sector_count D d1"
      "image d2 = blocks_after (image d1) (dirty_cache st)"
    using write_blocks_image [OF d1(2)] f1 fz(2) by blast
  have f2: "blocks_fit (image d2) bs = blocks_fit (image d) bs" for bs using fz(2) f1 d2(4) by (simp add: blocks_fit_after)
  have "block_in_image (image d2) 1" "block_in_image (image d2) 2" "wf_superblock sb"
    using fz(3) f2 [of "superblock_writes sb"] format_superblock_simps(1)
    by (auto simp: superblock_writes_def Let_def acceptable_superblock_def sb_def)
  then obtain d3 where d3: "write_superblock_to_device D (d2, sb) = (Ok (), (d3, seal_with_checksum sb))" "valid d3"
      "total_sector_count D d3 = total_sector_count D d2" "image d3 = blocks_after (image d2) (superblock_writes sb)"
    using write_superblock_done [OF d2(2)] by blast
  have run: "bafs_format fuel D opt d = (Ok (), d3)"
    using ns d1(1) d2(1) d3(1) st(1) nx
    by (simp add: bafs_format_def zero_journal_def zero_writes_def BAFS_JOURNAL_START_BLOCK_ADDRESS_def
        sb_def format_start_def flip: t_def a_def)
  have img: "image d3 = blocks_after (image d) W" by (simp add: W_def blocks_after_append d3(4) d2(4) d1(4))
  have dur: "durable D image (seal_with_checksum sb) (dirty_cache st) d d3"
    by (rule format_image_durable [OF assms(1,2) t_def ua st(2) sb_def W_def img d3(2)]) (simp add: d3(3) d2(3) d1(3))
  let ?s = "seal_with_checksum sb"
  have s: "inode_tree_root_block ?s = a + 3" "free_extent_tree_root_block ?s = a + 6" "checksum_tree_root_block ?s = a + 2"
    "allocated_inode_count ?s = 1" "next_cow_block_address ?s = a + 7" "free_block_count ?s = saturating_sub t (a + 7)"
    "last_committed_transaction_id ?s = 1"
    using format_superblock_simps by (simp_all add: seal_with_checksum_def sb_def)
  have k: "kept D d st d3 (mounted_state ?s)"
    by (rule kept_durable [OF assms(1) d3(2) dur]) (simp add: s nx)
  have m: "bafs_mount D d3 = (Ok (mounted d3 ?s), d3)"
    by (rule mount_clean [OF d3(2) durable_clean [OF dur]]) (simp add: s)
  note v = formatted_volume [OF st(2) ua k s(1-6) big assms(5) [folded ua] assms(6) [folded t_def] assms(4)]
  show ?thesis
    using run m v d3(2,3) d2(3) d1(3) dur
    by (intro exI [of _ d3] exI [of _ "mounted d3 ?s"]) (simp add: durable_def clean_def new_superblock_def sb_def a_def Let_def flip: t_def)
qed

end

end
