(* ===== verification/Volume_Session.thy ===== *)
theory Volume_Session
  imports Volume_Format
begin

text \<open>
  Sequences of operations on a mounted volume. Every operation may succeed or fail; the consistency of
  the file system is an invariant of all of them.
\<close>

section \<open>Errors leave a consistent volume\<close>

lemma volume_create_total:
  assumes "volume_fs D vol fs" "funds D rounds 130 vol" "deep fuel"
    and "unat (allocated_inode_count (superblock vol)) + 1 < 2 ^ 64" "kind_ok mk t" "valid_utf8 n"
    and "volume_create_entry mk t rounds fuel D p n vol = (r, vol')"
  shows "\<exists>fs'. volume_fs D vol' fs' \<and> fs_extents fs' = fs_extents fs"
proof -
  have rp: "represents D vol fs" using assms(1) by (simp add: volume_fs_def)
  note rd = volume_read_inode_fs [OF rp assms(3), of p]
  have f: "funds D rounds (130 + 0) vol" using assms(2) by simp
  show ?thesis
  proof (cases "fs_inodes fs p")
    case None
    then have "vol' = vol" using assms(7) rd by (simp add: volume_create_entry_def bindS_def)
    with assms(1) show ?thesis by blast
  next
    case (Some d)
    show ?thesis
    proof (cases "is_directory d")
      case False
      then have "vol' = vol" using assms(7) rd Some by (simp add: volume_create_entry_def)
      with assms(1) show ?thesis by blast
    next
      case True
      note c = volume_create_fs [OF assms(1) f assms(3-5) Some True refl refl, of n]
      show ?thesis
      proof (cases "valid_name n \<and> fs_entries fs p n = None")
        case True
        from c(1) [THEN mp, OF this] assms(7) show ?thesis by fastforce
      next
        case False
        then have "n = [] \<or> 255 < length n \<or> valid_name n \<and> fs_entries fs p n \<noteq> None"
          using assms(6) by (auto simp: valid_name_def)
        from c(2) [THEN mp, OF this] assms(7) show ?thesis by fastforce
      qed
    qed
  qed
qed

definition write_allowed :: "'d block_device \<Rightarrow> nat \<Rightarrow> nat \<Rightarrow> u64 \<Rightarrow> u64 \<Rightarrow> bytes \<Rightarrow> 'd bafs_volume \<Rightarrow> bool" where
  "write_allowed D rounds fuel ino off data vol \<longleftrightarrow>
     funds D rounds (66 * blocks_of data + 130) vol \<and> unat off + length data + 4096 < 2 ^ 64 \<and>
     unat (volume_next_free_block vol) + blocks_of data < 2 ^ 64 \<and>
     (\<forall>inode. volume_read_inode fuel D vol ino = Ok inode \<longrightarrow> unat (allocated_block_count inode) + blocks_of data < 2 ^ 64)"

lemma volume_write_total:
  assumes "volume_fs D vol fs" "runs_ok fs" "deep fuel" "write_allowed D rounds fuel ino off data vol"
    and "volume_write_file_data rounds fuel D ino off data vol = (r, vol')"
  shows "\<exists>fs'. volume_fs D vol' fs' \<and> runs_ok fs'"
proof -
  have rp: "represents D vol fs" using assms(1) by (simp add: volume_fs_def)
  note rd = volume_read_inode_fs [OF rp assms(3), of ino]
  have w: "funds D rounds (66 * blocks_of data + 130 + 0) vol" "unat off + length data + 4096 < 2 ^ 64"
      "unat (volume_next_free_block vol) + blocks_of data < 2 ^ 64"
    using assms(4) by (simp_all add: write_allowed_def)
  have same: ?thesis if "vol' = vol" using that assms(1,2) by blast
  show ?thesis
  proof (cases "data = [] \<or> (\<forall>inode. fs_inodes fs ino = Some inode \<longrightarrow> \<not> is_regular_file inode)")
    case True
    then show ?thesis
      using assms(5) rd by (intro same, cases "fs_inodes fs ino") (auto simp: volume_write_file_data_def bindS_def split: if_splits)
  next
    case False
    then obtain inode where i: "data \<noteq> []" "fs_inodes fs ino = Some inode" "is_regular_file inode" by blast
    then have a: "unat (allocated_block_count inode) + blocks_of data < 2 ^ 64"
      using assms(4) rd by (simp add: write_allowed_def)
    show ?thesis
    proof (cases "unat (volume_next_free_block vol) + blocks_of data \<le> unat (total_block_count (superblock vol))")
      case True
      let ?fs = "write_spec ino off data (volume_next_free_block vol) (next_transaction_id vol) inode fs"
      have "volume_fs D vol' ?fs"
        using volume_write_fs [OF assms(1) w(1) assms(3) i(2,3,1) w(2) a True refl] assms(5) by auto
      moreover have "runs_ok ?fs"
        using assms(2) w(3) by (auto simp: runs_ok_def put_extent_extents data_extent_def unat_of_nat split: if_splits)
      ultimately show ?thesis by blast
    next
      case False
      have n: "0 < blocks_of data" "unat (of_nat (blocks_of data) :: u64) = blocks_of data"
        using i(1) w(3) blocks_of_bounds(3) by (auto simp: unat_of_nat)
      have "unat (volume_next_free_block vol + of_nat (blocks_of data)) = unat (volume_next_free_block vol) + blocks_of data"
        using w(3) n(2) by (simp add: unat_word_ariths)
      then have "vol' = vol"
        using assms(5) rd i n False w(3)
        by (auto simp: volume_write_file_data_def allocate_and_write_data_blocks_def blocks_of_def Let_def bindS_def add_u_def
            word_less_nat_alt split: if_splits)
      then show ?thesis by (rule same)
    qed
  qed
qed

definition unlink_allowed :: "'d block_device \<Rightarrow> nat \<Rightarrow> 'd bafs_volume \<Rightarrow> bool" where
  "unlink_allowed D rounds vol \<longleftrightarrow>
     (\<forall>fs k inode. represents D vol fs \<and> fs_inodes fs k = Some inode \<longrightarrow> funds D rounds (unlink_cost k inode fs) vol)"

lemma volume_unlink_total:
  assumes "volume_fs D vol fs" "runs_ok fs" "deep fuel" "unlink_allowed D rounds vol"
    and "volume_unlink_directory_entry rounds fuel D p n vol = (r, vol')"
  shows "\<exists>fs'. volume_fs D vol' fs' \<and> runs_ok fs'"
proof (cases "fs_entries fs p n")
  case None
  have "represents D vol fs" using assms(1) by (simp add: volume_fs_def)
  from volume_unlink_missing [OF this assms(3) None] assms(1,2,5) show ?thesis by auto
next
  case (Some e)
  have rp: "represents D vol fs" and v: "fs_valid (allocated_inode_count (superblock vol)) fs"
    using assms(1) by (simp_all add: volume_fs_def)
  obtain inode where i: "fs_inodes fs (child_inode_number e) = Some inode"
    using fs_validD(4) [OF v Some] by (auto simp: linked_def)
  have "funds D rounds (unlink_cost (child_inode_number e) inode fs + 0) vol"
    using assms(4) rp i by (simp add: unlink_allowed_def)
  from volume_unlink_fs [OF assms(1,3,2) Some refl i this] assms(5)
  have "volume_fs D vol' (unlink_spec p n (child_inode_number e) inode fs)" by auto
  moreover have "runs_ok (unlink_spec p n (child_inode_number e) inode fs)"
    using assms(2) by (auto simp: runs_ok_def unlink_spec_def)
  ultimately show ?thesis by blast
qed

section \<open>Sessions\<close>

text \<open>A session is any sequence of operations, with any arguments and any results, as long as the address
  space has room for the next operation; it goes on after a commit, whether that succeeds or fails.\<close>

inductive session :: "'d block_device \<Rightarrow> ('d \<Rightarrow> bool) \<Rightarrow> ('d \<Rightarrow> bytes) \<Rightarrow> nat \<Rightarrow> nat \<Rightarrow> 'd bafs_volume \<Rightarrow> 'd bafs_volume \<Rightarrow> bool"
  for D valid img rounds fuel vol where
  begin_session: "session D valid img rounds fuel vol vol"
| create_step: "session D valid img rounds fuel vol vol1 \<Longrightarrow> funds D rounds 130 vol1 \<Longrightarrow>
    unat (allocated_inode_count (superblock vol1)) + 1 < 2 ^ 64 \<Longrightarrow> valid_utf8 n \<Longrightarrow> kind_ok mk t \<Longrightarrow>
    volume_create_entry mk t rounds fuel D p n vol1 = (r, vol2) \<Longrightarrow> session D valid img rounds fuel vol vol2"
| write_step: "session D valid img rounds fuel vol vol1 \<Longrightarrow> write_allowed D rounds fuel ino off data vol1 \<Longrightarrow>
    volume_write_file_data rounds fuel D ino off data vol1 = (r', vol2) \<Longrightarrow> session D valid img rounds fuel vol vol2"
| unlink_step: "session D valid img rounds fuel vol vol1 \<Longrightarrow> unlink_allowed D rounds vol1 \<Longrightarrow>
    volume_unlink_directory_entry rounds fuel D p n vol1 = (r'', vol2) \<Longrightarrow> session D valid img rounds fuel vol vol2"
| commit_step: "session D valid img rounds fuel vol vol1 \<Longrightarrow> commit_ready D valid img vol1 \<Longrightarrow>
    flush_and_commit D vol1 = (c, vol2) \<Longrightarrow> session D valid img rounds fuel vol vol2"

inductive_cases session_cases: "session D valid img rounds fuel vol vol'"

lemma session_volume_fs:
  assumes "session D valid img rounds fuel vol vol'" "block_store D valid img" "deep fuel" "volume_fs D vol fs" "runs_ok fs"
  shows "\<exists>fs'. volume_fs D vol' fs' \<and> runs_ok fs'"
  using assms(1)
proof (induction rule: session.induct)
  case begin_session
  then show ?case using assms(4,5) by blast
next
  case (create_step vol1 n mk t p r vol2)
  obtain fs1 where v: "volume_fs D vol1 fs1" "runs_ok fs1" using create_step.IH by blast
  from volume_create_total [OF v(1) create_step.hyps(2) assms(3) create_step.hyps(3,5,4,6)] v(2)
  show ?case by (auto simp: runs_ok_def)
next
  case (write_step vol1 ino off data r' vol2)
  obtain fs1 where v: "volume_fs D vol1 fs1" "runs_ok fs1" using write_step.IH by blast
  show ?case by (rule volume_write_total [OF v assms(3) write_step.hyps(2,3)])
next
  case (unlink_step vol1 p n r'' vol2)
  obtain fs1 where v: "volume_fs D vol1 fs1" "runs_ok fs1" using unlink_step.IH by blast
  show ?case by (rule volume_unlink_total [OF v assms(3) unlink_step.hyps(2,3)])
next
  case (commit_step vol1 c vol2)
  obtain fs1 where v: "volume_fs D vol1 fs1" "runs_ok fs1" using commit_step.IH by blast
  have "carries D vol1 vol2 fs1"
    by (rule block_store.flush_keeps [OF assms(2) commit_step.hyps(2,3) v(1)])
  with v(2) show ?case by (auto simp: carries_def)
qed

text \<open>What the invariant says in terms of the operations: a name that lookup finds leads to an inode, with
  the link count of its type.\<close>

lemma lookup_finds_inode:
  assumes "volume_fs D vol fs" "deep fuel" "volume_lookup_directory_entry fuel D vol p n = Ok (Some k)"
  shows "\<exists>inode. volume_read_inode fuel D vol k = Ok inode \<and>
    (is_directory inode \<and> hard_link_count inode = 2 \<or> is_regular_file inode \<and> hard_link_count inode = 1)"
proof -
  have rp: "represents D vol fs" and v: "fs_valid (allocated_inode_count (superblock vol)) fs"
    using assms(1) by (simp_all add: volume_fs_def)
  obtain e where e: "fs_entries fs p n = Some e" "child_inode_number e = k"
    using assms(3) unfolding volume_lookup_fs [OF rp assms(2)] by (auto split: option.splits if_splits)
  then obtain inode where "fs_inodes fs k = Some inode"
      "is_directory inode \<and> hard_link_count inode = 2 \<or> is_regular_file inode \<and> hard_link_count inode = 1"
    using fs_validD(4) [OF v e(1)] by (auto simp: linked_def)
  then show ?thesis using volume_read_inode_fs [OF rp assms(2), of k] by simp
qed

end
