(* ===== verification/Volume_Properties.thy ===== *)
theory Volume_Properties
  imports Volume_Session
begin

text \<open>
  The properties of a volume as a whole, and a small formatted volume on which they are evaluated.
\<close>

section \<open>A small volume\<close>

definition demo_disk :: memory_disk where
  "demo_disk = \<lparr>disk_data = replicate 81920000 0, disk_total_sectors = 160000\<rparr>"

definition demo_device :: memory_disk where
  "demo_device = snd (bafs_format 13 memory_device default_format_options demo_disk)"

definition demo_volume :: "memory_disk bafs_volume" where
  "demo_volume = (case fst (bafs_mount memory_device demo_device) of Ok vol \<Rightarrow> vol | _ \<Rightarrow> mounted demo_disk crash_sb)"

lemma demo_disk: "md_valid demo_disk" "data_area memory_device demo_disk = 259" "large_enough memory_device demo_disk" "total_sector_count memory_device demo_disk div 8 = 20000"
proof -
  show "md_valid demo_disk" by (simp add: md_valid_def demo_disk_def)
  show t: "total_sector_count memory_device demo_disk div 8 = 20000" by (simp add: memory_device_def demo_disk_def)
  show a: "data_area memory_device demo_disk = 259"
    unfolding data_area_def t
    by (simp add: compute_data_area_start_block_def compute_journal_size_in_blocks_def BAFS_JOURNAL_SIZE_MIN_BLOCKS_def
        BAFS_JOURNAL_SIZE_MAX_BLOCKS_def BAFS_JOURNAL_START_BLOCK_ADDRESS_def Let_def)
  show "large_enough memory_device demo_disk" by (simp add: large_enough_def t a)
qed

text \<open>All the units that the address space of the volume holds.\<close>

definition demo_units :: nat where
  "demo_units = 192153584101141157"

lemma demo_format:
  assumes "u \<le> demo_units"
  shows "bafs_format 13 memory_device default_format_options demo_disk = (Ok (), demo_device) \<and>
    bafs_mount memory_device demo_device = (Ok demo_volume, demo_device) \<and>
    volume_fs memory_device demo_volume empty_fs \<and> funds memory_device 100 u demo_volume \<and>
    md_valid demo_device \<and> total_sector_count memory_device demo_device = total_sector_count memory_device demo_disk \<and>
    stable memory_device disk_data demo_device (superblock demo_volume) \<and>
    clean memory_device disk_data demo_device (superblock demo_volume) \<and>
    demo_volume = mounted demo_device (superblock demo_volume) \<and> superblock demo_volume = new_superblock default_format_options 20000"
proof -
  have b: "unat (total_sector_count memory_device demo_disk div 8) + 2 + u < 2 ^ 64" "(0 :: nat) < 13" "(3 :: nat) \<le> 100"
      "data_area memory_device demo_disk + 7 + 96 * (2 + u) < 2 ^ 64"
    using assms by (simp_all add: demo_disk(2,4) demo_units_def)
  obtain d vol where f: "bafs_format 13 memory_device default_format_options demo_disk = (Ok (), d)"
      "bafs_mount memory_device d = (Ok vol, d)" "volume_fs memory_device vol empty_fs" "funds memory_device 100 u vol"
      "md_valid d" "total_sector_count memory_device d = total_sector_count memory_device demo_disk"
      "stable memory_device disk_data d (superblock vol)" "clean memory_device disk_data d (superblock vol)" "vol = mounted d (superblock vol)"
      "superblock vol = new_superblock default_format_options 20000"
    using memory_store.format_and_mount [OF demo_disk(1,3) b(2-4) b(1), of default_format_options]
    unfolding demo_disk(4) by (elim exE conjE)
  have d: "demo_device = d" by (simp add: demo_device_def f(1))
  have v: "demo_volume = vol" by (simp add: demo_volume_def d f(2))
  show ?thesis unfolding d v by (intro conjI f)
qed

lemma demo_volume:
  "bafs_format 13 memory_device default_format_options demo_disk = (Ok (), demo_device)"
  "bafs_mount memory_device demo_device = (Ok demo_volume, demo_device)"
  "volume_fs memory_device demo_volume empty_fs" "md_valid demo_device"
  "stable memory_device disk_data demo_device (superblock demo_volume)" "device demo_volume = demo_device"
  "dirty_block_cache demo_volume = []" "next_transaction_id demo_volume = 2"
  "superblock demo_volume = new_superblock default_format_options 20000"
  "unat (volume_next_free_block demo_volume) = 266" "length (disk_data demo_device) = 81920000"
proof -
  note f = demo_format [OF le0]
  then show "bafs_format 13 memory_device default_format_options demo_disk = (Ok (), demo_device)"
    "bafs_mount memory_device demo_device = (Ok demo_volume, demo_device)"
    "volume_fs memory_device demo_volume empty_fs" "md_valid demo_device"
    "stable memory_device disk_data demo_device (superblock demo_volume)"
    and s: "superblock demo_volume = new_superblock default_format_options 20000" by blast+
  have m: "demo_volume = mounted demo_device (superblock demo_volume)" using f by blast
  then show "device demo_volume = demo_device" "dirty_block_cache demo_volume = []" by (metis mounted_simps)+
  have "next_transaction_id demo_volume = last_committed_transaction_id (superblock demo_volume) + 1"
    "volume_next_free_block demo_volume = next_cow_block_address (superblock demo_volume)" using m by (metis mounted_simps)+
  then show "next_transaction_id demo_volume = 2" "unat (volume_next_free_block demo_volume) = 266"
    by (simp_all add: s compute_data_area_start_block_def compute_journal_size_in_blocks_def BAFS_JOURNAL_SIZE_MIN_BLOCKS_def
        BAFS_JOURNAL_SIZE_MAX_BLOCKS_def BAFS_JOURNAL_START_BLOCK_ADDRESS_def Let_def)
  have "total_sector_count memory_device demo_device = 160000" using f by (simp add: memory_device_def demo_disk_def)
  then show "length (disk_data demo_device) = 81920000" using memory_store.image_size [of demo_device] f by simp
qed

lemma demo_funds: "u \<le> demo_units \<Longrightarrow> funds memory_device 100 u demo_volume"
  using demo_format by blast

lemma deep_13: "deep 13"
  by (simp add: deep_def)

section \<open>Names\<close>

lemma op_step_kept:
  assumes "op_step vol vol'"
  shows "device vol' = device vol" "kept D (device vol) (cow_of [] vol) (device vol') (cow_of [] vol')"
proof -
  obtain c where c: "vol_step (vol\<lparr>superblock := (superblock vol)\<lparr>allocated_inode_count := c\<rparr>\<rparr>) vol'"
    using assms by (auto simp: op_step_def)
  show d: "device vol' = device vol" using vol_step_simps(1) [OF c] by simp
  show "kept D (device vol) (cow_of [] vol) (device vol') (cow_of [] vol')"
    using kept_step [OF vol_step_simps(7) [OF c], of D "device vol"] d by simp
qed

lemma create_keeps_files:
  assumes "op_step vol vol'" "fs_inodes fs k = None" "inode_number inode = k"
    and "file_holds D (device vol) (cow_of [] vol) fs ino bs"
  shows "file_holds D (device vol') (cow_of [] vol') (put_entry p e (put_inode inode fs)) ino bs"
proof -
  have "ino \<noteq> k" using assms(2,4) by (auto simp: file_holds_def)
  then show ?thesis
    using assms(3) by (intro file_holds_frame [OF op_step_kept(2) [OF assms(1)] _ _ _ assms(4)]) simp_all
qed

text \<open>C4: creating a file or a directory. On a volume that holds the file system \<open>fs\<close>, creating a new
  name in a directory returns the number of a new inode and leaves a volume whose file system is \<open>fs\<close>
  with this inode and this entry, and without the other names of the directory that have the same
  hash: a lookup finds the number, the inode reads back as the constructor made it, all other inodes
  and all extents are as before, and every file keeps its content. When no name of the directory has
  the hash of the new one, the entries change by this one entry only.\<close>

theorem volume_create_refines:
  assumes "volume_fs D vol fs" "funds D rounds 130 vol" "deep fuel"
    and "unat (allocated_inode_count (superblock vol)) + 1 < 2 ^ 64" "kind_ok mk t"
    and "fs_inodes fs p = Some d" "is_directory d" "valid_name n" "fs_entries fs p n = None"
  shows "\<exists>k inode fs' vol'. volume_create_entry mk t rounds fuel D p n vol = (Ok k, vol') \<and>
    fs_inodes fs k = None \<and> inode = mk k (next_transaction_id vol) 0 \<and>
    fs' = put_entry p (new_entry k t n) (put_inode inode fs) \<and> volume_fs D vol' fs' \<and>
    fs_inodes fs' = (fs_inodes fs)(k \<mapsto> inode) \<and> fs_extents fs' = fs_extents fs \<and>
    (\<forall>q m. fs_entries fs' q m = (if q = p \<and> m = n then Some (new_entry k t n)
       else if q = p \<and> xxhash64_with_seed_zero m = xxhash64_with_seed_zero n then None else fs_entries fs q m)) \<and>
    ((\<forall>m. fs_entries fs p m \<noteq> None \<longrightarrow> xxhash64_with_seed_zero m \<noteq> xxhash64_with_seed_zero n) \<longrightarrow>
       fs_entries fs' = (fs_entries fs)(p := (fs_entries fs p)(n \<mapsto> new_entry k t n))) \<and>
    volume_lookup_directory_entry fuel D vol' p n = Ok (Some k) \<and> volume_read_inode fuel D vol' k = Ok inode \<and>
    (\<forall>ino bs. file_holds D (device vol) (cow_of [] vol) fs ino bs \<longrightarrow> file_holds D (device vol') (cow_of [] vol') fs' ino bs)"
proof -
  let ?k = "allocated_inode_count (superblock vol) + 1"
  let ?i = "mk ?k (next_transaction_id vol) 0"
  let ?fs = "put_entry p (new_entry ?k t n) (put_inode ?i fs)"
  have f: "funds D rounds (130 + 0) vol" using assms(2) by simp
  have v: "fs_valid (allocated_inode_count (superblock vol)) fs" using assms(1) by (simp add: volume_fs_def)
  note un = fs_valid_unused [OF v assms(4)]
  have ino: "inode_number ?i = ?k" using kind_ok_inode(2) [OF assms(5)] .
  obtain vol' where c: "volume_create_entry mk t rounds fuel D p n vol = (Ok ?k, vol')" "op_step vol vol'" "volume_fs D vol' ?fs"
    using volume_create_fs(1) [OF assms(1) f assms(3-7) refl refl] assms(8,9) by blast
  have r: "represents D vol' ?fs" using c(3) by (simp add: volume_fs_def)
  have "p \<noteq> ?k" using assms(6) un(1) by auto
  then have "volume_lookup_directory_entry fuel D vol' p n = Ok (Some ?k)"
    using assms(6,7) ino by (simp add: volume_lookup_fs [OF r assms(3)] put_entry_entries new_entry_def)
  moreover have "volume_read_inode fuel D vol' ?k = Ok ?i"
    using ino by (simp add: volume_read_inode_fs [OF r assms(3)])
  moreover have "fs_inodes ?fs = (fs_inodes fs)(?k \<mapsto> ?i)" "fs_extents ?fs = fs_extents fs"
    using ino by (simp_all add: put_entry_def put_inode_def)
  moreover have e: "fs_entries ?fs q m = (if q = p \<and> m = n then Some (new_entry ?k t n)
      else if q = p \<and> xxhash64_with_seed_zero m = xxhash64_with_seed_zero n then None else fs_entries fs q m)" for q m
    by (simp add: put_entry_entries)
  moreover have "fs_entries ?fs = (fs_entries fs)(p := (fs_entries fs p)(n \<mapsto> new_entry ?k t n))"
    if h: "\<forall>m. fs_entries fs p m \<noteq> None \<longrightarrow> xxhash64_with_seed_zero m \<noteq> xxhash64_with_seed_zero n"
  proof (rule ext, rule ext)
    fix q m
    show "fs_entries ?fs q m = ((fs_entries fs)(p := (fs_entries fs p)(n \<mapsto> new_entry ?k t n))) q m"
      unfolding e using h by (cases "fs_entries fs p m") auto
  qed
  ultimately show ?thesis
    using c(1,3) un(1) create_keeps_files [OF c(2) un(1) ino]
    by (intro exI [of _ ?k] exI [of _ ?i] exI [of _ ?fs] exI [of _ vol'] conjI allI impI refl) blast+
qed

lemma empty_root: "fs_inodes empty_fs 1 = Some (new_directory 1 1 0)" "is_directory (new_directory 1 1 0)" "fs_entries empty_fs p n = None"
  by (simp_all add: empty_fs_def BAFS_ROOT_INODE_NUMBER_def new_inode_kinds)

theorem volume_create_refines_witness:
  "\<exists>k fs' vol'. volume_create_entry new_regular_file CHILD_TYPE_REGULAR_FILE 100 13 memory_device 1 [97] demo_volume = (Ok k, vol') \<and>
     volume_fs memory_device vol' fs' \<and> volume_lookup_directory_entry 13 memory_device vol' 1 [97] = Ok (Some k)"
proof -
  have k: "kind_ok new_regular_file CHILD_TYPE_REGULAR_FILE" by (simp add: kind_ok_def)
  have n: "valid_name [97]" by code_simp
  have f: "funds memory_device 100 130 demo_volume" by (rule demo_funds) (simp add: demo_units_def)
  have c: "unat (allocated_inode_count (superblock demo_volume)) + 1 < 2 ^ 64" by (simp add: demo_volume(9))
  show ?thesis
    using volume_create_refines [OF demo_volume(3) f deep_13 c k empty_root(1,2) n empty_root(3)] by blast
qed

text \<open>C10: a refused creation leaks an inode. Creating a name that the directory already has, or a name
  that is empty or too long, fails with the right error and leaves every directory as it is; but the
  new inode has already been written: it stays in the tree under the next number, no entry leads to it,
  and the inode counter has advanced.\<close>

theorem volume_create_refused_leaks:
  assumes "volume_fs D vol fs" "funds D rounds 130 vol" "deep fuel"
    and "unat (allocated_inode_count (superblock vol)) + 1 < 2 ^ 64" "kind_ok mk t"
    and "fs_inodes fs p = Some d" "is_directory d" "n = [] \<or> 255 < length n \<or> valid_name n \<and> fs_entries fs p n \<noteq> None"
  shows "\<exists>vol'. volume_create_entry mk t rounds fuel D p n vol =
      (Err (if n = [] \<or> 255 < length n then InvalidArgument else AlreadyExists), vol') \<and>
    (let k = allocated_inode_count (superblock vol) + 1; inode = mk k (next_transaction_id vol) 0 in
       allocated_inode_count (superblock vol') = k \<and> volume_fs D vol' (put_inode inode fs) \<and>
       volume_read_inode fuel D vol' k = Ok inode \<and>
       (\<forall>q m. volume_lookup_directory_entry fuel D vol' q m \<noteq> Ok (Some k)))"
proof -
  let ?k = "allocated_inode_count (superblock vol) + 1"
  let ?i = "mk ?k (next_transaction_id vol) 0"
  have f: "funds D rounds (130 + 0) vol" using assms(2) by simp
  have v: "fs_valid (allocated_inode_count (superblock vol)) fs" using assms(1) by (simp add: volume_fs_def)
  have ino: "inode_number ?i = ?k" using kind_ok_inode(2) [OF assms(5)] .
  obtain vol' where c: "volume_create_entry mk t rounds fuel D p n vol =
        (Err (if n = [] \<or> 255 < length n then InvalidArgument else AlreadyExists), vol')"
      "allocated_inode_count (superblock vol') = ?k" "volume_fs D vol' (put_inode ?i fs)"
    using volume_create_fs(2) [OF assms(1) f assms(3-7) refl refl] assms(8) by blast
  have r: "represents D vol' (put_inode ?i fs)" using c(3) by (simp add: volume_fs_def)
  have "volume_read_inode fuel D vol' ?k = Ok ?i"
    using ino by (simp add: volume_read_inode_fs [OF r assms(3)])
  moreover have "volume_lookup_directory_entry fuel D vol' q m \<noteq> Ok (Some ?k)" for q m
    using fs_valid_unused(4) [OF v assms(4), of q m]
    by (auto simp: volume_lookup_fs [OF r assms(3)] split: option.split)
  ultimately show ?thesis using c by (simp add: Let_def)
qed

theorem volume_create_refused_leaks_witness:
  "\<exists>vol'. volume_create_entry new_directory CHILD_TYPE_DIRECTORY 100 13 memory_device 1 [] demo_volume = (Err InvalidArgument, vol') \<and>
     volume_read_inode 13 memory_device vol' 2 = Ok (new_directory 2 2 0)"
proof -
  have k: "kind_ok new_directory CHILD_TYPE_DIRECTORY" by (simp add: kind_ok_def)
  have f: "funds memory_device 100 130 demo_volume" by (rule demo_funds) (simp add: demo_units_def)
  have c: "unat (allocated_inode_count (superblock demo_volume)) + 1 < 2 ^ 64" by (simp add: demo_volume(9))
  have n: "([] :: bytes) = [] \<or> 255 < length ([] :: bytes) \<or> valid_name [] \<and> fs_entries empty_fs 1 [] \<noteq> None" by simp
  show ?thesis
    using volume_create_refused_leaks [OF demo_volume(3) f deep_13 c k empty_root(1,2) n]
    by (auto simp: Let_def demo_volume(8,9))
qed

section \<open>File data\<close>

text \<open>C3: what is written is read back. Appending to a file whose content \<open>bs\<close> ends at a block boundary
  (a new file in particular) writes all the data; afterwards every read of the file, at any offset and
  with any buffer, returns the corresponding bytes of \<open>bs\<close> followed by the data, and every other file
  keeps its content.\<close>

theorem volume_write_then_read:
  assumes "volume_fs D vol fs" "funds D rounds (66 * blocks_of data + 130) vol" "deep fuel"
    and "file_holds D (device vol) (cow_of [] vol) fs ino bs" "4096 dvd length bs" "data \<noteq> []"
    and "length bs + length data + 4096 < 2 ^ 64"
    and "fs_inodes fs ino = Some inode" "unat (allocated_block_count inode) + blocks_of data < 2 ^ 64"
    and "unat (volume_next_free_block vol) + blocks_of data \<le> unat (total_block_count (superblock vol))"
  shows "\<exists>vol' fs'. volume_write_file_data rounds fuel D ino (of_nat (length bs)) data vol = (Ok (length data), vol') \<and>
    volume_fs D vol' fs' \<and>
    (\<forall>off buf m. length buf < 2 ^ 64 \<and> m = min (length buf) (length (bs @ data) - unat off) \<longrightarrow>
       volume_read_file_data fuel D vol' ino off buf = (Ok m, write_slice buf 0 (slice (unat off) (unat off + m) (bs @ data)))) \<and>
    (\<forall>i cs. i \<noteq> ino \<and> file_holds D (device vol) (cow_of [] vol) fs i cs \<longrightarrow>
       file_holds D (device vol') (cow_of [] vol') fs' i cs)"
proof -
  let ?off = "of_nat (length bs) :: u64"
  let ?fs = "write_spec ino ?off data (volume_next_free_block vol) (next_transaction_id vol) inode fs"
  have u: "unat ?off = length bs" using assms(7) by (simp add: unat_of_nat)
  have reg: "is_regular_file inode" using assms(4,8) by (auto simp: file_holds_def)
  have v: "fs_valid (allocated_inode_count (superblock vol)) fs" using assms(1) by (simp add: volume_fs_def)
  have num: "inode_number inode = ino" using fs_validD(2) [OF v assms(8)] by simp
  have f: "funds D rounds (66 * blocks_of data + 130 + 0) vol" using assms(2) by simp
  have b: "unat ?off + length data + 4096 < 2 ^ 64" using assms(7) u by simp
  obtain vol' where w: "volume_write_file_data rounds fuel D ino ?off data vol = (Ok (length data), vol')" "volume_fs D vol' ?fs"
      "blocks_at D vol' ?fs data (volume_next_free_block vol)" "vol_step vol vol'"
    using volume_write_fs [OF assms(1) f assms(3,8) reg assms(6) b assms(9,10) refl] by blast
  have h: "file_holds D (device vol') (cow_of [] vol') ?fs ino (bs @ data)"
    by (rule write_appends [OF w(4,3) refl assms(8) num reg assms(4) u assms(5) b])
  have r: "represents D vol' ?fs" using w(2) by (simp add: volume_fs_def)
  show ?thesis
    using w(1,2) volume_read_fs [OF r assms(3) h] write_keeps_others [OF w(4) _ num]
    by (intro exI [of _ vol'] exI [of _ ?fs] conjI) blast+
qed

lemma demo_file:
  assumes "u + 130 \<le> demo_units"
  shows "\<exists>fs vol. volume_create_file 100 13 memory_device 1 [97] demo_volume = (Ok 2, vol) \<and>
    volume_fs memory_device vol fs \<and> funds memory_device 100 u vol \<and> runs_ok fs \<and>
    fs_entries fs 1 [97] = Some (new_entry 2 CHILD_TYPE_REGULAR_FILE [97]) \<and>
    fs_inodes fs 2 = Some (new_regular_file 2 2 0) \<and> fs_extents fs 2 = {} \<and> total_block_count (superblock vol) = 20000"
proof -
  have k: "kind_ok new_regular_file CHILD_TYPE_REGULAR_FILE" by (simp add: kind_ok_def)
  have n: "valid_name [97]" by code_simp
  have f: "funds memory_device 100 (130 + u) demo_volume" using assms by (intro demo_funds) simp
  have c: "unat (allocated_inode_count (superblock demo_volume)) + 1 < 2 ^ 64" by (simp add: demo_volume(9))
  let ?fs = "put_entry 1 (new_entry 2 CHILD_TYPE_REGULAR_FILE [97]) (put_inode (new_regular_file 2 2 0) empty_fs)"
  obtain vol where v: "volume_create_file 100 13 memory_device 1 [97] demo_volume = (Ok 2, vol)" "op_step demo_volume vol"
      "funds memory_device 100 u vol" "volume_fs memory_device vol ?fs"
    using volume_create_fs(1) [OF demo_volume(3) f deep_13 c k empty_root(1,2) refl refl, of "[97]"] n empty_root(3)
    by (auto simp: volume_create_file_def demo_volume(8,9))
  have "total_block_count (superblock vol) = 20000"
    using v(2) vol_step_simps(5) by (force simp: op_step_def demo_volume(9))
  then show ?thesis
    using v by (intro exI [of _ ?fs] exI [of _ vol]) (simp add: put_entry_entries new_entry_def runs_ok_def empty_fs_def)
qed

theorem volume_write_then_read_witness:
  "\<exists>vol vol'. volume_create_file 100 13 memory_device 1 [97] demo_volume = (Ok 2, vol) \<and>
     volume_write_file_data 100 13 memory_device 2 0 [104, 105] vol = (Ok 2, vol') \<and>
     volume_read_file_data 13 memory_device vol' 2 0 [0, 0] = (Ok 2, [104, 105])"
proof -
  have le: "demo_units - 130 + 130 \<le> demo_units" by (simp add: demo_units_def)
  obtain fs vol where v: "volume_create_file 100 13 memory_device 1 [97] demo_volume = (Ok 2, vol)"
      "volume_fs memory_device vol fs" "funds memory_device 100 (demo_units - 130) vol" "fs_inodes fs 2 = Some (new_regular_file 2 2 0)"
      "fs_extents fs 2 = {}" "total_block_count (superblock vol) = 20000"
    using demo_file [OF le] by blast
  have n: "blocks_of [104, 105] = 1" by (simp add: blocks_of_def)
  have f: "funds memory_device 100 (66 * blocks_of [104, 105] + 130) vol"
    by (rule funds_mono [OF v(3)]) (simp add: n demo_units_def)
  have h: "file_holds memory_device (device vol) (cow_of [] vol) fs 2 []" by (rule new_file_empty [OF v(4,5)])
  have "unat (volume_next_free_block vol) + blocks_of [104, 105] \<le> unat (total_block_count (superblock vol))"
    using v(3) by (auto simp: funds_def demo_units_def n v(6))
  with volume_write_then_read [OF v(2) f deep_13 h _ _ _ v(4)]
  obtain vol' where w: "volume_write_file_data 100 13 memory_device 2 0 [104, 105] vol = (Ok (Suc (Suc 0)), vol')"
      "\<forall>off buf m. length buf < 2 ^ 64 \<and> m = min (length buf) (Suc (Suc 0) - unat off) \<longrightarrow>
         volume_read_file_data 13 memory_device vol' 2 off buf = (Ok m, write_slice buf 0 (slice (unat off) (unat off + m) [104, 105]))"
    by (auto simp: n new_regular_file_def)
  have "volume_read_file_data 13 memory_device vol' 2 0 [0, 0] = (Ok 2, [104, 105])"
    using w(2) [rule_format, of "[0, 0]" "Suc (Suc 0)" 0] by (simp add: write_slice_def slice_def)
  with v(1) w(1) show ?thesis by (auto simp: numeral_2_eq_2)
qed

section \<open>Removal\<close>

text \<open>C5: removing a name. The operation succeeds; the name is gone; a regular file is released with its
  extents and its inode, a directory keeps its inode with a link count of one, whether it is empty or
  not; the entries and files that remain are the same, with the same content. A name that the directory
  does not have is refused and nothing changes.\<close>

theorem volume_unlink_refines:
  assumes "volume_fs D vol fs" "deep fuel" "runs_ok fs"
    and "\<forall>e inode. fs_entries fs p n = Some e \<and> fs_inodes fs (child_inode_number e) = Some inode \<longrightarrow>
      funds D rounds (unlink_cost (child_inode_number e) inode fs) vol"
  shows "case fs_entries fs p n of
      None \<Rightarrow> volume_unlink_directory_entry rounds fuel D p n vol = (Err NotFound, vol)
    | Some e \<Rightarrow> \<exists>vol' inode. volume_unlink_directory_entry rounds fuel D p n vol = (Ok (), vol') \<and>
        fs_inodes fs (child_inode_number e) = Some inode \<and>
        volume_fs D vol' (unlink_spec p n (child_inode_number e) inode fs) \<and>
        volume_lookup_directory_entry fuel D vol' p n = Ok None \<and>
        volume_read_inode fuel D vol' (child_inode_number e) =
          (if is_regular_file inode then Err NotFound else Ok (inode\<lparr>hard_link_count := 1\<rparr>)) \<and>
        (\<forall>ino bs. ino \<noteq> child_inode_number e \<and> file_holds D (device vol) (cow_of [] vol) fs ino bs \<longrightarrow>
           file_holds D (device vol') (cow_of [] vol') (unlink_spec p n (child_inode_number e) inode fs) ino bs)"
proof (cases "fs_entries fs p n")
  case None
  have "represents D vol fs" using assms(1) by (simp add: volume_fs_def)
  with None show ?thesis using volume_unlink_missing [OF _ assms(2)] by simp
next
  case (Some e)
  let ?k = "child_inode_number e"
  have v: "fs_valid (allocated_inode_count (superblock vol)) fs" using assms(1) by (simp add: volume_fs_def)
  obtain inode where i: "fs_inodes fs ?k = Some inode"
    using fs_validD(4) [OF v Some] by (auto simp: linked_def)
  obtain d where d: "fs_inodes fs p = Some d" "is_directory d" using fs_validD(4) [OF v Some] by blast
  have num: "inode_number inode = ?k" using fs_validD(2) [OF v i] by simp
  have "funds D rounds (unlink_cost ?k inode fs + 0) vol" using assms(4) Some i by simp
  from volume_unlink_fs [OF assms(1-3) Some refl i this] obtain vol' where
    u: "volume_unlink_directory_entry rounds fuel D p n vol = (Ok (), vol')" "vol_step vol vol'"
      "volume_fs D vol' (unlink_spec p n ?k inode fs)" by blast
  have r: "represents D vol' (unlink_spec p n ?k inode fs)" using u(3) by (simp add: volume_fs_def)
  have "\<exists>d'. fs_inodes (unlink_spec p n ?k inode fs) p = Some d' \<and> is_directory d'"
    using d i num file_not_directory by (cases "p = ?k") (auto simp: unlink_spec_def is_directory_def)
  then have "volume_lookup_directory_entry fuel D vol' p n = Ok None"
    by (auto simp: volume_lookup_fs [OF r assms(2)]) (simp_all add: unlink_spec_def)
  moreover have "volume_read_inode fuel D vol' ?k = (if is_regular_file inode then Err NotFound else Ok (inode\<lparr>hard_link_count := 1\<rparr>))"
    using num by (simp add: volume_read_inode_fs [OF r assms(2)]) (simp add: unlink_spec_def)
  ultimately show ?thesis
    using u(1,3) i unlink_keeps_others [OF u(2) _ num] Some by auto
qed

theorem volume_unlink_refines_witness:
  "\<exists>vol vol'. volume_create_file 100 13 memory_device 1 [97] demo_volume = (Ok 2, vol) \<and>
     volume_unlink_directory_entry 100 13 memory_device 1 [97] vol = (Ok (), vol') \<and>
     volume_lookup_directory_entry 13 memory_device vol' 1 [97] = Ok None \<and>
     volume_read_inode 13 memory_device vol' 2 = Err NotFound"
proof -
  have le: "131 + 130 \<le> demo_units" by (simp add: demo_units_def)
  obtain fs vol where v: "volume_create_file 100 13 memory_device 1 [97] demo_volume = (Ok 2, vol)"
      "volume_fs memory_device vol fs" "funds memory_device 100 131 vol" "runs_ok fs"
      "fs_entries fs 1 [97] = Some (new_entry 2 CHILD_TYPE_REGULAR_FILE [97])"
      "fs_inodes fs 2 = Some (new_regular_file 2 2 0)" "fs_extents fs 2 = {}"
    using demo_file [OF le] by blast
  have e: "child_inode_number (new_entry 2 CHILD_TYPE_REGULAR_FILE [97]) = 2" by (simp add: new_entry_def)
  have "unlink_cost 2 (new_regular_file 2 2 0) fs = 131" by (simp add: unlink_cost_def v(7) new_regular_file_def)
  then have "\<forall>e inode. fs_entries fs 1 [97] = Some e \<and> fs_inodes fs (child_inode_number e) = Some inode \<longrightarrow>
      funds memory_device 100 (unlink_cost (child_inode_number e) inode fs) vol"
    using v(3,5,6) e by auto
  from volume_unlink_refines [OF v(2) deep_13 v(4) this] v(1,5,6) e show ?thesis
    by (auto simp: new_inode_kinds)
qed

section \<open>Freed blocks\<close>

lemma return_freed_rounds:
  assumes "return_freed_cow_blocks_to_free_extent_tree rounds fuel D freed vol = (Ok (), vol')"
  shows "return_freed_cow_blocks_to_free_extent_tree (rounds + k) fuel D freed vol = (Ok (), vol')"
  using assms
proof (induction rounds arbitrary: freed vol)
  case 0
  then show ?case by (cases k) (auto split: if_splits)
next
  case (Suc rounds)
  then show ?case by (auto simp: bindS_eq_Ok split: if_splits)
qed

text \<open>C9: returning the freed blocks ends. Every block that goes back to the free tree changes the free
  tree, which frees blocks of its own; the recursion on these ends after at most two rounds more than
  the free tree has committed blocks. It succeeds, its result does not depend on the bound, and it leaves
  the file system as it is.\<close>

theorem return_freed_terminates:
  assumes "funds D rounds (length freed) vol" "deep fuel"
  shows "\<exists>vol'. (\<forall>k. return_freed_cow_blocks_to_free_extent_tree (rounds + k) fuel D freed vol = (Ok (), vol')) \<and>
    (\<forall>fs. represents D vol fs \<longrightarrow> represents D vol' fs) \<and> funds D rounds 0 vol'"
proof -
  have f: "funds D rounds (length freed + 0) vol" using assms(1) by simp
  obtain vol' where r: "return_freed_cow_blocks_to_free_extent_tree rounds fuel D freed vol = (Ok (), vol')"
      "pool_step vol vol'" "funds D rounds 0 vol'"
    using return_freed_funds [OF f assms(2)] by blast
  then show ?thesis
    using return_freed_rounds [OF r(1)] pool_step_represents [OF r(2)] by blast
qed

theorem return_freed_terminates_witness:
  "\<exists>vol'. return_freed_cow_blocks_to_free_extent_tree 100 13 memory_device [260, 261] demo_volume = (Ok (), vol') \<and>
     represents memory_device vol' empty_fs"
proof -
  have f: "funds memory_device 100 (length [260, 261 :: u64]) demo_volume" by (rule demo_funds) (simp add: demo_units_def)
  have r: "represents memory_device demo_volume empty_fs" using demo_volume(3) by (simp add: volume_fs_def)
  show ?thesis
    using return_freed_terminates [OF f deep_13] r by (metis add_0_right)
qed

section \<open>Format, commit and mount\<close>

text \<open>C6: a new volume can be mounted and is empty. On a device that takes all writes and has at least
  thirteen blocks after the journal, formatting succeeds and the mount after it succeeds; the volume
  holds the file system with nothing but the root directory: no name is found in it, and creating and
  writing can start (as many units of address space are at hand as the addresses above the seven blocks
  that the format takes). On a smaller device the format refuses and writes nothing.\<close>

theorem format_then_mount:
  fixes img :: "'d \<Rightarrow> bytes"
  assumes "reliable_store D valid img" "valid d" "0 < fuel" "deep fuel'" "3 \<le> rounds"
    and "data_area D d + 7 + 96 * (2 + u) < 2 ^ 64" "unat (total_sector_count D d div 8) + 2 + u < 2 ^ 64"
  shows "if large_enough D d
    then \<exists>d' vol. bafs_format fuel D options d = (Ok (), d') \<and> bafs_mount D d' = (Ok vol, d') \<and>
      volume_fs D vol empty_fs \<and> funds D rounds u vol \<and>
      volume_read_inode fuel' D vol (root_inode_number (superblock vol)) = Ok (new_directory 1 1 0) \<and>
      (\<forall>n. volume_lookup_directory_entry fuel' D vol 1 n = Ok None)
    else bafs_format fuel D options d = (Err OutOfSpace, d)"
proof (cases "large_enough D d")
  case True
  obtain d' vol where f: "bafs_format fuel D options d = (Ok (), d')" "bafs_mount D d' = (Ok vol, d')" "volume_fs D vol empty_fs"
      "funds D rounds u vol" "superblock vol = new_superblock options (total_sector_count D d div 8)"
    using reliable_store.format_and_mount [OF assms(1,2) True assms(3,5-7)] by blast
  have r: "represents D vol empty_fs" using f(3) by (simp add: volume_fs_def)
  have "volume_read_inode fuel' D vol (root_inode_number (superblock vol)) = Ok (new_directory 1 1 0)"
    by (simp add: f(5) volume_read_inode_fs [OF r assms(4)] empty_fs_def BAFS_ROOT_INODE_NUMBER_def)
  moreover have "volume_lookup_directory_entry fuel' D vol 1 n = Ok None" for n
    by (simp add: volume_lookup_fs [OF r assms(4)] empty_root)
  ultimately show ?thesis using True f(1-4) by auto
next
  case False
  then show ?thesis using format_small_device by simp
qed

theorem format_then_mount_witness:
  "\<exists>d' vol. bafs_format 13 memory_device default_format_options demo_disk = (Ok (), d') \<and>
     bafs_mount memory_device d' = (Ok vol, d') \<and> volume_fs memory_device vol empty_fs"
proof -
  have b: "data_area memory_device demo_disk + 7 + 96 * (2 + 1000) < 2 ^ 64"
      "unat (total_sector_count memory_device demo_disk div 8) + 2 + 1000 < 2 ^ 64"
    by (simp_all add: demo_disk(2,4))
  have n: "(0 :: nat) < 13" "(3 :: nat) \<le> 3" by simp_all
  show ?thesis
    using format_then_mount [OF memory_store.reliable_store_axioms demo_disk(1) n(1) deep_13 n(2) b, of default_format_options] demo_disk(3) by auto
qed

text \<open>C2: a commit of a volume is atomic, on a device whose failing writes have no effect. Let the transaction fit the device: between one and 509 dirty
  blocks, all at or above the bump pointer of the last commit, these blocks and the present bump
  pointer inside the device, and the record no larger than the journal. Whatever write of \<open>flush_and_commit\<close> fails, and after any number
  of recoveries that may fail as well, a mount that succeeds finds either the committed file system with
  all its files, when the commit reported success, or the file system of the last commit with all its
  files, when it reported an error.\<close>

theorem flush_crash_safe:
  fixes img :: "'d \<Rightarrow> bytes"
  assumes "block_store D valid img" "valid (device vol)" "stable D img (device vol) sb"
    and fits: "transaction_fits (img (device vol)) sb (commit_superblock vol) (dirty_block_cache vol)"
      "length (dirty_block_cache vol) \<le> 509"
    and run: "unat (next_transaction_id vol) + 1 < 2 ^ 64" "flush_and_commit D vol = (r, vol1)"
      "recovery_attempts D (device vol1) d2" "bafs_mount D d2 = (Ok vol2, d3)"
      "volume_fs D vol fs" "volume_fs D (mounted (device vol) sb) fs0"
  shows "r = Ok () \<and> carries D vol vol2 fs \<or> r = Err InputOutputError \<and> carries D (mounted (device vol) sb) vol2 fs0"
proof -
  have "transaction_ok (img (device vol)) sb (commit_superblock vol) (dirty_block_cache vol)"
    using fits by (simp add: transaction_ok_def)
  from block_store.flush_then_recover [OF assms(1-3) this run] show ?thesis .
qed

text \<open>C7: commit and mount on a device that takes all writes. Let a volume hold uncommitted work inside
  the device (any number of dirty blocks below \<open>2\<^sup>3\<^sup>2\<close>, also none). If the record fits the journal, the
  commit succeeds, and a mount after it succeeds and returns the very volume with which the session goes
  on: the same file system, every file with its content, an empty cache and the next transaction id.
  Otherwise the commit reports \<open>OutOfSpace\<close>, with the device untouched and the same file system,
  files and dirty blocks in memory.\<close>

theorem flush_then_mount:
  fixes img :: "'d \<Rightarrow> bytes"
  assumes "reliable_store D valid img" "valid (device vol)" "pending D img sb vol" "volume_fs D vol fs"
  shows "if 28 + 4104 * length (dirty_block_cache vol) \<le> 4096 * unat (journal_size_in_blocks sb)
    then \<exists>vol1. flush_and_commit D vol = (Ok (), vol1) \<and> bafs_mount D (device vol1) = (Ok vol1, device vol1) \<and>
      carries D vol vol1 fs \<and> dirty_block_cache vol1 = [] \<and> next_transaction_id vol1 = next_transaction_id vol + 1
    else \<exists>vol1. flush_and_commit D vol = (Err OutOfSpace, vol1) \<and> device vol1 = device vol \<and>
      dirty_block_cache vol1 = dirty_block_cache vol \<and> carries D vol vol1 fs"
proof (cases "28 + 4104 * length (dirty_block_cache vol) \<le> 4096 * unat (journal_size_in_blocks sb)")
  case True
  then obtain vol1 where "flush_and_commit D vol = (Ok (), vol1)" "bafs_mount D (device vol1) = (Ok vol1, device vol1)"
      "carries D vol vol1 fs" and m: "vol1 = mounted (device vol1) (superblock vol1)"
      "last_committed_transaction_id (superblock vol1) = next_transaction_id vol"
    using reliable_store.pending_flush [OF assms] by blast
  moreover have "dirty_block_cache vol1 = []" "next_transaction_id vol1 = next_transaction_id vol + 1"
    using m by (metis mounted_simps(3)) (metis m mounted_simps(4))
  ultimately show ?thesis using True by simp
next
  case False
  then have "4096 * unat (journal_size_in_blocks sb) < 28 + 4104 * length (dirty_block_cache vol)" by simp
  from reliable_store.pending_too_large [OF assms this] False show ?thesis by simp
qed

text \<open>The small volume with one dirty block above its bump pointer.\<close>

definition demo_pending :: "memory_disk bafs_volume" where
  "demo_pending = demo_volume\<lparr>dirty_block_cache := [(266, replicate 4096 0)], volume_next_free_block := 267\<rparr>"

lemma demo_pending_simps:
  "device demo_pending = demo_device" "superblock demo_pending = superblock demo_volume"
  "dirty_block_cache demo_pending = [(266, replicate 4096 0)]" "next_transaction_id demo_pending = 2"
  by (simp_all add: demo_pending_def demo_volume(6,8))

lemma demo_pending_fs: "volume_fs memory_device demo_pending empty_fs"
proof -
  have "read_block memory_device demo_device [(266, replicate 4096 0)] a = read_block memory_device demo_device [] a" if "unat a < 266" for a
    using that by (auto simp: read_block_def)
  then have "kept memory_device (device demo_volume) (cow_of [] demo_volume) (device demo_pending) (cow_of [] demo_pending)"
    by (simp add: kept_def cow_of_def demo_pending_simps demo_volume(6,7,10)) (simp add: demo_pending_def)
  from represents_kept [OF _ this] demo_volume(3) show ?thesis by (simp add: volume_fs_def demo_pending_simps(2))
qed

lemma demo_transaction:
  "transaction_ok (disk_data (device demo_pending)) (superblock demo_volume) (commit_superblock demo_pending) (dirty_block_cache demo_pending)"
proof -
  have n: "next_cow_block_address (superblock demo_volume) = 266" "journal_size_in_blocks (superblock demo_volume) = 256"
    by (simp_all add: demo_volume(9) compute_data_area_start_block_def compute_journal_size_in_blocks_def BAFS_JOURNAL_SIZE_MIN_BLOCKS_def
        BAFS_JOURNAL_SIZE_MAX_BLOCKS_def BAFS_JOURNAL_START_BLOCK_ADDRESS_def Let_def)
  have "acceptable_superblock (superblock demo_volume)" by (simp add: demo_volume(9))
  then have "acceptable_superblock (commit_superblock demo_pending)"
    by (simp add: commit_superblock_def demo_pending_simps acceptable_superblock_def wf_superblock_def)
  then show ?thesis
    using n demo_volume(11)
    by (simp add: transaction_ok_def transaction_fits_def commitable_def blocks_fit_def block_in_image_def cache_ok_def demo_pending_simps)
      (simp add: commit_superblock_def demo_pending_def)
qed

lemma demo_transaction_fits:
  "transaction_fits (disk_data (device demo_pending)) (superblock demo_volume) (commit_superblock demo_pending) (dirty_block_cache demo_pending)"
  using demo_transaction by (simp add: transaction_ok_def)

theorem flush_crash_safe_witness:
  "\<exists>r vol1 vol2. flush_and_commit memory_device demo_pending = (r, vol1) \<and> bafs_mount memory_device (device vol1) = (Ok vol2, device vol1) \<and>
     (r = Ok () \<or> r = Err InputOutputError) \<and> volume_fs memory_device vol2 empty_fs"
proof -
  have t: "unat (next_transaction_id demo_pending) + 1 < 2 ^ 64" by (simp add: demo_pending_simps)
  have dv: "md_valid (device demo_pending)" "stable memory_device disk_data (device demo_pending) (superblock demo_volume)"
    using demo_volume(4,5) by (simp_all add: demo_pending_simps)
  have old: "volume_fs memory_device (mounted (device demo_pending) (superblock demo_volume)) empty_fs"
    using demo_volume(3) by (simp add: volume_fs_def represents_def trees_of_def demo_pending_simps demo_volume(6,7))
      (metis cow_of_def demo_format le0 mounted_simps(1,3,5,6))
  obtain vol1 where m: "flush_and_commit memory_device demo_pending = (Ok (), vol1)"
      "bafs_mount memory_device (device vol1) = (Ok vol1, device vol1)"
    using memory_store.flush_and_mount [OF dv demo_transaction_fits t demo_pending_fs] by blast
  have "length (dirty_block_cache demo_pending) \<le> 509" by (simp add: demo_pending_simps)
  from flush_crash_safe [OF memory_store.block_store_axioms dv demo_transaction_fits this t m(1) no_attempt m(2) demo_pending_fs old] m
  show ?thesis unfolding carries_def by blast
qed

lemma demo_pending: "pending memory_device disk_data (superblock demo_volume) demo_pending"
proof -
  have n: "next_cow_block_address (superblock demo_volume) = 266" "last_committed_transaction_id (superblock demo_volume) = 1"
    by (simp_all add: demo_volume(9) compute_data_area_start_block_def compute_journal_size_in_blocks_def BAFS_JOURNAL_SIZE_MIN_BLOCKS_def
        BAFS_JOURNAL_SIZE_MAX_BLOCKS_def BAFS_JOURNAL_START_BLOCK_ADDRESS_def Let_def)
  have "clean memory_device disk_data demo_device (superblock demo_volume)" using demo_format [OF le0] by blast
  moreover have "acceptable_superblock (superblock demo_volume)" by (simp add: demo_volume(9))
  moreover have "unat (volume_next_free_block demo_pending) = 267" by (simp add: demo_pending_def)
  ultimately show ?thesis
    using n demo_volume(11) by (simp add: pending_def demo_pending_simps cache_ok_def)
qed

theorem flush_then_mount_witness:
  "\<exists>vol1. flush_and_commit memory_device demo_pending = (Ok (), vol1) \<and> bafs_mount memory_device (device vol1) = (Ok vol1, device vol1) \<and>
     volume_fs memory_device vol1 empty_fs"
proof -
  have v: "md_valid (device demo_pending)" using demo_volume(4) by (simp add: demo_pending_simps)
  have j: "unat (journal_size_in_blocks (superblock demo_volume)) = 256"
    by (simp add: demo_volume(9) compute_journal_size_in_blocks_def BAFS_JOURNAL_SIZE_MIN_BLOCKS_def
        BAFS_JOURNAL_SIZE_MAX_BLOCKS_def Let_def)
  have c: "length (dirty_block_cache demo_pending) = 1" by (simp add: demo_pending_simps)
  from flush_then_mount [OF memory_store.reliable_store_axioms v demo_pending demo_pending_fs]
  show ?thesis unfolding carries_def by (simp add: j c) blast
qed

section \<open>Sessions\<close>

text \<open>C1: consistency is an invariant of every session. After any sequence of creations, writes,
  removals and commits, with any arguments and whether they succeed or fail (a commit also when one of
  its writes fails or its record is too large for the journal), the volume holds a consistent file
  system; in particular every name that a lookup finds leads to an inode that can be read and that has
  the link count of its type. Before each step the session asks for room: address space for an
  operation, and for a commit that the dirty blocks and the bump pointer lie inside the device.\<close>

theorem session_consistent:
  fixes img :: "'d \<Rightarrow> bytes"
  assumes "block_store D valid img" "deep fuel" "volume_fs D vol fs" "runs_ok fs" "session D valid img rounds fuel vol vol'"
  shows "(\<exists>fs'. volume_fs D vol' fs' \<and> runs_ok fs') \<and>
    (\<forall>p n k. volume_lookup_directory_entry fuel D vol' p n = Ok (Some k) \<longrightarrow>
      (\<exists>inode. volume_read_inode fuel D vol' k = Ok inode \<and>
         (is_directory inode \<and> hard_link_count inode = 2 \<or> is_regular_file inode \<and> hard_link_count inode = 1)))"
proof -
  obtain fs' where "volume_fs D vol' fs'" "runs_ok fs'"
    using session_volume_fs [OF assms(5,1-4)] by blast
  then show ?thesis using lookup_finds_inode [OF _ assms(2)] by blast
qed

theorem session_consistent_witness:
  "\<exists>vol. session memory_device md_valid disk_data 100 13 demo_volume vol \<and>
     volume_lookup_directory_entry 13 memory_device vol 1 [97] = Ok (Some 2) \<and>
     (\<exists>inode. volume_read_inode 13 memory_device vol 2 = Ok inode \<and>
       (is_directory inode \<and> hard_link_count inode = 2 \<or> is_regular_file inode \<and> hard_link_count inode = 1))"
proof -
  have le: "0 + 130 \<le> demo_units" by (simp add: demo_units_def)
  obtain fs vol where v: "volume_create_file 100 13 memory_device 1 [97] demo_volume = (Ok 2, vol)"
      "volume_fs memory_device vol fs" "fs_entries fs 1 [97] = Some (new_entry 2 CHILD_TYPE_REGULAR_FILE [97])"
    using demo_file [OF le] by blast
  have s: "session memory_device md_valid disk_data 100 13 demo_volume vol"
  proof (rule create_step [OF begin_session])
    show "funds memory_device 100 130 demo_volume" by (rule demo_funds) (simp add: demo_units_def)
    show "unat (allocated_inode_count (superblock demo_volume)) + 1 < 2 ^ 64" by (simp add: demo_volume(9))
    show "valid_utf8 [97]" by code_simp
    show "kind_ok new_regular_file CHILD_TYPE_REGULAR_FILE" by (simp add: kind_ok_def)
    show "volume_create_entry new_regular_file CHILD_TYPE_REGULAR_FILE 100 13 memory_device 1 [97] demo_volume = (Ok 2, vol)"
      using v(1) by (simp add: volume_create_file_def)
  qed
  have r: "represents memory_device vol fs" "fs_valid (allocated_inode_count (superblock vol)) fs"
    using v(2) by (simp_all add: volume_fs_def)
  obtain d where "fs_inodes fs 1 = Some d" "is_directory d" using fs_validD(4) [OF r(2) v(3)] by blast
  then have l: "volume_lookup_directory_entry 13 memory_device vol 1 [97] = Ok (Some 2)"
    by (simp add: volume_lookup_fs [OF r(1) deep_13] v(3) new_entry_def)
  have "runs_ok empty_fs" by (simp add: runs_ok_def empty_fs_def)
  from session_consistent [OF memory_store.block_store_axioms deep_13 demo_volume(3) this s] s l show ?thesis by blast
qed

end
