(* ===== verification/Kernel_Vfs.thy ===== *)
theory Kernel_Vfs
  imports Volume_Properties
begin

text \<open>
  The kernel's view of a volume (\<open>kernel.rs\<close>): the methods of the VFS inode, their error codes and the
  kernel's mount.

  All inodes of one mount share one handle to the volume, so the volume is the state of every method and
  an inode is its number; the kernel is single-threaded, so the methods run one after the other. A method
  that returns no \<open>Result\<close> can still panic, which the results here keep.
\<close>

section \<open>The shim types\<close>

datatype inode_type = RegularFile | Directory | CharDevice | Fifo | Symlink

record inode_stat =
  stat_inode_number :: u64
  stat_size :: u64
  stat_mode :: u64
  stat_nlinks :: u64

definition inode_stat_regular :: "u64 \<Rightarrow> u64 \<Rightarrow> inode_stat" where
  "inode_stat_regular number bytes_long =
     \<lparr>stat_inode_number = number, stat_size = bytes_long, stat_mode = ucast (INODE_MODE_REGULAR_FILE OR 0x1A4), stat_nlinks = 1\<rparr>"

definition inode_stat_directory :: "u64 \<Rightarrow> inode_stat" where
  "inode_stat_directory number =
     \<lparr>stat_inode_number = number, stat_size = 0, stat_mode = ucast (INODE_MODE_DIRECTORY OR 0x1ED), stat_nlinks = 2\<rparr>"

record dir_entry =
  entry_name :: bytes
  entry_inode_type :: inode_type
  entry_inode_number :: u64

datatype fs_error =
    FsNotSupported
  | FsNotFound
  | FsNotDirectory
  | FsAlreadyExists
  | FsDirectoryNotEmpty
  | FsOutOfMemory
  | FsIoError
  | FsPermissionDenied
  | FsBrokenPipe
  | FsWouldBlock
  | FsTooManyLinks
  | FsInvalidArgument

fun to_errno :: "fs_error \<Rightarrow> int" where
  "to_errno FsNotSupported = - 38"
| "to_errno FsNotFound = - 2"
| "to_errno FsNotDirectory = - 20"
| "to_errno FsAlreadyExists = - 17"
| "to_errno FsDirectoryNotEmpty = - 39"
| "to_errno FsOutOfMemory = - 12"
| "to_errno FsIoError = - 5"
| "to_errno FsPermissionDenied = - 13"
| "to_errno FsBrokenPipe = - 32"
| "to_errno FsWouldBlock = - 11"
| "to_errno FsTooManyLinks = - 31"
| "to_errno FsInvalidArgument = - 22"

fun map_bafs_error_to_fs_error :: "bafs_error \<Rightarrow> fs_error" where
  "map_bafs_error_to_fs_error NotFound = FsNotFound"
| "map_bafs_error_to_fs_error AlreadyExists = FsAlreadyExists"
| "map_bafs_error_to_fs_error NotADirectory = FsNotDirectory"
| "map_bafs_error_to_fs_error NotARegularFile = FsNotSupported"
| "map_bafs_error_to_fs_error OutOfSpace = FsOutOfMemory"
| "map_bafs_error_to_fs_error InvalidArgument = FsInvalidArgument"
| "map_bafs_error_to_fs_error InputOutputError = FsIoError"
| "map_bafs_error_to_fs_error (InvalidChecksum b) = FsIoError"
| "map_bafs_error_to_fs_error CorruptedStructure = FsIoError"
| "map_bafs_error_to_fs_error e = FsIoError"

text \<open>The \<open>Result<_, FsError>\<close> of the trait, and \<open>map_err\<close> with the error map.\<close>

datatype 'a fs_result = FsOk 'a | FsErr fs_error | FsPanic | FsOutOfFuel

primrec map_err :: "'a result \<Rightarrow> 'a fs_result" where
  "map_err (Ok x) = FsOk x"
| "map_err (Err e) = FsErr (map_bafs_error_to_fs_error e)"
| "map_err Panic = FsPanic"
| "map_err OutOfFuel = FsOutOfFuel"

primrec map_fs_result :: "('a \<Rightarrow> 'b) \<Rightarrow> 'a fs_result \<Rightarrow> 'b fs_result" where
  "map_fs_result f (FsOk x) = FsOk (f x)"
| "map_fs_result f (FsErr e) = FsErr e"
| "map_fs_result f FsPanic = FsPanic"
| "map_fs_result f FsOutOfFuel = FsOutOfFuel"

section \<open>The kernel inode\<close>

record bafs_kernel_inode =
  kernel_inode_number :: u64

definition make_inode_arc :: "u64 \<Rightarrow> bafs_kernel_inode" where
  "make_inode_arc target_inode_number = \<lparr>kernel_inode_number = target_inode_number\<rparr>"

definition kernel_inode_type :: "nat \<Rightarrow> 'd block_device \<Rightarrow> 'd bafs_volume \<Rightarrow> bafs_kernel_inode \<Rightarrow> inode_type result" where
  "kernel_inode_type fuel D vol self =
     (case volume_read_inode fuel D vol (kernel_inode_number self) of
        Ok inode \<Rightarrow> Ok (if is_directory inode then Directory else RegularFile)
      | Err _ \<Rightarrow> Ok RegularFile
      | Panic \<Rightarrow> Panic
      | OutOfFuel \<Rightarrow> OutOfFuel)"

definition kernel_stat :: "nat \<Rightarrow> 'd block_device \<Rightarrow> 'd bafs_volume \<Rightarrow> bafs_kernel_inode \<Rightarrow> inode_stat result" where
  "kernel_stat fuel D vol self =
     (case volume_read_inode fuel D vol (kernel_inode_number self) of
        Ok inode \<Rightarrow>
          Ok (if is_directory inode then inode_stat_directory (kernel_inode_number self)
              else inode_stat_regular (kernel_inode_number self) (file_size_in_bytes inode))
      | Err _ \<Rightarrow> Ok (inode_stat_regular (kernel_inode_number self) 0)
      | Panic \<Rightarrow> Panic
      | OutOfFuel \<Rightarrow> OutOfFuel)"

definition kernel_read_at ::
  "nat \<Rightarrow> 'd block_device \<Rightarrow> 'd bafs_volume \<Rightarrow> bafs_kernel_inode \<Rightarrow> u64 \<Rightarrow> bytes \<Rightarrow> nat fs_result \<times> bytes" where
  "kernel_read_at fuel D vol self offset buf =
     apfst map_err (volume_read_file_data fuel D vol (kernel_inode_number self) offset buf)"

definition kernel_write_at ::
  "nat \<Rightarrow> nat \<Rightarrow> 'd block_device \<Rightarrow> bafs_kernel_inode \<Rightarrow> u64 \<Rightarrow> bytes \<Rightarrow> 'd bafs_volume \<Rightarrow> nat fs_result \<times> 'd bafs_volume" where
  "kernel_write_at rounds fuel D self offset buf vol =
     apfst map_err (volume_write_file_data rounds fuel D (kernel_inode_number self) offset buf vol)"

definition kernel_truncate :: "bafs_kernel_inode \<Rightarrow> u64 \<Rightarrow> unit fs_result" where
  "kernel_truncate self new_size = FsErr FsNotSupported"

definition kernel_lookup ::
  "nat \<Rightarrow> 'd block_device \<Rightarrow> 'd bafs_volume \<Rightarrow> bafs_kernel_inode \<Rightarrow> bytes \<Rightarrow> bafs_kernel_inode option result" where
  "kernel_lookup fuel D vol self name =
     (case volume_lookup_directory_entry fuel D vol (kernel_inode_number self) name of
        Ok found \<Rightarrow> Ok (map_option make_inode_arc found)
      | Err _ \<Rightarrow> Ok None
      | Panic \<Rightarrow> Panic
      | OutOfFuel \<Rightarrow> OutOfFuel)"

definition kernel_readdir ::
  "nat \<Rightarrow> 'd block_device \<Rightarrow> 'd bafs_volume \<Rightarrow> bafs_kernel_inode \<Rightarrow> nat \<Rightarrow> dir_entry option result" where
  "kernel_readdir fuel D vol self index =
     (case volume_read_directory_entry_at_index fuel D vol (kernel_inode_number self) index of
        Ok (Some entry) \<Rightarrow>
          Ok (Some \<lparr>entry_name = filename entry,
                    entry_inode_type = (if child_type entry = CHILD_TYPE_DIRECTORY then Directory else RegularFile),
                    entry_inode_number = child_inode_number entry\<rparr>)
      | Ok None \<Rightarrow> Ok None
      | Err _ \<Rightarrow> Ok None
      | Panic \<Rightarrow> Panic
      | OutOfFuel \<Rightarrow> OutOfFuel)"

definition kernel_create ::
  "nat \<Rightarrow> nat \<Rightarrow> 'd block_device \<Rightarrow> bafs_kernel_inode \<Rightarrow> bytes \<Rightarrow> 'd bafs_volume
    \<Rightarrow> bafs_kernel_inode fs_result \<times> 'd bafs_volume" where
  "kernel_create rounds fuel D self name vol =
     apfst (map_fs_result make_inode_arc \<circ> map_err) (volume_create_file rounds fuel D (kernel_inode_number self) name vol)"

definition kernel_mkdir ::
  "nat \<Rightarrow> nat \<Rightarrow> 'd block_device \<Rightarrow> bafs_kernel_inode \<Rightarrow> bytes \<Rightarrow> 'd bafs_volume
    \<Rightarrow> bafs_kernel_inode fs_result \<times> 'd bafs_volume" where
  "kernel_mkdir rounds fuel D self name vol =
     apfst (map_fs_result make_inode_arc \<circ> map_err) (volume_create_directory rounds fuel D (kernel_inode_number self) name vol)"

definition kernel_unlink ::
  "nat \<Rightarrow> nat \<Rightarrow> 'd block_device \<Rightarrow> bafs_kernel_inode \<Rightarrow> bytes \<Rightarrow> 'd bafs_volume \<Rightarrow> unit fs_result \<times> 'd bafs_volume" where
  "kernel_unlink rounds fuel D self name vol =
     apfst map_err (volume_unlink_directory_entry rounds fuel D (kernel_inode_number self) name vol)"

text \<open>The two methods that keep the default of the trait.\<close>

definition kernel_set_mode :: "bafs_kernel_inode \<Rightarrow> u64 \<Rightarrow> unit fs_result" where
  "kernel_set_mode self mode = FsOk ()"

definition kernel_link_child :: "bafs_kernel_inode \<Rightarrow> bytes \<Rightarrow> bafs_kernel_inode \<Rightarrow> unit fs_result" where
  "kernel_link_child self name child = FsErr FsNotSupported"

text \<open>The mount returns the root inode; the volume behind its handle is returned beside it.\<close>

definition bafs_mount_kernel_volume :: "'d block_device \<Rightarrow> ('d, 'd bafs_volume \<times> bafs_kernel_inode) sop" where
  "bafs_mount_kernel_volume D =
     bindS (bafs_mount D) (\<lambda>volume.
     let root_number = root_inode_number (superblock volume)
     in retS (volume, \<lparr>kernel_inode_number = root_number\<rparr>))"

text \<open>The calls that change the volume, in any order and on any inodes.\<close>

inductive vfs_calls :: "'d block_device \<Rightarrow> nat \<Rightarrow> nat \<Rightarrow> 'd bafs_volume \<Rightarrow> 'd bafs_volume \<Rightarrow> bool"
  for D rounds fuel vol where
  no_call: "vfs_calls D rounds fuel vol vol"
| write_call: "vfs_calls D rounds fuel vol vol1 \<Longrightarrow> kernel_write_at rounds fuel D i off buf vol1 = (r, vol2)
    \<Longrightarrow> vfs_calls D rounds fuel vol vol2"
| create_call: "vfs_calls D rounds fuel vol vol1 \<Longrightarrow> kernel_create rounds fuel D i n vol1 = (r', vol2)
    \<Longrightarrow> vfs_calls D rounds fuel vol vol2"
| mkdir_call: "vfs_calls D rounds fuel vol vol1 \<Longrightarrow> kernel_mkdir rounds fuel D i n vol1 = (r', vol2)
    \<Longrightarrow> vfs_calls D rounds fuel vol vol2"
| unlink_call: "vfs_calls D rounds fuel vol vol1 \<Longrightarrow> kernel_unlink rounds fuel D i n vol1 = (r'', vol2)
    \<Longrightarrow> vfs_calls D rounds fuel vol vol2"

section \<open>No method writes to the device\<close>

text \<open>The calls of the trees work on the dirty cache and the superblock in memory.\<close>

definition silent :: "('d bafs_volume, 'a) sop \<Rightarrow> bool" where
  "silent m \<longleftrightarrow> (\<forall>vol. device (snd (m vol)) = device vol)"

named_theorems silent_rules \<open>operations that leave the device alone\<close>

lemma silent_basic [silent_rules]:
  "silent (retS x)" "silent (liftS r)" "silent (failS e)" "silent (getS g)" "silent (set_superblock h)" "silent (on_volume k s)"
  by (simp_all add: silent_def set_superblock_def on_volume_def split: prod.split)

lemma silent_bind [silent_rules]: "silent m \<Longrightarrow> (\<And>x. silent (f x)) \<Longrightarrow> silent (bindS m f)"
  by (simp add: silent_def bindS_def split: prod.split result.split) (metis prod.inject prod.collapse snd_conv)

lemma silent_if [silent_rules]: "(b \<Longrightarrow> silent m) \<Longrightarrow> (\<not> b \<Longrightarrow> silent m') \<Longrightarrow> silent (if b then m else m')"
  by simp

lemma silent_let [silent_rules]: "silent (f x) \<Longrightarrow> silent (Let x f)"
  by simp

lemma silent_pair [silent_rules]: "(\<And>a b. silent (f a b)) \<Longrightarrow> silent (case p of (a, b) \<Rightarrow> f a b)"
  by (simp split: prod.split)

lemma silent_free_cross [silent_rules]: "silent (free_cross_session_blocks fuel D c g bs s)"
  by (induction bs arbitrary: s) (auto intro!: silent_rules)

lemma silent_return_freed [silent_rules]: "silent (return_freed_cow_blocks_to_free_extent_tree rounds fuel D freed)"
  by (induction rounds arbitrary: freed) (auto intro!: silent_rules)

lemma silent_update [silent_rules]: "silent (update_inode_tree m freed)"
  unfolding update_inode_tree_def by (auto intro!: silent_rules)

lemma silent_write_inode [silent_rules]: "silent (volume_write_inode rounds fuel D inode)"
  unfolding volume_write_inode_def by (intro silent_rules)

lemma silent_allocate_number [silent_rules]: "silent volume_allocate_inode_number"
  unfolding volume_allocate_inode_number_def by (intro silent_rules)

lemma silent_create [silent_rules]: "silent (volume_create_entry mk t rounds fuel D p n)"
  unfolding volume_create_entry_def by (intro silent_rules)

lemma silent_write_data_blocks [silent_rules]: "silent (write_data_blocks fuel D data a js freed)"
  by (induction js arbitrary: freed) (auto simp: Let_def intro!: silent_rules)

lemma silent_take_blocks [silent_rules]:
  "silent (modifyS (\<lambda>vol. vol\<lparr>volume_next_free_block := a, superblock := f vol\<rparr>))"
  by (simp add: silent_def)

lemma silent_allocate_data [silent_rules]: "silent (allocate_and_write_data_blocks rounds fuel D data)"
  unfolding allocate_and_write_data_blocks_def by (intro silent_rules)

lemma silent_write [silent_rules]: "silent (volume_write_file_data rounds fuel D ino off data)"
  unfolding volume_write_file_data_def by (intro silent_rules)

lemma silent_release_extents [silent_rules]: "silent (release_extents fuel D g es ir fr freed)"
  by (induction es arbitrary: ir fr freed) (auto intro!: silent_rules)

lemma silent_release_inode [silent_rules]: "silent (release_inode fuel D k inode freed)"
  unfolding release_inode_def by (intro silent_rules)

lemma silent_unlink [silent_rules]: "silent (volume_unlink_directory_entry rounds fuel D p n)"
  unfolding volume_unlink_directory_entry_def by (intro silent_rules)

lemma vfs_calls_device: "vfs_calls D rounds fuel vol vol' \<Longrightarrow> device vol' = device vol"
proof (induction rule: vfs_calls.induct)
  case (write_call vol1 i off buf r vol2)
  then show ?case using silent_write unfolding silent_def kernel_write_at_def by (metis snd_apfst snd_conv)
next
  case (create_call vol1 i n r' vol2)
  then show ?case using silent_create unfolding silent_def kernel_create_def volume_create_file_def by (metis snd_apfst snd_conv)
next
  case (mkdir_call vol1 i n r' vol2)
  then show ?case using silent_create unfolding silent_def kernel_mkdir_def volume_create_directory_def by (metis snd_apfst snd_conv)
next
  case (unlink_call vol1 i n r'' vol2)
  then show ?case using silent_unlink unfolding silent_def kernel_unlink_def by (metis snd_apfst snd_conv)
qed simp

section \<open>What the methods return\<close>

lemma volume_listing_fs:
  assumes "represents D vol fs" "deep fuel"
  shows "\<exists>es. distinct (map filename es) \<and> (\<forall>e. e \<in> set es \<longleftrightarrow> fs_entries fs p (filename e) = Some e) \<and>
    (\<forall>i. volume_read_directory_entry_at_index fuel D vol p i = Ok (if i < length es then Some (es ! i) else None))"
proof -
  obtain its cks where r: "items_wf its" "fs_of its cks = fs"
      "inode_tree D (device vol) (cow_of [] vol) (inode_tree_root_block (superblock vol)) its"
    using assms(1) by (rule representsE)
  obtain xs es where sc: "scan_directory fuel D (device vol) (dirty_block_cache vol) (inode_tree_root_block (superblock vol)) p = Ok xs"
      "list_all2 (dir_item p) xs es" "distinct (map filename es)" "\<forall>e. e \<in> set es \<longleftrightarrow> dir_map its p (filename e) = Some e"
    using scan_directory_at [OF r(3) assms(2) items_wf_dirs [OF r(1)], of p] by (auto simp: cow_of_def)
  have "deserialise_dir_entry_from_bytes (item_value (xs ! j)) = Ok (es ! j)" if "j < length es" for j
    using list_all2_nthD2 [OF sc(2) that] by (auto simp: dir_item_def dir_entry_codec)
  moreover have "length xs = length es" by (rule list_all2_lengthD [OF sc(2)])
  ultimately show ?thesis
    using sc by (intro exI [of _ es])
      (auto simp: volume_read_directory_entry_at_index_def directory_iterate_def simp flip: r(2))
qed

lemma kernel_inode_type_fs:
  assumes "represents D vol fs" "deep fuel"
  shows "kernel_inode_type fuel D vol (make_inode_arc k) =
    Ok (case fs_inodes fs k of Some inode \<Rightarrow> if is_directory inode then Directory else RegularFile | None \<Rightarrow> RegularFile)"
  by (simp add: kernel_inode_type_def volume_read_inode_fs [OF assms] make_inode_arc_def split: option.split)

lemma kernel_lookup_fs:
  assumes "represents D vol fs" "deep fuel" "fs_inodes fs p = Some d" "is_directory d"
  shows "kernel_lookup fuel D vol (make_inode_arc p) n =
    Ok (map_option (\<lambda>e. make_inode_arc (child_inode_number e)) (fs_entries fs p n))"
  using assms(3,4) by (simp add: kernel_lookup_def volume_lookup_fs [OF assms(1,2)] make_inode_arc_def option.map_comp comp_def)

lemma linked_type:
  assumes "linked fs e"
  shows "(case fs_inodes fs (child_inode_number e) of Some inode \<Rightarrow> if is_directory inode then Directory else RegularFile | None \<Rightarrow> RegularFile)
    = (if child_type e = CHILD_TYPE_DIRECTORY then Directory else RegularFile)"
proof -
  obtain inode where i: "fs_inodes fs (child_inode_number e) = Some inode"
      "is_directory inode \<and> child_type e = CHILD_TYPE_DIRECTORY \<or> is_regular_file inode \<and> child_type e = CHILD_TYPE_REGULAR_FILE"
    using assms by (auto simp: linked_def)
  have "\<not> (is_regular_file inode \<and> is_directory inode)"
    by (simp add: is_regular_file_def is_directory_def INODE_MODE_REGULAR_FILE_def INODE_MODE_DIRECTORY_def)
  then show ?thesis
    using i by (auto simp: CHILD_TYPE_DIRECTORY_def CHILD_TYPE_REGULAR_FILE_def)
qed

text \<open>C11: reading a directory and looking names up agree. In a directory of a volume with a consistent
  file system \<open>readdir\<close> returns an entry at the indices below some number and nothing above; every name
  occurs once; a name is found by \<open>lookup\<close> exactly when some index lists it, with the inode of that
  entry; and the type of the entry is the type that the inode itself reports.\<close>

theorem readdir_lookup_agree:
  assumes "volume_fs D vol fs" "deep fuel" "fs_inodes fs p = Some d" "is_directory d"
  shows "\<exists>es. (\<forall>i. kernel_readdir fuel D vol (make_inode_arc p) i = Ok (if i < length es then Some (es ! i) else None)) \<and>
    distinct (map entry_name es) \<and>
    (\<forall>n k. kernel_lookup fuel D vol (make_inode_arc p) n = Ok (Some k) \<longleftrightarrow>
       (\<exists>e\<in>set es. entry_name e = n \<and> make_inode_arc (entry_inode_number e) = k)) \<and>
    (\<forall>e\<in>set es. kernel_inode_type fuel D vol (make_inode_arc (entry_inode_number e)) = Ok (entry_inode_type e))"
proof -
  have r: "represents D vol fs" and v: "fs_valid (allocated_inode_count (superblock vol)) fs"
    using assms(1) by (simp_all add: volume_fs_def)
  let ?f = "\<lambda>e. \<lparr>entry_name = filename e,
    entry_inode_type = (if child_type e = CHILD_TYPE_DIRECTORY then Directory else RegularFile),
    entry_inode_number = child_inode_number e\<rparr>"
  obtain es where es: "distinct (map filename es)" "\<forall>e. e \<in> set es \<longleftrightarrow> fs_entries fs p (filename e) = Some e"
      "\<forall>i. volume_read_directory_entry_at_index fuel D vol p i = Ok (if i < length es then Some (es ! i) else None)"
    using volume_listing_fs [OF r assms(2)] by blast
  have rd: "kernel_readdir fuel D vol (make_inode_arc p) i = Ok (if i < length (map ?f es) then Some (map ?f es ! i) else None)" for i
    using es(3) by (simp add: kernel_readdir_def make_inode_arc_def)
  have ds: "distinct (map entry_name (map ?f es))" using es(1) by (simp add: comp_def)
  have nm: "filename e = n" if "fs_entries fs p n = Some e" for n e
    using fs_validD(4) [OF v that] by simp
  have lk: "kernel_lookup fuel D vol (make_inode_arc p) n = Ok (Some k) \<longleftrightarrow>
      (\<exists>e\<in>set (map ?f es). entry_name e = n \<and> make_inode_arc (entry_inode_number e) = k)" for n k
  proof -
    have "(\<exists>e. fs_entries fs p n = Some e \<and> make_inode_arc (child_inode_number e) = k) \<longleftrightarrow>
        (\<exists>e. e \<in> set es \<and> filename e = n \<and> make_inode_arc (child_inode_number e) = k)"
      using es(2) nm by metis
    then show ?thesis by (auto simp: kernel_lookup_fs [OF r assms(2-4)])
  qed
  have ty: "kernel_inode_type fuel D vol (make_inode_arc (entry_inode_number x)) = Ok (entry_inode_type x)" if x: "x \<in> set (map ?f es)" for x
  proof -
    obtain e where e: "x = ?f e" "fs_entries fs p (filename e) = Some e" using x es(2) by auto
    then have "linked fs e" using fs_validD(4) [OF v] by blast
    from linked_type [OF this] e(1) show ?thesis by (simp add: kernel_inode_type_fs [OF r assms(2)])
  qed
  show ?thesis
    by (intro exI [of _ "map ?f es"] conjI allI ballI rd ds lk ty) assumption
qed

theorem readdir_lookup_agree_witness:
  "\<exists>vol i e. volume_create_file 100 13 memory_device 1 [97] demo_volume = (Ok 2, vol) \<and>
     kernel_readdir 13 memory_device vol (make_inode_arc 1) i = Ok (Some e) \<and> entry_name e = [97] \<and> entry_inode_number e = 2"
proof -
  have le: "0 + 130 \<le> demo_units" by (simp add: demo_units_def)
  obtain fs vol where v: "volume_create_file 100 13 memory_device 1 [97] demo_volume = (Ok 2, vol)"
      "volume_fs memory_device vol fs" "fs_entries fs 1 [97] = Some (new_entry 2 CHILD_TYPE_REGULAR_FILE [97])"
    using demo_file [OF le] by blast
  have r: "represents memory_device vol fs" "fs_valid (allocated_inode_count (superblock vol)) fs"
    using v(2) by (simp_all add: volume_fs_def)
  obtain d where d: "fs_inodes fs 1 = Some d" "is_directory d" using fs_validD(4) [OF r(2) v(3)] by blast
  have l: "kernel_lookup 13 memory_device vol (make_inode_arc 1) [97] = Ok (Some (make_inode_arc 2))"
    using v(3) by (simp add: kernel_lookup_fs [OF r(1) deep_13 d] new_entry_def)
  obtain es where es: "\<forall>i. kernel_readdir 13 memory_device vol (make_inode_arc 1) i = Ok (if i < length es then Some (es ! i) else None)"
      "\<exists>e\<in>set es. entry_name e = [97] \<and> make_inode_arc (entry_inode_number e) = make_inode_arc 2"
    using readdir_lookup_agree [OF v(2) deep_13 d] l by metis
  then obtain i where "i < length es" "entry_name (es ! i) = [97]" "entry_inode_number (es ! i) = 2"
    by (auto simp: in_set_conv_nth make_inode_arc_def)
  then show ?thesis
    using v(1) es(1) by (intro exI [of _ vol] exI [of _ i] exI [of _ "es ! i"]) simp
qed

text \<open>The errors of the modifying calls, as the file system determines them.\<close>

definition create_error :: "file_system \<Rightarrow> u64 \<Rightarrow> bytes \<Rightarrow> fs_error option" where
  "create_error fs p n =
     (case fs_inodes fs p of
        None \<Rightarrow> Some FsNotFound
      | Some d \<Rightarrow>
          if \<not> is_directory d then Some FsNotDirectory
          else if n = [] \<or> 255 < length n then Some FsInvalidArgument
          else if fs_entries fs p n \<noteq> None then Some FsAlreadyExists
          else None)"

definition data_error :: "file_system \<Rightarrow> u64 \<Rightarrow> fs_error option" where
  "data_error fs ino =
     (case fs_inodes fs ino of
        None \<Rightarrow> Some FsNotFound
      | Some inode \<Rightarrow> if is_regular_file inode then None else Some FsNotSupported)"

lemma create_outcome:
  assumes "volume_fs D vol fs" "funds D rounds 130 vol" "deep fuel" "valid_utf8 n" "kind_ok mk t"
    and "unat (allocated_inode_count (superblock vol)) + 1 < 2 ^ 64"
  shows "map_err (fst (volume_create_entry mk t rounds fuel D p n vol)) =
    (case create_error fs p n of Some e \<Rightarrow> FsErr e | None \<Rightarrow> FsOk (allocated_inode_count (superblock vol) + 1))"
proof -
  have r: "represents D vol fs" using assms(1) by (simp add: volume_fs_def)
  have f: "funds D rounds (130 + 0) vol" using assms(2) by simp
  show ?thesis
  proof (cases "\<exists>d. fs_inodes fs p = Some d \<and> is_directory d")
    case True
    then obtain d where d: "fs_inodes fs p = Some d" "is_directory d" by blast
    note c = volume_create_fs [OF assms(1) f assms(3,6,5) d refl refl, of n]
    show ?thesis
    proof (cases "n = [] \<or> 255 < length n \<or> valid_name n \<and> fs_entries fs p n \<noteq> None")
      case True
      with c(2) d show ?thesis by (auto simp: create_error_def valid_name_def)
    next
      case False
      then have "valid_name n" "fs_entries fs p n = None" using assms(4) by (auto simp: valid_name_def)
      with c(1) False d show ?thesis by (auto simp: create_error_def)
    qed
  next
    case False
    then show ?thesis
      by (auto simp: create_error_def volume_create_entry_def volume_read_inode_fs [OF r assms(3)] bindS_def split: option.split)
  qed
qed

lemma data_outcome:
  assumes "represents D vol fs" "deep fuel" "data_error fs ino = Some e" "buf \<noteq> []"
  shows "kernel_read_at fuel D vol (make_inode_arc ino) off buf = (FsErr e, buf)"
    "kernel_write_at rounds fuel D (make_inode_arc ino) off buf vol = (FsErr e, vol)"
  using assms(3,4) volume_read_inode_fs [OF assms(1,2), of ino]
  by (auto simp: data_error_def kernel_read_at_def kernel_write_at_def make_inode_arc_def volume_read_file_data_def
      volume_write_file_data_def bindS_def split: option.splits if_splits)

text \<open>C12: the error codes of the calls. \<open>create\<close> and \<open>mkdir\<close> answer \<open>ENOENT\<close> when the parent does not exist,
  \<open>ENOTDIR\<close> when it is no directory, \<open>EINVAL\<close> for an empty or too long name, \<open>EEXIST\<close> when the name is taken,
  in this order, and otherwise succeed with the inode of the next number; \<open>unlink\<close> of a name that is not there
  is \<open>ENOENT\<close>; reading from and writing to anything but a regular file is \<open>ENOENT\<close> or \<open>ENOSYS\<close> and has no
  effect.\<close>

theorem vfs_error_codes:
  assumes "volume_fs D vol fs" "funds D rounds 130 vol" "deep fuel" "valid_utf8 n"
    and "unat (allocated_inode_count (superblock vol)) + 1 < 2 ^ 64"
  shows "fst (kernel_create rounds fuel D (make_inode_arc p) n vol) =
      (case create_error fs p n of Some e \<Rightarrow> FsErr e | None \<Rightarrow> FsOk (make_inode_arc (allocated_inode_count (superblock vol) + 1))) \<and>
    fst (kernel_mkdir rounds fuel D (make_inode_arc p) n vol) =
      (case create_error fs p n of Some e \<Rightarrow> FsErr e | None \<Rightarrow> FsOk (make_inode_arc (allocated_inode_count (superblock vol) + 1))) \<and>
    (fs_entries fs p n = None \<longrightarrow> kernel_unlink rounds fuel D (make_inode_arc p) n vol = (FsErr FsNotFound, vol)) \<and>
    (\<forall>e off buf. data_error fs p = Some e \<and> buf \<noteq> [] \<longrightarrow>
      kernel_read_at fuel D vol (make_inode_arc p) off buf = (FsErr e, buf) \<and>
      kernel_write_at rounds fuel D (make_inode_arc p) off buf vol = (FsErr e, vol)) \<and>
    map to_errno [FsNotFound, FsNotDirectory, FsInvalidArgument, FsAlreadyExists, FsNotSupported] = [- 2, - 20, - 22, - 17, - 38]"
proof (intro conjI allI impI)
  have r: "represents D vol fs" using assms(1) by (simp add: volume_fs_def)
  have k: "kind_ok new_regular_file CHILD_TYPE_REGULAR_FILE" "kind_ok new_directory CHILD_TYPE_DIRECTORY" by (simp_all add: kind_ok_def)
  show "fst (kernel_create rounds fuel D (make_inode_arc p) n vol) =
      (case create_error fs p n of Some e \<Rightarrow> FsErr e | None \<Rightarrow> FsOk (make_inode_arc (allocated_inode_count (superblock vol) + 1)))"
    using create_outcome [OF assms(1-4) k(1) assms(5), of p]
    by (simp add: kernel_create_def volume_create_file_def make_inode_arc_def split: option.split)
  show "fst (kernel_mkdir rounds fuel D (make_inode_arc p) n vol) =
      (case create_error fs p n of Some e \<Rightarrow> FsErr e | None \<Rightarrow> FsOk (make_inode_arc (allocated_inode_count (superblock vol) + 1)))"
    using create_outcome [OF assms(1-4) k(2) assms(5), of p]
    by (simp add: kernel_mkdir_def volume_create_directory_def make_inode_arc_def split: option.split)
  show "kernel_unlink rounds fuel D (make_inode_arc p) n vol = (FsErr FsNotFound, vol)" if "fs_entries fs p n = None"
    using volume_unlink_missing [OF r assms(3) that] by (simp add: kernel_unlink_def make_inode_arc_def)
  show "kernel_read_at fuel D vol (make_inode_arc p) off buf = (FsErr e, buf)"
      "kernel_write_at rounds fuel D (make_inode_arc p) off buf vol = (FsErr e, vol)"
    if "data_error fs p = Some e \<and> buf \<noteq> []" for e off buf
    using data_outcome [OF r assms(3), of p e buf] that by simp_all
qed simp

theorem vfs_error_codes_witness:
  "fst (kernel_create 100 13 memory_device (make_inode_arc 1) [97] demo_volume) = FsOk (make_inode_arc 2) \<and>
   fst (kernel_mkdir 100 13 memory_device (make_inode_arc 1) [] demo_volume) = FsErr FsInvalidArgument \<and>
   kernel_unlink 100 13 memory_device (make_inode_arc 1) [97] demo_volume = (FsErr FsNotFound, demo_volume) \<and>
   kernel_write_at 100 13 memory_device (make_inode_arc 1) 0 [5] demo_volume = (FsErr FsNotSupported, demo_volume)"
proof -
  have f: "funds memory_device 100 130 demo_volume" by (rule demo_funds) (simp add: demo_units_def)
  have c: "unat (allocated_inode_count (superblock demo_volume)) + 1 < 2 ^ 64" by (simp add: demo_volume(9))
  have n: "valid_utf8 [97]" "valid_utf8 []" by code_simp+
  have e: "create_error empty_fs 1 [97] = None" "create_error empty_fs 1 [] = Some FsInvalidArgument"
    using empty_root by (simp_all add: create_error_def)
  have "\<not> is_regular_file (new_directory 1 1 0)"
    using empty_root(2) by (simp add: is_regular_file_def is_directory_def INODE_MODE_REGULAR_FILE_def INODE_MODE_DIRECTORY_def)
  then have d: "data_error empty_fs 1 = Some FsNotSupported" by (simp add: data_error_def empty_root(1))
  show ?thesis
    using vfs_error_codes [OF demo_volume(3) f deep_13 n(1) c, of 1] vfs_error_codes [OF demo_volume(3) f deep_13 n(2) c, of 1] e d
    by (simp add: demo_volume(9) empty_root(3))
qed

text \<open>C13: nothing reaches the device. Whatever files are created, written and removed through the inodes of a
  mounted volume, the device stays as the mount left it, and the next mount returns what it would have
  returned without the calls: the methods never commit.\<close>

theorem vfs_calls_never_commit:
  assumes "bafs_mount_kernel_volume D d = (Ok (vol, root), d1)" "vfs_calls D rounds fuel vol vol'"
  shows "device vol' = d1 \<and> bafs_mount_kernel_volume D (device vol') = bafs_mount_kernel_volume D d1"
proof -
  have "device vol = d1"
    using assms(1) by (auto simp: bafs_mount_kernel_volume_def bindS_eq_Ok bafs_mount_def split: result.splits prod.splits if_splits)
  with vfs_calls_device [OF assms(2)] show ?thesis by simp
qed

theorem vfs_calls_never_commit_witness:
  "\<exists>vol. bafs_mount_kernel_volume memory_device demo_device = (Ok (demo_volume, make_inode_arc 1), demo_device) \<and>
     kernel_create 100 13 memory_device (make_inode_arc 1) [97] demo_volume = (FsOk (make_inode_arc 2), vol) \<and>
     kernel_lookup 13 memory_device vol (make_inode_arc 1) [97] = Ok (Some (make_inode_arc 2)) \<and>
     bafs_mount_kernel_volume memory_device (device vol) = (Ok (demo_volume, make_inode_arc 1), demo_device) \<and>
     kernel_lookup 13 memory_device demo_volume (make_inode_arc 1) [97] = Ok None"
proof -
  have m: "bafs_mount_kernel_volume memory_device demo_device = (Ok (demo_volume, make_inode_arc 1), demo_device)"
    using demo_volume(2) by (simp add: bafs_mount_kernel_volume_def make_inode_arc_def demo_volume(9) BAFS_ROOT_INODE_NUMBER_def)
  have le: "0 + 130 \<le> demo_units" by (simp add: demo_units_def)
  obtain fs vol where v: "volume_create_file 100 13 memory_device 1 [97] demo_volume = (Ok 2, vol)"
      "volume_fs memory_device vol fs" "fs_entries fs 1 [97] = Some (new_entry 2 CHILD_TYPE_REGULAR_FILE [97])"
    using demo_file [OF le] by blast
  have k: "kernel_create 100 13 memory_device (make_inode_arc 1) [97] demo_volume = (FsOk (make_inode_arc 2), vol)"
    using v(1) by (simp add: kernel_create_def make_inode_arc_def)
  have r: "represents memory_device vol fs" "fs_valid (allocated_inode_count (superblock vol)) fs" "represents memory_device demo_volume empty_fs"
    using v(2) demo_volume(3) by (simp_all add: volume_fs_def)
  obtain d where d: "fs_inodes fs 1 = Some d" "is_directory d" using fs_validD(4) [OF r(2) v(3)] by blast
  have "kernel_lookup 13 memory_device vol (make_inode_arc 1) [97] = Ok (Some (make_inode_arc 2))"
    using v(3) by (simp add: kernel_lookup_fs [OF r(1) deep_13 d] new_entry_def)
  moreover have "kernel_lookup 13 memory_device demo_volume (make_inode_arc 1) [97] = Ok None"
    by (simp add: kernel_lookup_fs [OF r(3) deep_13 empty_root(1,2)] empty_root(3))
  ultimately show ?thesis
    using vfs_calls_never_commit [OF m create_call [OF no_call k]] m k by auto
qed

end
