(* ===== verification/Bafs_Error.thy ===== *)
theory Bafs_Error
  imports Bafs_Prelude
begin

text \<open>
  \<open>error.rs\<close>: the error type (\<open>bafs_error\<close> of \<open>Bafs_Prelude\<close>) and its \<open>Display\<close>
  implementation. The text of an error determines the error, so a log line identifies the
  variant and the block or version it carries.
\<close>

text \<open>The decimal rendering \<open>{}\<close> of an unsigned integer.\<close>

definition decimal_digit :: "nat \<Rightarrow> char" where
  "decimal_digit d = char_of (48 + d)"

fun decimal :: "nat \<Rightarrow> string" where
  "decimal n = (if n < 10 then [decimal_digit n] else decimal (n div 10) @ [decimal_digit (n mod 10)])"

declare decimal.simps [simp del]

text \<open>\<open>impl Display for BafsError\<close>.\<close>

fun fmt_bafs_error :: "bafs_error \<Rightarrow> string" where
  "fmt_bafs_error InputOutputError = ''I/O error on the underlying block device''"
| "fmt_bafs_error (InvalidChecksum block_address) =
     ''CRC32C checksum mismatch on block '' @ decimal (unat block_address)"
| "fmt_bafs_error InvalidMagicNumber = ''not a BAFS filesystem (invalid magic number)''"
| "fmt_bafs_error (UnsupportedVersion found_version) =
     ''unsupported BAFS version '' @ decimal (unat found_version)
       @ '' (this implementation supports v1 only)''"
| "fmt_bafs_error OutOfSpace = ''no free space left on the filesystem''"
| "fmt_bafs_error NotFound = ''no such file or directory''"
| "fmt_bafs_error NotADirectory = ''not a directory''"
| "fmt_bafs_error NotARegularFile = ''not a regular file''"
| "fmt_bafs_error AlreadyExists = ''file or directory already exists''"
| "fmt_bafs_error InvalidArgument = ''invalid argument''"
| "fmt_bafs_error CorruptedStructure = ''filesystem metadata is corrupted''"
| "fmt_bafs_error NotSupported = ''operation not supported''"

definition undecimal :: "string \<Rightarrow> nat" where
  "undecimal s = foldl (\<lambda>n c. 10 * n + (of_char c - 48)) 0 s"

lemma undecimal_decimal: "undecimal (decimal n) = n"
proof (induction n rule: decimal.induct)
  case (1 n)
  show ?case
  proof (cases "n < 10")
    case True
    then show ?thesis
      by (subst decimal.simps) (simp add: undecimal_def decimal_digit_def)
  next
    case False
    with 1 have "foldl (\<lambda>n c. 10 * n + (of_char c - 48)) 0 (decimal (n div 10)) = n div 10"
      by (simp add: undecimal_def)
    moreover have "of_char (decimal_digit (n mod 10)) = 48 + n mod 10"
      by (simp add: decimal_digit_def)
    ultimately show ?thesis
      using False by (subst decimal.simps) (simp add: undecimal_def)
  qed
qed

lemma decimal_inject: "decimal m = decimal n \<longleftrightarrow> m = n"
  by (metis undecimal_decimal)

text \<open>Two errors that print the same text are the same error, including the block address
  or the version they carry.\<close>

theorem fmt_bafs_error_injective: "fmt_bafs_error e = fmt_bafs_error e' \<longleftrightarrow> e = e'"
  by (cases e; cases e') (simp_all add: decimal_inject word_unat_eq_iff)

end
