(* ===== verification/Bafs_Tools.thy ===== *)
theory Bafs_Tools
  imports Kernel_Vfs Bafs_Error
begin

text \<open>
  The command-line tool (\<open>bafs-tools/src/main.rs\<close>): its subcommands on the files of the host, up to the
  text they print.

  The host is a map from paths to file contents, the standard input and output, and its storage (a
  parameter, see \<open>Block_Device\<close>). A command opens the image as a block device, mounts it, calls the
  operations of the volume and unmounts it; what it has written to the device so far is in the image on
  every outcome. The bytes that \<open>read\<close> sends to the standard output are modelled, also when it fails
  later. The other commands print messages: the numbers that \<open>info\<close> prints, the rows of \<open>ls\<close> and the counts of
  \<open>write\<close> and \<open>bench\<close> are the values of these commands when they succeed. The wording of the messages, the
  rendering of byte counts with floating-point numbers, the timing of \<open>bench\<close> and failures of the standard
  input and output are left out.
\<close>

section \<open>The host and the outcome of a command\<close>

record host =
  host_files :: "bytes \<Rightarrow> bytes option"
  host_stdin :: bytes
  host_stdout :: bytes
  host_storage :: host_io

datatype tool_error = SourceUnreadable | BadImage | VolumeFailed bafs_error | FileMissing | DataCorrupted

datatype 'a tool_result = Done 'a | Failed tool_error | ToolPanic | ToolHang

primrec tool_of :: "'a result \<Rightarrow> 'a tool_result" where
  "tool_of (Ok x) = Done x"
| "tool_of (Err e) = Failed (VolumeFailed e)"
| "tool_of Panic = ToolPanic"
| "tool_of OutOfFuel = ToolHang"

type_synonym ('s, 'a) top = "'s \<Rightarrow> 'a tool_result \<times> 's"

definition retT :: "'a \<Rightarrow> ('s, 'a) top" where
  "retT x s = (Done x, s)"

definition failT :: "tool_error \<Rightarrow> ('s, 'a) top" where
  "failT e s = (Failed e, s)"

definition callT :: "('s, 'a) sop \<Rightarrow> ('s, 'a) top" where
  "callT m s = apfst tool_of (m s)"

definition bindT :: "('s, 'a) top \<Rightarrow> ('a \<Rightarrow> ('s, 'b) top) \<Rightarrow> ('s, 'b) top" where
  "bindT m f s =
     (case m s of
        (Done x, s') \<Rightarrow> f x s'
      | (Failed e, s') \<Rightarrow> (Failed e, s')
      | (ToolPanic, s') \<Rightarrow> (ToolPanic, s')
      | (ToolHang, s') \<Rightarrow> (ToolHang, s'))"

text \<open>Opening the image at a path, and mounting a device; the volume is consumed at the end, its device
  goes back into the image.\<close>

definition with_image :: "bytes \<Rightarrow> (file_block_device, 'a) top \<Rightarrow> (host, 'a) top" where
  "with_image path m h =
     (case fbd_open (host_storage h) (host_files h path) of
        None \<Rightarrow> (Failed BadImage, h)
      | Some dev \<Rightarrow>
          (case m dev of (r, dev') \<Rightarrow> (r, h\<lparr>host_files := (host_files h)(path \<mapsto> fbd_file dev')\<rparr>)))"

definition with_volume :: "'d block_device \<Rightarrow> ('d bafs_volume, 'a) top \<Rightarrow> ('d, 'a) top" where
  "with_volume D m = bindT (callT (bafs_mount D)) (\<lambda>volume _. case m volume of (r, volume') \<Rightarrow> (r, device volume'))"

text \<open>\<open>Path::file_name\<close> of the standard library: the last component, if it is a name. Empty and \<open>.\<close>
  components do not count.\<close>

fun split_path :: "bytes \<Rightarrow> bytes list" where
  "split_path [] = [[]]"
| "split_path (b # bs) =
     (if b = 47 then [] # split_path bs
      else case split_path bs of [] \<Rightarrow> [[b]] | c # cs \<Rightarrow> (b # c) # cs)"

definition path_file_name :: "bytes \<Rightarrow> bytes option" where
  "path_file_name path =
     (let components = filter (\<lambda>c. c \<noteq> [] \<and> c \<noteq> [46]) (split_path path)
      in if components = [] \<or> last components = [46, 46] then None else Some (last components))"

definition name_of_path :: "bytes \<Rightarrow> bytes" where
  "name_of_path path = (case path_file_name path of Some name \<Rightarrow> name | None \<Rightarrow> path)"

section \<open>The subcommands\<close>

definition subcommand_format :: "nat \<Rightarrow> bytes \<Rightarrow> (host, unit) top" where
  "subcommand_format fuel image_path =
     with_image image_path (\<lambda>dev.
       case mul_u (fbd_total_sector_count dev) (of_nat SECTOR_SIZE_BYTES) of
         Ok _ \<Rightarrow> callT (bafs_format fuel file_device default_format_options) dev
       | _ \<Rightarrow> (ToolPanic, dev))"

record volume_info =
  info_version :: u32
  info_block_size :: u32
  info_total_bytes :: u64
  info_total_blocks :: u64
  info_used_bytes :: u64
  info_free_bytes :: u64
  info_journal_bytes :: u64
  info_journal_blocks :: u64
  info_inodes :: u64
  info_last_transaction :: u64
  info_root_inode :: u64

definition volume_info_of :: "bafs_superblock \<Rightarrow> volume_info result" where
  "volume_info_of sb =
     (let block_size = ucast (block_size_in_bytes sb) in
      bindR (mul_u (total_block_count sb) block_size) (\<lambda>total_bytes.
      bindR (mul_u (free_block_count sb) block_size) (\<lambda>free_bytes.
      bindR (mul_u (journal_size_in_blocks sb) block_size) (\<lambda>journal_bytes.
      Ok \<lparr>info_version = version sb, info_block_size = block_size_in_bytes sb, info_total_bytes = total_bytes,
          info_total_blocks = total_block_count sb, info_used_bytes = saturating_sub total_bytes free_bytes,
          info_free_bytes = free_bytes, info_journal_bytes = journal_bytes,
          info_journal_blocks = journal_size_in_blocks sb, info_inodes = allocated_inode_count sb,
          info_last_transaction = last_committed_transaction_id sb, info_root_inode = root_inode_number sb\<rparr>))))"

definition subcommand_info :: "bytes \<Rightarrow> (host, volume_info) top" where
  "subcommand_info image_path =
     with_image image_path (with_volume file_device (
       bindT (callT (\<lambda>volume. (volume_info_of (superblock volume), volume))) (\<lambda>info.
       bindT (callT (bafs_unmount file_device)) (\<lambda>_.
       retT info))))"

text \<open>The listing loop: a row holds the inode number, the letter of the type and the name.\<close>

definition type_char :: "u8 \<Rightarrow> char" where
  "type_char t = (if t = CHILD_TYPE_DIRECTORY then CHR ''d'' else if t = CHILD_TYPE_REGULAR_FILE then CHR ''-'' else CHR ''?'')"

function ls_rows :: "nat \<Rightarrow> 'd block_device \<Rightarrow> 'd bafs_volume \<Rightarrow> u64 \<Rightarrow> nat \<Rightarrow> (u64 \<times> char \<times> bytes) list result" where
  "ls_rows fuel D vol root_number index =
     (case directory_iterate fuel D (device vol) (dirty_block_cache vol) (inode_tree_root_block (superblock vol)) root_number index of
        Ok (Some entry) \<Rightarrow>
          bindR (ls_rows fuel D vol root_number (index + 1)) (\<lambda>rows.
          Ok ((child_inode_number entry, type_char (child_type entry), filename entry) # rows))
      | Ok None \<Rightarrow> Ok []
      | Err e \<Rightarrow> Err e
      | Panic \<Rightarrow> Panic
      | OutOfFuel \<Rightarrow> OutOfFuel)"
  by pat_completeness auto
termination
proof (relation "measure (\<lambda>(fuel, D, vol, n, i).
    (case scan_directory fuel D (device vol) (dirty_block_cache vol) (inode_tree_root_block (superblock vol)) n of
       Ok xs \<Rightarrow> length xs | _ \<Rightarrow> 0) - i)", goal_cases)
  case (2 fuel D vol n i found entry)
  then show ?case
    by (cases "scan_directory fuel D (device vol) (dirty_block_cache vol) (inode_tree_root_block (superblock vol)) n")
      (auto simp: directory_iterate_def split: if_splits)
qed simp

declare ls_rows.simps [simp del]

definition subcommand_ls :: "nat \<Rightarrow> bytes \<Rightarrow> bytes \<Rightarrow> (host, (u64 \<times> char \<times> bytes) list) top" where
  "subcommand_ls fuel image_path directory_path =
     with_image image_path (with_volume file_device (
       bindT (callT (\<lambda>volume. (ls_rows fuel file_device volume (root_inode_number (superblock volume)) 0, volume))) (\<lambda>rows.
       bindT (callT (bafs_unmount file_device)) (\<lambda>_.
       retT rows))))"

text \<open>The value of \<open>write\<close> is what it reports: the number of bytes and the inode.\<close>

definition write_file :: "nat \<Rightarrow> nat \<Rightarrow> bytes \<Rightarrow> bytes \<Rightarrow> (file_block_device bafs_volume, nat \<times> u64) top" where
  "write_file rounds fuel name source_data volume =
     (let root_number = root_inode_number (superblock volume) in
      bindT (callT (volume_create_file rounds fuel file_device root_number name)) (\<lambda>file_inode_number.
      bindT (callT (volume_write_file_data rounds fuel file_device file_inode_number 0 source_data)) (\<lambda>bytes_written.
      bindT (callT (bafs_unmount file_device)) (\<lambda>_.
      retT (bytes_written, file_inode_number)))) volume)"

definition subcommand_write :: "nat \<Rightarrow> nat \<Rightarrow> bytes \<Rightarrow> bytes \<Rightarrow> bytes \<Rightarrow> (host, nat \<times> u64) top" where
  "subcommand_write rounds fuel image_path volume_destination_path host_source_path h =
     (let (source, h) = if host_source_path = [45] then (Some (host_stdin h), h\<lparr>host_stdin := []\<rparr>)
            else (host_files h host_source_path, h) in
      case source of
        None \<Rightarrow> (Failed SourceUnreadable, h)
      | Some source_data \<Rightarrow>
          with_image image_path
            (with_volume file_device (write_file rounds fuel (name_of_path volume_destination_path) source_data)) h)"

definition chunk_size :: nat where
  "chunk_size = 4 * 1024 * 1024"

text \<open>The read loop; the second component is what has gone to the standard output.\<close>

function read_chunks :: "nat \<Rightarrow> 'd block_device \<Rightarrow> 'd bafs_volume \<Rightarrow> u64 \<Rightarrow> u64 \<Rightarrow> bytes \<Rightarrow> unit result \<times> bytes" where
  "read_chunks fuel D vol file_inode_number offset output =
     (case volume_read_file_data fuel D vol file_inode_number offset (replicate chunk_size 0) of
        (Ok bytes_read, buffer) \<Rightarrow>
          if bytes_read = 0 then (Ok (), output)
          else if chunk_size < bytes_read then (Panic, output)
          else
            let output = output @ take bytes_read buffer in
            (case add_u offset (of_nat bytes_read) of
               Ok offset' \<Rightarrow>
                 if bytes_read < chunk_size then (Ok (), output)
                 else read_chunks fuel D vol file_inode_number offset' output
             | _ \<Rightarrow> (Panic, output))
      | (Err e, buffer) \<Rightarrow> (Err e, output)
      | (Panic, buffer) \<Rightarrow> (Panic, output)
      | (OutOfFuel, buffer) \<Rightarrow> (OutOfFuel, output))"
  by pat_completeness auto
termination
proof (relation "measure (\<lambda>(fuel, D, vol, n, off, out). 2 ^ 64 - unat off)", goal_cases)
  case (2 fuel D vol n off out r buffer k out' off')
  then have k: "0 < k" "k < 2 ^ 64" and a: "add_u off (of_nat k) = Ok off'" by (auto simp: chunk_size_def)
  then have "unat off' = unat off + k"
    by (auto simp: add_u_def unat_word_ariths unat_of_nat split: if_splits)
  with k(1) show ?case using unat_bound [of off'] by simp
qed simp

declare read_chunks.simps [simp del]

text \<open>The value of \<open>read_file\<close> is the outcome of the command from the lookup on, and its output.\<close>

definition read_file :: "nat \<Rightarrow> bytes \<Rightarrow> (file_block_device bafs_volume, unit tool_result \<times> bytes) top" where
  "read_file fuel name volume =
     (case volume_lookup_directory_entry fuel file_device volume (root_inode_number (superblock volume)) name of
        Ok None \<Rightarrow> (Done (Failed FileMissing, []), volume)
      | Ok (Some file_inode_number) \<Rightarrow>
          (case read_chunks fuel file_device volume file_inode_number 0 [] of
             (Ok _, output) \<Rightarrow>
               (case callT (bafs_unmount file_device) volume of (r, volume') \<Rightarrow> (Done (r, output), volume'))
           | (Err e, output) \<Rightarrow> (Done (Failed (VolumeFailed e), output), volume)
           | (Panic, output) \<Rightarrow> (Done (ToolPanic, output), volume)
           | (OutOfFuel, output) \<Rightarrow> (Done (ToolHang, output), volume))
      | Err e \<Rightarrow> (Done (Failed (VolumeFailed e), []), volume)
      | Panic \<Rightarrow> (Done (ToolPanic, []), volume)
      | OutOfFuel \<Rightarrow> (Done (ToolHang, []), volume))"

definition subcommand_read :: "nat \<Rightarrow> bytes \<Rightarrow> bytes \<Rightarrow> (host, unit) top" where
  "subcommand_read fuel image_path volume_path =
     bindT (with_image image_path (with_volume file_device (read_file fuel (name_of_path volume_path))))
       (\<lambda>(outcome, output) h. (outcome, h\<lparr>host_stdout := host_stdout h @ output\<rparr>))"

section \<open>The benchmark\<close>

definition bench_file_count :: nat where
  "bench_file_count = 64"

definition bench_file_size :: nat where
  "bench_file_size = 256 * 1024"

definition files_per_commit :: nat where
  "files_per_commit = 1"

definition bench_pattern :: "nat \<Rightarrow> bytes" where
  "bench_pattern n = map of_nat [0..<n]"

text \<open>The format \<open>bench_{:04}.bin\<close>.\<close>

definition bench_name :: "nat \<Rightarrow> bytes" where
  "bench_name file_index =
     (let digits = decimal file_index
      in map of_char (''bench_'' @ replicate (4 - length digits) CHR ''0'' @ digits @ ''.bin''))"

primrec bench_write_files :: "nat \<Rightarrow> nat \<Rightarrow> u64 \<Rightarrow> bytes \<Rightarrow> nat list \<Rightarrow> (file_block_device bafs_volume, unit) top" where
  "bench_write_files rounds fuel root_number payload [] = retT ()"
| "bench_write_files rounds fuel root_number payload (file_index # indices) =
     bindT (callT (volume_create_file rounds fuel file_device root_number (bench_name file_index))) (\<lambda>file_inode_number.
     bindT (callT (volume_write_file_data rounds fuel file_device file_inode_number 0 payload)) (\<lambda>_.
     bindT (if (file_index + 1) mod files_per_commit = 0 then callT (flush_and_commit file_device) else retT ()) (\<lambda>_.
     bench_write_files rounds fuel root_number payload indices)))"

primrec bench_read_files ::
  "nat \<Rightarrow> u64 \<Rightarrow> nat list \<Rightarrow> bytes \<Rightarrow> nat \<Rightarrow> file_block_device bafs_volume \<Rightarrow> nat tool_result" where
  "bench_read_files fuel root_number [] read_buffer verified_files vol = Done verified_files"
| "bench_read_files fuel root_number (file_index # indices) read_buffer verified_files vol =
     (case volume_lookup_directory_entry fuel file_device vol root_number (bench_name file_index) of
        Ok None \<Rightarrow> Failed FileMissing
      | Ok (Some file_inode_number) \<Rightarrow>
          (case volume_read_file_data fuel file_device vol file_inode_number 0 read_buffer of
             (Ok bytes_read, read_buffer) \<Rightarrow>
               if length read_buffer < bytes_read then ToolPanic
               else if take bytes_read read_buffer \<noteq> bench_pattern bytes_read then Failed DataCorrupted
               else bench_read_files fuel root_number indices read_buffer (verified_files + 1) vol
           | (Err e, _) \<Rightarrow> Failed (VolumeFailed e)
           | (Panic, _) \<Rightarrow> ToolPanic
           | (OutOfFuel, _) \<Rightarrow> ToolHang)
      | Err e \<Rightarrow> Failed (VolumeFailed e)
      | Panic \<Rightarrow> ToolPanic
      | OutOfFuel \<Rightarrow> ToolHang)"

text \<open>The value of \<open>bench\<close> is the number of verified files.\<close>

definition subcommand_bench :: "nat \<Rightarrow> nat \<Rightarrow> bytes \<Rightarrow> (host, nat) top" where
  "subcommand_bench rounds fuel image_path =
     bindT (with_image image_path (with_volume file_device (\<lambda>volume.
       bindT (bench_write_files rounds fuel (root_inode_number (superblock volume)) (bench_pattern bench_file_size)
         [0..<bench_file_count]) (\<lambda>_. callT (bafs_unmount file_device)) volume))) (\<lambda>_.
     with_image image_path (with_volume file_device (\<lambda>volume2.
       bindT (\<lambda>vol. (bench_read_files fuel (root_inode_number (superblock volume2)) [0..<bench_file_count]
         (replicate bench_file_size 0) 0 vol, vol)) (\<lambda>verified_files.
       bindT (callT (bafs_unmount file_device)) (\<lambda>_.
       retT verified_files)) volume2)))"

section \<open>The entry point\<close>

text \<open>The exit status: zero, one for an error, 101 for a panic; none when the program does not end.
  \<open>std::env::args\<close> panics on an argument that is not UTF-8.\<close>

primrec exit_status :: "'a tool_result \<Rightarrow> nat option" where
  "exit_status (Done x) = Some 0"
| "exit_status (Failed e) = Some 1"
| "exit_status ToolPanic = Some 101"
| "exit_status ToolHang = None"

definition finish :: "'a tool_result \<times> host \<Rightarrow> nat option \<times> host" where
  "finish = apfst exit_status"

definition tools_main :: "nat \<Rightarrow> nat \<Rightarrow> bytes list \<Rightarrow> host \<Rightarrow> nat option \<times> host" where
  "tools_main rounds fuel arguments h =
     (if \<not> list_all valid_utf8 arguments then (Some 101, h)
      else if length arguments < 3 then (Some 1, h)
      else
        let subcommand = arguments ! 1; image_path = arguments ! 2 in
        if subcommand = map of_char ''format'' then finish (subcommand_format fuel image_path h)
        else if subcommand = map of_char ''info'' then finish (subcommand_info image_path h)
        else if subcommand = map of_char ''ls'' then
          finish (subcommand_ls fuel image_path (if 3 < length arguments then arguments ! 3 else [47]) h)
        else if subcommand = map of_char ''write'' then
          if length arguments < 5 then (Some 1, h)
          else finish (subcommand_write rounds fuel image_path (arguments ! 3) (arguments ! 4) h)
        else if subcommand = map of_char ''read'' then
          if length arguments < 4 then (Some 1, h)
          else finish (subcommand_read fuel image_path (arguments ! 3) h)
        else if subcommand = map of_char ''bench'' then finish (subcommand_bench rounds fuel image_path h)
        else (Some 1, h))"

section \<open>Running a command\<close>

lemma callT_simps [simp]:
  "m s = (Ok x, s') \<Longrightarrow> callT m s = (Done x, s')"
  "m s = (Err e, s') \<Longrightarrow> callT m s = (Failed (VolumeFailed e), s')"
  by (simp_all add: callT_def)

lemma bindT_simps [simp]:
  "m s = (Done x, s') \<Longrightarrow> bindT m f s = f x s'"
  "m s = (Failed e, s') \<Longrightarrow> bindT m f s = (Failed e, s')"
  by (simp_all add: bindT_def)

lemma retT_simp [simp]: "retT x s = (Done x, s)" "failT e s = (Failed e, s)"
  by (simp_all add: retT_def failT_def)

lemma fbd_reopen: "fbd_valid d \<Longrightarrow> fbd_open sound_host (Some (fbd_file d)) = Some d"
  by (cases d) (simp add: fbd_open_def fbd_valid_def SECTOR_SIZE_BYTES_def)

lemma with_image_run:
  assumes "host_files h path = Some (fbd_file d)" "host_storage h = sound_host" "fbd_valid d" "m d = (r, d')"
  shows "with_image path m h = (r, h\<lparr>host_files := (host_files h)(path \<mapsto> fbd_file d')\<rparr>)"
  using fbd_reopen [OF assms(3)] by (simp add: with_image_def assms(1,2,4))

lemma with_volume_run:
  assumes "fbd_valid d" "clean file_device fbd_file d sb" "unat (last_committed_transaction_id sb) + 1 < 2 ^ 64"
    and "m (mounted d sb) = (r, vol)"
  shows "with_volume file_device m d = (r, device vol)"
  using file_store.mount_clean [OF assms(1-3)] assms(4) by (simp add: with_volume_def)

section \<open>Reading a file\<close>

lemma read_chunks_fs:
  assumes "represents D vol fs" "deep fuel" "file_holds D (device vol) (cow_of [] vol) fs ino bs" "unat off \<le> length bs"
  shows "read_chunks fuel D vol ino off out = (Ok (), out @ drop (unat off) bs)"
  using assms(4)
proof (induction "length bs - unat off" arbitrary: off out rule: less_induct)
  case less
  define m where "m = min chunk_size (length bs - unat off)"
  obtain inode :: bafs_inode where "unat (file_size_in_bytes inode) = length bs" using assms(3) unfolding file_holds_def by blast
  then have len: "length bs < 2 ^ 64" using unat_bound [of "file_size_in_bytes inode"] by simp
  have c: "0 < chunk_size" "chunk_size < 2 ^ 64" by (simp_all add: chunk_size_def)
  let ?buf = "write_slice (replicate chunk_size 0) 0 (slice (unat off) (unat off + m) bs)"
  have rd: "volume_read_file_data fuel D vol ino off (replicate chunk_size 0) = (Ok m, ?buf)"
    by (rule volume_read_fs [OF assms(1-3)]) (simp_all add: chunk_size_def m_def)
  have t: "take m ?buf = take m (drop (unat off) bs)"
    using less.prems by (simp add: m_def write_slice_def slice_def min_def)
  show ?case
  proof (cases "m = 0")
    case True
    then have "length bs \<le> unat off" using c(1) by (simp add: m_def)
    with True show ?thesis by (subst read_chunks.simps) (simp add: rd)
  next
    case False
    have "m \<le> length bs - unat off" by (simp add: m_def)
    then have "unat off + m < 2 ^ 64" "m < 2 ^ 64" using less.prems len by linarith+
    then have a: "add_u off (of_nat m) = Ok (off + of_nat m)" "unat (off + of_nat m) = unat off + m"
      by (simp_all add: add_u_def unat_word_ariths unat_of_nat)
    have "\<not> chunk_size < m" by (simp add: m_def)
    with False have run: "read_chunks fuel D vol ino off out =
        (if m < chunk_size then (Ok (), out @ take m (drop (unat off) bs))
         else read_chunks fuel D vol ino (off + of_nat m) (out @ take m (drop (unat off) bs)))"
      by (subst read_chunks.simps) (simp add: rd t a(1))
    show ?thesis
    proof (cases "m < chunk_size")
      case True
      then have "m = length bs - unat off" by (simp add: m_def)
      with run True show ?thesis by simp
    next
      case f: False
      have le: "unat (off + of_nat m) \<le> length bs" "length bs - unat (off + of_nat m) < length bs - unat off"
        using a(2) False by (auto simp: m_def min_def split: if_splits)
      have "take m (drop (unat off) bs) @ drop (unat off + m) bs = drop (unat off) bs"
        by (metis add.commute append_take_drop_id drop_drop)
      with less.hyps [OF le(2,1)] run f a(2) show ?thesis by simp
    qed
  qed
qed

lemma read_command:
  assumes "host_files h path = Some (fbd_file d)" "host_storage h = sound_host" "fbd_valid d" "clean file_device fbd_file d sb"
    and "unat (last_committed_transaction_id sb) + 2 < 2 ^ 64" "volume_fs file_device (mounted d sb) fs" "deep fuel"
    and "fs_entries fs (root_inode_number sb) (name_of_path p) = Some e"
    and "file_holds file_device d (mounted_state sb) fs (child_inode_number e) bs"
  shows "\<exists>img. subcommand_read fuel path p h =
    (Done (), h\<lparr>host_files := (host_files h)(path \<mapsto> img), host_stdout := host_stdout h @ bs\<rparr>)"
proof -
  let ?v = "mounted d sb" and ?n = "name_of_path p"
  have r: "represents file_device ?v fs" and v: "fs_valid (allocated_inode_count (superblock ?v)) fs"
    using assms(6) by (simp_all add: volume_fs_def)
  obtain dir where dir: "fs_inodes fs (root_inode_number sb) = Some dir" "is_directory dir"
    using fs_validD(4) [OF v assms(8)] by blast
  then have l: "volume_lookup_directory_entry fuel file_device ?v (root_inode_number sb) ?n = Ok (Some (child_inode_number e))"
    by (simp add: volume_lookup_fs [OF r assms(7)] assms(8))
  have c: "read_chunks fuel file_device ?v (child_inode_number e) 0 [] = (Ok (), bs)"
    using read_chunks_fs [OF r assms(7), of "child_inode_number e" bs 0] assms(9) by simp
  obtain vol1 where f: "flush_and_commit file_device ?v = (Ok (), vol1)"
    using file_store.flush_idle [OF assms(3-6)] by blast
  have "read_file fuel ?n ?v = (Done (Done (), bs), vol1)"
    by (simp add: read_file_def l c f bafs_unmount_def)
  then have "with_volume file_device (read_file fuel ?n) d = (Done (Done (), bs), device vol1)"
    using assms(5) by (intro with_volume_run [OF assms(3,4)]) simp_all
  from with_image_run [where m = "with_volume file_device (read_file fuel ?n)", OF assms(1-3) this]
  show ?thesis by (auto simp: subcommand_read_def)
qed

section \<open>Writing a file\<close>

text \<open>A new file in a directory and its data, in memory: the content is the data, and the other files and
  names stay.\<close>

lemma store_new_file:
  assumes "volume_fs D vol fs" "funds D rounds (66 * blocks_of data + 260 + u) vol" "deep fuel"
    and "unat (allocated_inode_count (superblock vol)) + 1 < 2 ^ 64"
    and "fs_inodes fs p = Some d" "is_directory d" "valid_name n" "fs_entries fs p n = None" "length data + 4096 < 2 ^ 64"
  shows "\<exists>k vol1. volume_create_file rounds fuel D p n vol = (Ok k, vol1) \<and> funds D rounds (66 * blocks_of data + 130 + u) vol1 \<and>
    (data = [] \<or> unat (volume_next_free_block vol1) + blocks_of data \<le> unat (total_block_count (superblock vol1)) \<longrightarrow>
     (\<exists>vol2 fs2. volume_write_file_data rounds fuel D k 0 data vol1 = (Ok (length data), vol2) \<and> op_step vol vol2 \<and>
        funds D rounds u vol2 \<and> volume_fs D vol2 fs2 \<and>
        fs_entries fs2 = fs_entries (put_entry p (new_entry k CHILD_TYPE_REGULAR_FILE n) fs) \<and>
        file_holds D (device vol2) (cow_of [] vol2) fs2 k data \<and>
        (\<forall>ino bs. file_holds D (device vol) (cow_of [] vol) fs ino bs \<longrightarrow> file_holds D (device vol2) (cow_of [] vol2) fs2 ino bs)))"
proof -
  let ?k = "allocated_inode_count (superblock vol) + 1" and ?n = "blocks_of data"
  let ?i = "new_regular_file ?k (next_transaction_id vol) 0"
  let ?fs = "put_entry p (new_entry ?k CHILD_TYPE_REGULAR_FILE n) (put_inode ?i fs)"
  have k: "kind_ok new_regular_file CHILD_TYPE_REGULAR_FILE" by (simp add: kind_ok_def)
  have f: "funds D rounds (130 + (66 * ?n + 130 + u)) vol" using assms(2) by (simp add: algebra_simps)
  obtain vol1 where c: "volume_create_file rounds fuel D p n vol = (Ok ?k, vol1)" "op_step vol vol1"
      "funds D rounds (66 * ?n + 130 + u) vol1" "volume_fs D vol1 ?fs"
    using volume_create_fs(1) [OF assms(1) f assms(3,4) k assms(5,6) refl refl, of n] assms(7,8)
    by (auto simp: volume_create_file_def)
  have v: "fs_valid (allocated_inode_count (superblock vol)) fs" using assms(1) by (simp add: volume_fs_def)
  note un = fs_valid_unused [OF v assms(4)]
  have ino: "inode_number ?i = ?k" by (rule kind_ok_inode(2) [OF k])
  have i: "fs_inodes ?fs ?k = Some ?i" using ino by simp
  have x: "fs_extents ?fs ?k = {}" using fs_validD(3) [OF v, of ?k] un(1) by auto
  have e: "file_holds D (device vol1) (cow_of [] vol1) ?fs ?k []" by (rule new_file_empty [OF i x])
  have old: "file_holds D (device vol1) (cow_of [] vol1) ?fs ino bs" "ino \<noteq> ?k"
    if "file_holds D (device vol) (cow_of [] vol) fs ino bs" for ino bs
    using create_keeps_files [OF c(2) un(1) ino that] that un(1) by (auto simp: file_holds_def)
  have en: "fs_entries ?fs = fs_entries (put_entry p (new_entry ?k CHILD_TYPE_REGULAR_FILE n) fs)"
    by (intro ext) (simp add: put_entry_entries)
  show ?thesis
  proof (cases "data = []")
    case True
    then have "volume_write_file_data rounds fuel D ?k 0 data vol1 = (Ok (length data), vol1)"
      by (simp add: volume_write_file_data_def)
    with c e old(1) en True funds_mono [OF c(3), of u] show ?thesis
      by (intro exI [of _ ?k] exI [of _ vol1] conjI impI exI [of _ ?fs]) simp_all
  next
    case False
    show ?thesis
    proof (rule exI [of _ ?k], rule exI [of _ vol1], rule conjI [OF c(1) conjI [OF c(3)]], rule impI)
      assume "data = [] \<or> unat (volume_next_free_block vol1) + ?n \<le> unat (total_block_count (superblock vol1))"
      with False have fit: "unat (volume_next_free_block vol1) + ?n \<le> unat (total_block_count (superblock vol1))" by simp
      have b: "unat (0 :: u64) + length data + 4096 < 2 ^ 64" "unat (allocated_block_count ?i) + ?n < 2 ^ 64"
        using assms(9) write_no_overflow(6) [of 0 data] by (simp_all add: new_regular_file_def)
      let ?fs2 = "write_spec ?k 0 data (volume_next_free_block vol1) (next_transaction_id vol1) ?i ?fs"
      obtain vol2 where w: "volume_write_file_data rounds fuel D ?k 0 data vol1 = (Ok (length data), vol2)" "volume_fs D vol2 ?fs2"
          "blocks_at D vol2 ?fs2 data (volume_next_free_block vol1)" "vol_step vol1 vol2" "funds D rounds u vol2"
        using volume_write_fs [OF c(4,3) assms(3) i new_inode_kinds(1) False b fit refl] by blast
      have "file_holds D (device vol2) (cow_of [] vol2) ?fs2 ?k ([] @ data)"
        by (rule write_appends [OF w(4,3) refl i ino new_inode_kinds(1) e _ _ b(1)]) simp_all
      moreover have "op_step vol vol2" using c(2) vol_step_trans [OF _ w(4)] by (auto simp: op_step_def)
      moreover have "fs_entries ?fs2 = fs_entries (put_entry p (new_entry ?k CHILD_TYPE_REGULAR_FILE n) fs)"
        unfolding en [symmetric] by (simp add: write_spec_def)
      moreover have "file_holds D (device vol2) (cow_of [] vol2) ?fs2 ino bs" if "file_holds D (device vol) (cow_of [] vol) fs ino bs" for ino bs
        by (rule write_keeps_others [OF w(4) old(2) [OF that] ino old(1) [OF that]])
      ultimately show "\<exists>vol2 fs2. volume_write_file_data rounds fuel D ?k 0 data vol1 = (Ok (length data), vol2) \<and> op_step vol vol2 \<and>
          funds D rounds u vol2 \<and> volume_fs D vol2 fs2 \<and>
          fs_entries fs2 = fs_entries (put_entry p (new_entry ?k CHILD_TYPE_REGULAR_FILE n) fs) \<and>
          file_holds D (device vol2) (cow_of [] vol2) fs2 ?k data \<and>
          (\<forall>ino bs. file_holds D (device vol) (cow_of [] vol) fs ino bs \<longrightarrow> file_holds D (device vol2) (cow_of [] vol2) fs2 ino bs)"
        using w(1,2,5) by (intro exI [of _ vol2] exI [of _ ?fs2]) simp
    qed
  qed
qed

section \<open>Write and then read\<close>

lemma write_command:
  assumes "host_files h ipath = Some (fbd_file d)" "host_storage h = sound_host" "host_files h src = Some data" "src \<noteq> [45]"
    and "fbd_valid d" "clean file_device fbd_file d sb" "unat (last_committed_transaction_id sb) + 1 < 2 ^ 64"
    and "volume_create_file rounds fuel file_device (root_inode_number sb) (name_of_path dest) (mounted d sb) = (Ok k, vol1)"
    and "volume_write_file_data rounds fuel file_device k 0 data vol1 = (Ok n, vol2)"
    and "flush_and_commit file_device vol2 = (Ok (), vol3)"
  shows "subcommand_write rounds fuel ipath dest src h
    = (Done (n, k), h\<lparr>host_files := (host_files h)(ipath \<mapsto> fbd_file (device vol3))\<rparr>)"
proof -
  let ?m = "write_file rounds fuel (name_of_path dest) data"
  have "?m (mounted d sb) = (Done (n, k), vol3)"
    using assms(8-10) by (simp add: write_file_def bafs_unmount_def)
  then have "with_volume file_device ?m d = (Done (n, k), device vol3)"
    by (rule with_volume_run [OF assms(5-7)])
  from with_image_run [where m = "with_volume file_device ?m", OF assms(1,2,5) this] assms(3,4)
  show ?thesis by (simp add: subcommand_write_def)
qed

text \<open>C8: the tool writes and reads files. Let the image hold a volume with nothing to replay,
  on a host whose transfers are complete; take a source file, and a destination whose last component is a new name of the root
  directory. When creating the file and writing the data succeed in memory, and the dirty blocks fit the
  image and the journal, \<open>write\<close> succeeds with the number of bytes and the inode, changes no other file of
  the host, and afterwards \<open>read\<close> with the same last component sends exactly the data to the standard
  output; for every other name of the root directory, up to hash collisions, it sends the content that the
  file had before.\<close>

theorem tool_write_then_read:
  assumes host: "host_files h ipath = Some (fbd_file d)" "host_storage h = sound_host" "host_files h src = Some data" "src \<noteq> [45]"
    and vol: "fbd_valid d" "clean file_device fbd_file d sb" "unat (last_committed_transaction_id sb) + 3 < 2 ^ 64"
      "volume_fs file_device (mounted d sb) fs" "deep fuel"
      "funds file_device rounds (66 * blocks_of data + 260) (mounted d sb)" "unat (allocated_inode_count sb) + 1 < 2 ^ 64"
    and name: "fs_inodes fs (root_inode_number sb) = Some dir" "is_directory dir" "valid_name (name_of_path dest)"
      "fs_entries fs (root_inode_number sb) (name_of_path dest) = None" "length data + 4096 < 2 ^ 64"
    and work: "volume_create_file rounds fuel file_device (root_inode_number sb) (name_of_path dest) (mounted d sb) = (Ok k, vol1)"
      "data = [] \<or> unat (volume_next_free_block vol1) + blocks_of data \<le> unat (total_block_count (superblock vol1))"
      "volume_write_file_data rounds fuel file_device k 0 data vol1 = (Ok n, vol2)"
    and fits: "4096 * unat (volume_next_free_block vol2) \<le> length (fbd_file d)"
      "28 + 4104 * length (dirty_block_cache vol2) \<le> 4096 * unat (journal_size_in_blocks sb)"
  shows "\<exists>h1. subcommand_write rounds fuel ipath dest src h = (Done (length data, k), h1) \<and>
    (\<forall>p. p \<noteq> ipath \<longrightarrow> host_files h1 p = host_files h p) \<and>
    (\<forall>p. name_of_path p = name_of_path dest \<longrightarrow>
       (\<exists>h2. subcommand_read fuel ipath p h1 = (Done (), h2) \<and> host_stdout h2 = host_stdout h @ data)) \<and>
    (\<forall>p e bs. xxhash64_with_seed_zero (name_of_path p) \<noteq> xxhash64_with_seed_zero (name_of_path dest) \<and>
       fs_entries fs (root_inode_number sb) (name_of_path p) = Some e \<and>
       file_holds file_device d (mounted_state sb) fs (child_inode_number e) bs \<longrightarrow>
       (\<exists>h2. subcommand_read fuel ipath p h1 = (Done (), h2) \<and> host_stdout h2 = host_stdout h @ bs))"
proof -
  let ?r = "root_inode_number sb" and ?n = "name_of_path dest"
  have f: "funds file_device rounds (66 * blocks_of data + 260 + 0) (mounted d sb)" using vol(6) by simp
  have c: "unat (allocated_inode_count (superblock (mounted d sb))) + 1 < 2 ^ 64" using vol(7) by simp
  obtain fs2 where w: "n = length data" "op_step (mounted d sb) vol2" "volume_fs file_device vol2 fs2"
      "fs_entries fs2 = fs_entries (put_entry ?r (new_entry k CHILD_TYPE_REGULAR_FILE ?n) fs)"
      "file_holds file_device (device vol2) (cow_of [] vol2) fs2 k data"
      "\<And>ino bs. file_holds file_device d (mounted_state sb) fs ino bs \<Longrightarrow>
        file_holds file_device (device vol2) (cow_of [] vol2) fs2 ino bs"
    using store_new_file [OF vol(4) f vol(5) c name] work by auto
  have "unat (journal_size_in_blocks sb) \<le> 16384" using vol(2) by (simp add: clean_def stable_def journal_layout_def)
  then have l: "length (dirty_block_cache vol2) < 2 ^ 32" using fits(2) by simp
  have t: "unat (last_committed_transaction_id sb) + 2 < 2 ^ 64" using vol(3) by simp
  note p = file_store.op_step_pending [OF vol(1,2) w(2) t fits(1) l]
  have "fbd_valid (device vol2)" using p(2) vol(1) by simp
  from file_store.pending_flush [OF this p(1) w(3) fits(2)]
  obtain vol3 where v: "flush_and_commit file_device vol2 = (Ok (), vol3)" "carries file_device vol2 vol3 fs2"
      "fbd_valid (device vol3)" "clean file_device fbd_file (device vol3) (superblock vol3)"
      "vol3 = mounted (device vol3) (superblock vol3)" "same_roots (commit_superblock vol2) (superblock vol3)"
      "last_committed_transaction_id (superblock vol3) = next_transaction_id vol2"
    by blast
  define d3 sb3 where "d3 = device vol3" and "sb3 = superblock vol3"
  have m: "vol3 = mounted d3 sb3" using v(5) by (simp add: d3_def sb3_def)
  have r3: "root_inode_number sb3 = ?r"
    using v(6) p(3) by (auto simp: same_roots_def commit_superblock_def sb3_def)
  have "unat (last_committed_transaction_id sb3) = unat (last_committed_transaction_id sb) + 1"
    using v(7) p(4) t by (simp add: sb3_def unat_plus_1)
  then have t3: "unat (last_committed_transaction_id sb3) + 2 < 2 ^ 64" using vol(3) by simp
  have fs3: "volume_fs file_device (mounted d3 sb3) fs2"
      "\<And>ino bs. file_holds file_device (device vol2) (cow_of [] vol2) fs2 ino bs \<Longrightarrow> file_holds file_device d3 (mounted_state sb3) fs2 ino bs"
    using v(2) unfolding m carries_def by simp_all
  define h1 where "h1 = h\<lparr>host_files := (host_files h)(ipath \<mapsto> fbd_file d3)\<rparr>"
  have h1: "host_files h1 ipath = Some (fbd_file d3)" "host_storage h1 = sound_host" "host_stdout h1 = host_stdout h"
    using host(2) by (simp_all add: h1_def)
  have rd: "\<exists>h2. subcommand_read fuel ipath q h1 = (Done (), h2) \<and> host_stdout h2 = host_stdout h @ bs"
    if "fs_entries fs2 ?r (name_of_path q) = Some e"
      "file_holds file_device (device vol2) (cow_of [] vol2) fs2 (child_inode_number e) bs" for q e bs
    using read_command [OF h1(1,2) v(3,4) [folded d3_def sb3_def] t3 fs3(1) vol(5), of q e bs] that fs3(2) h1(3)
    by (auto simp: r3)
  have "subcommand_write rounds fuel ipath dest src h = (Done (length data, k), h1)"
    using write_command [OF host vol(1,2) _ work(1,3) v(1)] t w(1) by (simp add: h1_def d3_def)
  moreover have "\<exists>h2. subcommand_read fuel ipath q h1 = (Done (), h2) \<and> host_stdout h2 = host_stdout h @ data"
    if q: "name_of_path q = ?n" for q
    by (rule rd [of q "new_entry k CHILD_TYPE_REGULAR_FILE ?n"]) (use w(5) q in \<open>simp_all add: w(4) put_entry_entries new_entry_def\<close>)
  moreover have "\<exists>h2. subcommand_read fuel ipath q h1 = (Done (), h2) \<and> host_stdout h2 = host_stdout h @ bs"
    if q: "xxhash64_with_seed_zero (name_of_path q) \<noteq> xxhash64_with_seed_zero ?n"
      "fs_entries fs ?r (name_of_path q) = Some e" "file_holds file_device d (mounted_state sb) fs (child_inode_number e) bs" for q e bs
    by (rule rd [of q e]) (use w(6) [OF q(3)] q(1,2) in \<open>auto simp: w(4) put_entry_entries\<close>)
  ultimately show ?thesis by (auto simp: h1_def)
qed

text \<open>An example: a blank image of 8 GiB and an empty source file.\<close>

definition blank_image :: file_block_device where
  "blank_image = \<lparr>fbd_file = replicate 8589934592 0, fbd_total_sector_count = 16777216, fbd_io = sound_host\<rparr>"

definition tool_host :: host where
  "tool_host = \<lparr>host_files = [[105] \<mapsto> fbd_file blank_image, [115] \<mapsto> []], host_stdin = [], host_stdout = [],
     host_storage = sound_host\<rparr>"

definition tool_units :: nat where
  "tool_units = 192153584101140989"

lemma blank_image:
  "fbd_valid blank_image" "data_area file_device blank_image = 16387" "large_enough file_device blank_image"
  "total_sector_count file_device blank_image div 8 = 2097152" "compute_journal_size_in_blocks 2097152 = 16384"
  "compute_data_area_start_block 2097152 = 16387"
proof -
  show "fbd_valid blank_image" by (simp add: fbd_valid_def blank_image_def)
  show t: "total_sector_count file_device blank_image div 8 = 2097152" by (simp add: file_device_def blank_image_def)
  show "compute_journal_size_in_blocks 2097152 = 16384"
    by (simp add: compute_journal_size_in_blocks_def BAFS_JOURNAL_SIZE_MIN_BLOCKS_def BAFS_JOURNAL_SIZE_MAX_BLOCKS_def Let_def)
  then show s: "compute_data_area_start_block 2097152 = 16387"
    by (simp add: compute_data_area_start_block_def BAFS_JOURNAL_START_BLOCK_ADDRESS_def)
  show a: "data_area file_device blank_image = 16387" unfolding data_area_def t s by simp
  show "large_enough file_device blank_image" by (simp add: large_enough_def t a)
qed

lemma cache_length:
  assumes "cache_ok cache" "\<forall>e\<in>set cache. a \<le> unat (fst e) \<and> unat (fst e) < b"
  shows "length cache \<le> b - a"
proof -
  have "distinct (map fst cache)" using assms(1) by (simp add: cache_ok_def strict_sorted_iff)
  then have "length cache = card (fst ` set cache)" by (metis distinct_card length_map set_map)
  also have "\<dots> = card (unat ` fst ` set cache)" by (intro card_image [symmetric] inj_onI) (simp add: word_unat_eq_iff)
  also have "\<dots> \<le> card {a..<b}" using assms(2) by (intro card_mono) auto
  finally show ?thesis by simp
qed

lemma tool_volume:
  obtains d sb vol1 where "bafs_format 13 file_device default_format_options blank_image = (Ok (), d)" "fbd_valid d"
    "clean file_device fbd_file d sb" "sb = new_superblock default_format_options 2097152"
    "volume_fs file_device (mounted d sb) empty_fs" "funds file_device 100 tool_units (mounted d sb)" "length (fbd_file d) = 8589934592"
    "volume_create_file 100 13 file_device 1 [97] (mounted d sb) = (Ok 2, vol1)"
    "unat (volume_next_free_block vol1) \<le> 29162" "length (dirty_block_cache vol1) \<le> 12768"
proof -
  have b: "(0 :: nat) < 13" "(3 :: nat) \<le> 100" "data_area file_device blank_image + 7 + 96 * (2 + tool_units) < 2 ^ 64"
      "unat (total_sector_count file_device blank_image div 8) + 2 + tool_units < 2 ^ 64"
    unfolding blank_image(2,4) by (simp_all add: tool_units_def)
  obtain d vol where f: "bafs_format 13 file_device default_format_options blank_image = (Ok (), d)"
      "volume_fs file_device vol empty_fs" "funds file_device 100 tool_units vol" "fbd_valid d"
      "total_sector_count file_device d = total_sector_count file_device blank_image" "vol = mounted d (superblock vol)"
      "superblock vol = new_superblock default_format_options 2097152" "clean file_device fbd_file d (superblock vol)"
    using file_store.format_and_mount [OF blank_image(1,3) b, of default_format_options]
    unfolding blank_image(4) by (elim exE conjE)
  let ?sb = "new_superblock default_format_options 2097152"
  have m: "vol = mounted d ?sb" using f(6,7) by simp
  have k: "kind_ok new_regular_file CHILD_TYPE_REGULAR_FILE" by (simp add: kind_ok_def)
  have n: "valid_name [97]" by code_simp
  have fu: "funds file_device 100 (130 + (tool_units - 130)) vol" using f(3) by (simp add: tool_units_def)
  have c: "unat (allocated_inode_count (superblock vol)) + 1 < 2 ^ 64" by (simp add: f(7))
  obtain vol1 where v: "volume_create_file 100 13 file_device 1 [97] vol = (Ok 2, vol1)" "op_step vol vol1"
      "funds file_device 100 (tool_units - 130) vol1"
    using volume_create_fs(1) [OF f(2) fu deep_13 c k empty_root(1,2) refl refl, of "[97]"] n empty_root(3)
    by (auto simp: volume_create_file_def f(7))
  have nf: "unat (volume_next_free_block vol1) < 29162 + 1" using v(3) by (auto simp: funds_def tool_units_def)
  have len: "length (fbd_file d) = 8589934592"
    using file_store.image_size [of d] f(4,5) by (simp add: file_device_def blank_image_def)
  have "length (dirty_block_cache vol1) \<le> unat (volume_next_free_block vol1) - 16394"
    using op_step_cache [of d ?sb vol1] v(2) unfolding m by (intro cache_length) (simp_all add: blank_image(6))
  with nf have "length (dirty_block_cache vol1) \<le> 12768" by simp
  with f m v nf len show thesis
    by (intro that [of d ?sb vol1]) simp_all
qed

theorem tool_write_then_read_witness:
  "\<exists>h h1 h2. subcommand_format 13 [105] tool_host = (Done (), h) \<and>
     subcommand_write 100 13 [105] [47, 97] [115] h = (Done (0, 2), h1) \<and>
     subcommand_read 13 [105] [97] h1 = (Done (), h2) \<and> host_stdout h2 = []"
proof -
  obtain d sb vol1 where v: "bafs_format 13 file_device default_format_options blank_image = (Ok (), d)" "fbd_valid d"
      "clean file_device fbd_file d sb" "sb = new_superblock default_format_options 2097152"
      "volume_fs file_device (mounted d sb) empty_fs" "funds file_device 100 tool_units (mounted d sb)" "length (fbd_file d) = 8589934592"
      "volume_create_file 100 13 file_device 1 [97] (mounted d sb) = (Ok 2, vol1)"
      "unat (volume_next_free_block vol1) \<le> 29162" "length (dirty_block_cache vol1) \<le> 12768"
    by (rule tool_volume)
  let ?h = "tool_host\<lparr>host_files := (host_files tool_host)([105] \<mapsto> fbd_file d)\<rparr>"
  have s: "root_inode_number sb = 1" "unat (last_committed_transaction_id sb) + 3 < 2 ^ 64"
      "unat (allocated_inode_count sb) + 1 < 2 ^ 64" "unat (journal_size_in_blocks sb) = 16384"
    by (simp_all add: v(4) blank_image(5) BAFS_ROOT_INODE_NUMBER_def)
  have h: "host_files ?h [105] = Some (fbd_file d)" "host_storage ?h = sound_host" "host_files ?h [115] = Some []" "([115] :: bytes) \<noteq> [45]"
    by (simp_all add: tool_host_def)
  have n: "name_of_path [47, 97] = [97]" "name_of_path [97] = [97]" "valid_name [97]" by code_simp+
  have bytes: "mul_u (fbd_total_sector_count blank_image) (of_nat SECTOR_SIZE_BYTES) = Ok 8589934592"
    by (simp add: blank_image_def mul_u_def SECTOR_SIZE_BYTES_def)
  have fmt: "subcommand_format 13 [105] tool_host = (Done (), ?h)"
    unfolding subcommand_format_def
    by (rule with_image_run [OF _ _ blank_image(1)]) (use bytes v(1) in \<open>simp_all add: tool_host_def\<close>)
  have f: "funds file_device 100 (66 * blocks_of [] + 260) (mounted d sb)"
    by (rule funds_mono [OF v(6)]) (simp add: blocks_of_def tool_units_def)
  have w: "volume_write_file_data 100 13 file_device 2 0 [] vol1 = (Ok 0, vol1)" by (simp add: volume_write_file_data_def)
  have "\<exists>h1. subcommand_write 100 13 [105] [47, 97] [115] ?h = (Done (length ([] :: bytes), 2), h1) \<and>
      (\<forall>p. name_of_path p = name_of_path [47, 97] \<longrightarrow>
         (\<exists>h2. subcommand_read 13 [105] p h1 = (Done (), h2) \<and> host_stdout h2 = host_stdout ?h @ []))"
    using tool_write_then_read [OF h v(2,3) s(2) v(5) deep_13 f s(3), of "new_directory 1 1 0" "[47, 97]" 2 vol1 0 vol1]
      empty_root v(7-10) w n(1,3) s(1,4) by auto
  then obtain h1 where "subcommand_write 100 13 [105] [47, 97] [115] ?h = (Done (0, 2), h1)"
      "\<exists>h2. subcommand_read 13 [105] [97] h1 = (Done (), h2) \<and> host_stdout h2 = []"
    using n(1,2) by (auto simp: tool_host_def)
  with fmt show ?thesis by blast
qed

end
