(* ===== verification/Spec2Isabelle.thy ===== *)
theory Spec2Isabelle
  imports Bafs_Tools
begin

text \<open>
  A verification development of BAFS, a copy-on-write, checksummed, journaled file system, with its
  kernel interface and its command-line tool.

  \<^bold>\<open>The program.\<close> A volume lives on a block device of 512-byte sectors, used in blocks of 4096 bytes. Blocks
  1 and 2 hold the superblock and its backup, then comes the journal, then the data area. Three B-trees
  hang off the superblock: the inode tree (inodes, directory entries, file extents), the free-extent tree
  and the checksum tree. A tree is never changed in place: an operation writes changed nodes to new
  addresses, taken from a bump pointer, into a cache of dirty blocks, and reports the blocks it
  superseded. A commit writes the dirty blocks to the journal, then to their places, then the
  superblock with the new roots; a mount replays a complete record that the superblock does not know.

  \<^bold>\<open>Conventions\<close> (\<open>Bafs_Prelude\<close>). Rust integers are words of their width. Arithmetic that panics on
  overflow in the debug profile is written with \<open>add_u\<close>, \<open>sub_u\<close>, \<open>mul_u\<close>. A fallible function returns \<open>'a result\<close>:
  \<open>Ok\<close>, \<open>Err\<close> with the error of \<open>error.rs\<close>, \<open>Panic\<close>, or \<open>OutOfFuel\<close> when a bound of the model ran out. Code that
  changes state is a function from the state to a result and the new state, composed with \<open>bindS\<close>; errors keep
  the state that they leave behind. Byte arrays are lists of bytes, with \<open>to_le\<close> and \<open>from_le\<close> for integers.

  \<^bold>\<open>The parts\<close>, with the sources under \<^verbatim>\<open>src/\<close>:

  \<^item> \<open>Bafs_Error\<close>: \<^verbatim>\<open>src/error.rs\<close>, the error messages.
  \<^item> \<open>Block_Device\<close>: \<^verbatim>\<open>src/block_device.rs\<close>, the trait as a record of operations on a device state, and the
    devices that implement it: the image file of the tool (the host's storage, with its errors and short
    transfers, is a parameter) and the two test devices of \<^verbatim>\<open>tests/integration_test.rs\<close>. The contract is the locale
    \<open>block_store\<close>: reads and writes inside the image, where a failing write has no effect; \<open>reliable_store\<close> adds
    that writes succeed. All three devices are interpretations, the image file for a host whose transfers
    are complete.
  \<^item> \<open>Checksum\<close>: \<^verbatim>\<open>src/checksum.rs\<close>. The table-driven CRC32C equals the bit-serial register and detects every
    burst of up to four bytes.
  \<^item> \<open>Superblock\<close>: \<^verbatim>\<open>src/superblock.rs\<close>. Codec, detection of damage, and that writing it keeps a valid copy
    wherever it stops.
  \<^item> \<open>Btree_Node\<close>, \<open>Btree\<close>: \<^verbatim>\<open>src/btree.rs\<close>, the nodes with their block format and the dirty-block cache, and
    the operations. \<open>Btree_Spec\<close> has the abstract tree and the invariant, \<open>Btree_Read\<close> and \<open>Btree_Write\<close> the
    correctness of lookup, scan, insertion and deletion, \<open>Btree_Map\<close> the contract \<open>kv_tree\<close> of a tree as a
    map, its interpretations, and the bound on the height.
  \<^item> \<open>Inode\<close>, \<open>Checksum_Tree\<close>, \<open>Extent\<close>, \<open>Dir\<close>: \<^verbatim>\<open>src/inode.rs\<close>, \<^verbatim>\<open>src/checksum_tree.rs\<close>, \<^verbatim>\<open>src/extent.rs\<close> and
    \<^verbatim>\<open>src/dir.rs\<close> on top of \<open>kv_tree\<close>; free space refines a set of blocks (\<open>block_allocator\<close>), a directory a map
    from names to entries up to hash collisions (\<open>directory\<close>).
  \<^item> \<open>Journal\<close>, \<open>Journal_Recovery\<close>: \<^verbatim>\<open>src/journal.rs\<close>, the record, the commit and the recovery as sequences of
    block writes, and what a mount finds when such a sequence stops anywhere.
  \<^item> \<open>Volume\<close>: \<^verbatim>\<open>src/volume.rs\<close>, every operation on the record \<open>bafs_volume\<close>. Its lemmas: \<open>Free_Pool\<close> and
    \<open>Volume_State\<close> (returning freed blocks, cost of an operation), \<open>File_System\<close> (the abstract file system of
    inodes, entries, extents and checksums, and \<open>represents\<close>), \<open>Volume_Namespace\<close> (create), \<open>Volume_Data\<close> (read),
    \<open>Volume_Write\<close>, \<open>Volume_Unlink\<close>, \<open>Volume_Mount\<close> (commit and mount), \<open>Volume_Format\<close>, \<open>Volume_Session\<close> (the step
    relation \<open>session\<close>), and \<open>Volume_Properties\<close> with the properties of a whole volume.
  \<^item> \<open>Kernel_Vfs\<close>: \<^verbatim>\<open>src/kernel.rs\<close>, the methods of the kernel inode and their error codes.
  \<^item> \<open>Bafs_Tools\<close>: \<^verbatim>\<open>bafs-tools/src/main.rs\<close>, the subcommands as functions of the host.

  \<^bold>\<open>What is shown.\<close> For the volume: every session of operations and commits, failing ones included, keeps
  the file system consistent; commits are atomic and durable under failing writes; create, write, read and
  unlink implement their counterparts on the abstract file system; format, mount and commit succeed where
  they can and say so where they cannot; returning freed blocks ends. For the trees, the journal and the
  codecs: refinement of maps, sets and directories, round trips, and detection of damage. For the
  interfaces: listing and lookup agree, the error codes of the kernel calls, that no kernel call ever
  commits, and that the tool reads what it wrote. Where the code does not do what it means to, a
  theorem says what it does (a root split that frees the root twice, colliding names, the inode left by a
  refused creation, recovery without the roots).

  \<^bold>\<open>Bounds.\<close> \<open>fuel\<close> bounds the depth of the recursion over pointers that are read from disk. \<open>deep fuel\<close> asks for 13,
  and a tree that the operations built has height at most 12 (\<open>Btree_Map\<close>), so that \<open>OutOfFuel\<close> does not occur in
  the theorems that assume it. \<open>rounds\<close> bounds the repetitions of returning freed blocks; the number of
  committed blocks of the free tree suffices, and \<open>funds\<close> includes it. \<open>funds D rounds u vol\<close> also says that \<open>96 * u\<close>
  addresses are left: a tree operation takes at most 32, and a freed block costs up to three of them. The
  address space is \<open>2\<^sup>6\<^sup>4\<close>; that addresses stay inside the device is a separate hypothesis, because the code
  does not check it when it allocates. The crash theorems take at most 509 blocks per commit, for then the
  addresses of a record are in its first journal block and a record cut short names no old block; its
  checksum could only fail to stop it by chance.

  \<^bold>\<open>Not modelled.\<close> \<^verbatim>\<open>src/lib.rs\<close> (re-exports), the test cases, message texts and the rendering of byte counts,
  timings of the benchmark, and the cell by which the kernel shares a volume (the code assumes a single
  thread). Blocks torn inside a single block write, and reads that fail inside the device, are outside
  the contract \<open>block_store\<close>.
\<close>

end
